(* ===== verification/Prelude.thy ===== *)
theory Prelude
  imports Main "HOL-Library.Word" "HOL-Library.Char_ord"
begin

text \<open>
  Shared by every component of the development: the faults a C function can end
  in, sequencing of fallible steps, memory cells, little-endian integers and C strings.

  \<^item> A C \<open>char\<close> is a HOL character, so a byte buffer is a \<^typ>\<open>string\<close>.
  \<^item> Memory that a program has allocated but may not have written is a list of cells:
    \<open>None\<close> is an indeterminate byte, \<open>Some c\<close> a byte that was stored.
  \<^item> A function that can leave by a long jump of R's error handler, or run into undefined
    behaviour, returns a value of the sum \<open>fault + 'a\<close>.
\<close>

named_theorems rbind_iffs \<open>when a sequence of fallible steps succeeds or fails\<close>
named_theorems wire_simps \<open>byte-level equations of the serialisation format\<close>

subsection \<open>Faults and sequencing\<close>

datatype ub =
    NullDeref | UninitRead | OutOfBounds | UseAfterFree | BadPairlist | SharedWrite

datatype r_error =
    ShortRead | ReadFailed | ConnClosed | WriteFailed | AllocFailed
  | Unimplemented nat | BadElement | ZeroName | InvalidArg | BadResponse | SendFailed

datatype fault = RError r_error | Undefined ub | OutOfFuel

type_synonym cell = "char option"

fun rbind :: "'e + 'a \<Rightarrow> ('a \<Rightarrow> 'e + 'b) \<Rightarrow> 'e + 'b" where
  "rbind (Inl e) f = Inl e"
| "rbind (Inr x) f = f x"

lemma rbind_cong [fundef_cong]:
  "m = m' \<Longrightarrow> (\<And>x. m' = Inr x \<Longrightarrow> f x = g x) \<Longrightarrow> rbind m f = rbind m' g"
  by (cases m') auto

lemma rbind_Inr_iff [rbind_iffs]: "rbind m f = Inr y \<longleftrightarrow> (\<exists>x. m = Inr x \<and> f x = Inr y)"
  by (cases m) auto

lemma rbind_Inl_iff [rbind_iffs]:
  "rbind m f = Inl e \<longleftrightarrow> m = Inl e \<or> (\<exists>x. m = Inr x \<and> f x = Inl e)"
  by (cases m) auto

lemma rbind_assoc: "rbind (rbind m f) g = rbind m (\<lambda>x. rbind (f x) g)"
  by (cases m) auto

lemma rbind_Inr_right [simp]: "rbind m Inr = m"
  by (cases m) auto

text \<open>A loop that runs a fallible step over a list, threading a state.\<close>

primrec foldr_m :: "('s \<Rightarrow> 'x \<Rightarrow> 'e + 's) \<Rightarrow> 's \<Rightarrow> 'x list \<Rightarrow> 'e + 's" where
  "foldr_m f s [] = Inr s"
| "foldr_m f s (x # xs) = rbind (f s x) (\<lambda>s. foldr_m f s xs)"

lemma foldr_m_append: "foldr_m f s (xs @ ys) = rbind (foldr_m f s xs) (\<lambda>s. foldr_m f s ys)"
  by (induction xs arbitrary: s) (simp_all add: rbind_assoc)

text \<open>A counted loop that collects the results of a fallible step.\<close>

primrec repeat_m :: "nat \<Rightarrow> ('s \<Rightarrow> 'e + 'a \<times> 's) \<Rightarrow> 's \<Rightarrow> 'e + 'a list \<times> 's" where
  "repeat_m 0 f s = Inr ([], s)"
| "repeat_m (Suc n) f s =
     rbind (f s) (\<lambda>(x, s). rbind (repeat_m n f s) (\<lambda>(xs, s). Inr (x # xs, s)))"

subsection \<open>Memory cells\<close>

definition uninit :: "nat \<Rightarrow> cell list" where
  "uninit n = replicate n None"

text \<open>\<open>memcpy(dst + off, bs, |bs|)\<close> on a block: the cells from \<open>off\<close> on are replaced.
  The caller has checked the bounds.\<close>

definition overwrite :: "nat \<Rightarrow> 'a list \<Rightarrow> 'a list \<Rightarrow> 'a list" where
  "overwrite off bs mem = take off mem @ bs @ drop (off + length bs) mem"

text \<open>Reading \<open>n\<close> bytes through a pointer to the block \<open>b\<close>.\<close>

definition read_mem :: "nat \<Rightarrow> 'a list \<Rightarrow> fault + 'a list" where
  "read_mem n b = (if length b < n then Inl (Undefined OutOfBounds) else Inr (take n b))"

text \<open>Using the first \<open>n\<close> cells of a block as data: they have to exist and to be written.\<close>

definition read_cells :: "nat \<Rightarrow> cell list \<Rightarrow> fault + string" where
  "read_cells n mem =
     (if length mem < n then Inl (Undefined OutOfBounds)
      else if None \<in> set (take n mem) then Inl (Undefined UninitRead)
      else Inr (map the (take n mem)))"

lemma read_cells_Some: "take n mem = map Some s \<Longrightarrow> length s = n \<Longrightarrow> read_cells n mem = Inr s"
proof -
  assume t: "take n mem = map Some s" and n: "length s = n"
  have "n \<le> length mem"
    using arg_cong [OF t, of length] n by simp
  moreover have "None \<notin> set (take n mem)" "map the (take n mem) = s"
    by (auto simp: t comp_def)
  ultimately show ?thesis
    by (simp add: read_cells_def)
qed

lemma length_overwrite [simp]:
  "off + length bs \<le> length mem \<Longrightarrow> length (overwrite off bs mem) = length mem"
  by (simp add: overwrite_def)

lemma overwrite_0: "length bs = length mem \<Longrightarrow> overwrite 0 bs mem = bs"
  by (simp add: overwrite_def)

lemma length_uninit [simp]: "length (uninit n) = n"
  by (simp add: uninit_def)

subsection \<open>Little-endian integers\<close>

primrec le_bytes :: "nat \<Rightarrow> nat \<Rightarrow> string" where
  "le_bytes 0 n = []"
| "le_bytes (Suc k) n = char_of n # le_bytes k (n div 256)"

fun le_val :: "string \<Rightarrow> nat" where
  "le_val [] = 0"
| "le_val (c # cs) = of_char c + 256 * le_val cs"

lemma length_le_bytes [simp]: "length (le_bytes k n) = k"
  by (induction k arbitrary: n) auto

lemma le_val_le_bytes [wire_simps]: "le_val (le_bytes k n) = n mod 256 ^ k"
proof (induction k arbitrary: n)
  case 0
  then show ?case by simp
next
  case (Suc k)
  have "n mod (256 * 256 ^ k) = 256 * (n div 256 mod 256 ^ k) + n mod 256"
    by (rule mod_mult2_eq)
  with Suc show ?case by (simp add: of_char_of)
qed

lemma le_bytes_le_val [wire_simps]: "le_bytes (length cs) (le_val cs) = cs"
proof (induction cs)
  case (Cons c cs)
  have c: "of_char c < (256::nat)"
    by simp
  then have "(of_char c + 256 * le_val cs) div 256 = le_val cs"
    by simp
  moreover have "char_of (of_char c + 256 * le_val cs) = char_of ((of_char c + 256 * le_val cs) mod 256)"
    by (simp only: char_of_mod_256)
  ultimately show ?case using Cons c by simp
qed simp

lemma le_val_bound: "le_val cs < 256 ^ length cs"
proof (induction cs)
  case (Cons c cs)
  have c: "of_char c < (256::nat)"
    by simp
  have "of_char c + 256 * le_val cs < 256 * Suc (le_val cs)"
    using c by (simp only: mult_Suc_right)
  also have "\<dots> \<le> 256 * 256 ^ length cs"
    using Cons by (simp only: Suc_leI mult_le_mono2)
  finally show ?case by simp
qed simp

text \<open>Words in the machine's (little-endian) memory layout.\<close>

definition bytes32 :: "32 word \<Rightarrow> string" where
  "bytes32 w = le_bytes 4 (unat w)"

definition bytes64 :: "64 word \<Rightarrow> string" where
  "bytes64 w = le_bytes 8 (unat w)"

definition word32 :: "string \<Rightarrow> 32 word" where
  "word32 cs = of_nat (le_val cs)"

definition word64 :: "string \<Rightarrow> 64 word" where
  "word64 cs = of_nat (le_val cs)"

lemma length_bytes32 [simp]: "length (bytes32 w) = 4"
  by (simp add: bytes32_def)

lemma length_bytes64 [simp]: "length (bytes64 w) = 8"
  by (simp add: bytes64_def)

lemma word32_bytes32 [simp, wire_simps]: "word32 (bytes32 w) = w"
proof -
  have "unat w < 256 ^ 4"
    using unsigned_less [of w, where ?'a = nat] by simp
  then show ?thesis by (simp add: word32_def bytes32_def le_val_le_bytes)
qed

lemma word64_bytes64 [simp, wire_simps]: "word64 (bytes64 w) = w"
proof -
  have "unat w < 256 ^ 8"
    using unsigned_less [of w, where ?'a = nat] by simp
  then show ?thesis by (simp add: word64_def bytes64_def le_val_le_bytes)
qed

text \<open>Cutting a byte run into elements of a fixed width.\<close>

fun chunks_of :: "nat \<Rightarrow> nat \<Rightarrow> string \<Rightarrow> string list" where
  "chunks_of w 0 cs = []"
| "chunks_of w (Suc n) cs = take w cs # chunks_of w n (drop w cs)"

lemma chunks_of_concat:
  "(\<And>x. length (f x) = w) \<Longrightarrow> chunks_of w (length xs) (concat (map f xs)) = map f xs"
  by (induction xs) auto

lemma length_concat_map_const:
  "(\<And>x. length (f x) = w) \<Longrightarrow> length (concat (map f xs)) = w * length xs"
  by (induction xs) auto

subsection \<open>C strings\<close>

abbreviation nul :: char where
  "nul \<equiv> CHR 0x00"

text \<open>The string a pointer into a buffer denotes: everything up to the first NUL.\<close>

definition cstr :: "string \<Rightarrow> string" where
  "cstr buf = takeWhile (\<lambda>c. c \<noteq> nul) buf"

lemma cstr_append_nul [simp]: "nul \<notin> set s \<Longrightarrow> cstr (s @ nul # rest) = s"
  by (induction s) (auto simp: cstr_def)

lemma nul_notin_cstr [simp]: "nul \<notin> set (cstr buf)"
  by (induction buf) (auto simp: cstr_def)

lemma cstr_id: "nul \<notin> set s \<Longrightarrow> cstr s = s"
  by (induction s) (auto simp: cstr_def)

definition strlen :: "string \<Rightarrow> nat" where
  "strlen s = length (cstr s)"

text \<open>\<open>strcmp(a, b) == 0\<close>.\<close>

definition same_str :: "string \<Rightarrow> string \<Rightarrow> bool" where
  "same_str a b \<longleftrightarrow> cstr a = cstr b"

lemma cstr_cstr [simp]: "cstr (cstr s) = cstr s"
  by (simp add: cstr_id)

subsection \<open>Text\<close>

definition is_eol :: "char \<Rightarrow> bool" where
  "is_eol c \<longleftrightarrow> c = CHR 0x0D \<or> c = CHR 0x0A"

definition is_blank :: "char \<Rightarrow> bool" where
  "is_blank c \<longleftrightarrow> c = CHR '' '' \<or> c = CHR 0x09"

definition is_upper :: "char \<Rightarrow> bool" where
  "is_upper c \<longleftrightarrow> CHR ''A'' \<le> c \<and> c \<le> CHR ''Z''"

definition is_digit :: "char \<Rightarrow> bool" where
  "is_digit c \<longleftrightarrow> CHR ''0'' \<le> c \<and> c \<le> CHR ''9''"

definition is_space :: "char \<Rightarrow> bool" where
  "is_space c \<longleftrightarrow> c = CHR '' '' \<or> CHR 0x09 \<le> c \<and> c \<le> CHR 0x0D"

definition dec_digits :: "string \<Rightarrow> nat" where
  "dec_digits ds = foldl (\<lambda>n c. 10 * n + (of_char c - 48)) 0 ds"

text \<open>\<open>atol\<close> of the C library: white space, a sign, digits; the value saturates at the ends of
  the 64-bit range.\<close>

definition atol :: "string \<Rightarrow> int" where
  "atol s =
     (let t = dropWhile is_space s; neg = (t \<noteq> [] \<and> hd t = CHR ''-'');
          t = (if t \<noteq> [] \<and> (hd t = CHR ''-'' \<or> hd t = CHR ''+'') then tl t else t);
          n = int (dec_digits (takeWhile is_digit t)) in
      if neg then max (- n) (- (2 ^ 63)) else min n (2 ^ 63 - 1))"

lemma takeWhile_stop: "list_all P xs \<Longrightarrow> \<not> P y \<Longrightarrow> takeWhile P (xs @ y # ys) = xs"
  by (induction xs) auto

lemma is_upper_simps [simp]: "\<not> is_upper nul" "\<not> is_upper (CHR '' '')" "\<not> is_blank nul" "\<not> is_eol nul"
  by (simp_all add: is_upper_def is_blank_def is_eol_def less_eq_char_def)

text \<open>A run that ends in a given fault.\<close>

definition fails_with :: "fault \<Rightarrow> fault + 'a \<Rightarrow> bool" where
  "fails_with f r = (case r of Inl g \<Rightarrow> g = f | Inr _ \<Rightarrow> False)"

lemma fails_with_simps [simp]: "fails_with f (Inl g) = (g = f)" "fails_with f (Inr x) = False"
  by (simp_all add: fails_with_def)

text \<open>A run that ends in an accepted fault or in a result with a property.\<close>

definition run_ok :: "(fault \<Rightarrow> bool) \<Rightarrow> ('a \<Rightarrow> bool) \<Rightarrow> fault + 'a \<Rightarrow> bool" where
  "run_ok bad Q r = (case r of Inl f \<Rightarrow> bad f | Inr x \<Rightarrow> Q x)"

lemma run_ok_simps [simp]: "run_ok bad Q (Inl f) = bad f" "run_ok bad Q (Inr x) = Q x"
  by (simp_all add: run_ok_def)

lemma run_ok_rbind: "run_ok bad R m \<Longrightarrow> (\<And>x. R x \<Longrightarrow> run_ok bad Q (f x)) \<Longrightarrow> run_ok bad Q (rbind m f)"
  by (cases m) auto

lemma run_ok_mono: "run_ok bad R m \<Longrightarrow> (\<And>f. bad f \<Longrightarrow> bad' f) \<Longrightarrow> (\<And>x. R x \<Longrightarrow> Q x) \<Longrightarrow> run_ok bad' Q m"
  by (cases m) auto

lemma run_ok_rbind_eq:
  "run_ok bad R m \<Longrightarrow> (\<And>x. m = Inr x \<Longrightarrow> R x \<Longrightarrow> run_ok bad Q (f x)) \<Longrightarrow> run_ok bad Q (rbind m f)"
  by (cases m) auto

text \<open>Every fault but the one that says that a bound on the number of steps was too small.\<close>

definition any_fault :: "fault \<Rightarrow> bool" where
  "any_fault f \<longleftrightarrow> f \<noteq> OutOfFuel"

lemma any_fault_simps [simp]: "any_fault (Undefined u)" "any_fault (RError e)" "\<not> any_fault OutOfFuel"
  by (simp_all add: any_fault_def)

lemma read_cells_ok [simp]: "run_ok any_fault (\<lambda>_. True) (read_cells n m)"
  by (simp add: read_cells_def)

lemma read_mem_ok [simp]: "run_ok any_fault (\<lambda>_. True) (read_mem n m)"
  by (simp add: read_mem_def)

end
