(* ===== verification/Heap.thy ===== *)
theory Heap
  imports Prelude
begin

text \<open>
  Linked structures: the part of the C heap that holds the records of one type, with
  pointers that may be null, and the predicates that read a list off its links.

  An address is handed out once (the counter \<open>brk\<close> only grows), so the use of a freed
  record is visible as an address that is no longer in the heap.
\<close>

type_synonym ptr = "nat option"

abbreviation (input) NULL :: ptr where "NULL \<equiv> None"

record 'a heap =
  mem :: "nat \<rightharpoonup> 'a"
  brk :: nat

definition empty_heap :: "'a heap" where
  "empty_heap = \<lparr>mem = (\<lambda>_. None), brk = 0\<rparr>"

definition heap_ok :: "'a heap \<Rightarrow> bool" where
  "heap_ok h \<longleftrightarrow> (\<forall>a v. mem h a = Some v \<longrightarrow> a < brk h)"

definition new_rec :: "'a \<Rightarrow> 'a heap \<Rightarrow> nat \<times> 'a heap" where
  "new_rec v h = (brk h, h\<lparr>mem := (mem h)(brk h \<mapsto> v), brk := Suc (brk h)\<rparr>)"

text \<open>Addresses that are in use are below \<open>brk\<close>, so there are at most \<open>brk\<close> of them: the bound of every
  walk over a linked list.\<close>

lemma heap_fuel:
  assumes "heap_ok h" "distinct xs" "set xs \<subseteq> dom (mem h)"
  shows "length xs \<le> brk h"
proof -
  have "set xs \<subseteq> {..<brk h}"
    using assms(1,3) by (auto simp: heap_ok_def)
  then have "card (set xs) \<le> card {..<brk h}"
    by (rule card_mono [rotated]) simp
  with assms(2) show ?thesis
    by (simp add: distinct_card)
qed

text \<open>Reading and writing through a pointer.\<close>

definition deref :: "'a heap \<Rightarrow> ptr \<Rightarrow> fault + 'a" where
  "deref h p =
     (case p of None \<Rightarrow> Inl (Undefined NullDeref)
      | Some a \<Rightarrow> (case mem h a of None \<Rightarrow> Inl (Undefined UseAfterFree) | Some v \<Rightarrow> Inr v))"

definition put_rec :: "nat \<Rightarrow> 'a \<Rightarrow> 'a heap \<Rightarrow> 'a heap" where
  "put_rec a v h = h\<lparr>mem := (mem h)(a \<mapsto> v)\<rparr>"

definition assign :: "'a heap \<Rightarrow> ptr \<Rightarrow> ('a \<Rightarrow> 'a) \<Rightarrow> fault + 'a heap" where
  "assign h p f = rbind (deref h p) (\<lambda>v. Inr (put_rec (the p) (f v) h))"

definition free_rec :: "ptr \<Rightarrow> 'a heap \<Rightarrow> fault + 'a heap" where
  "free_rec p h =
     (case p of None \<Rightarrow> Inr h
      | Some a \<Rightarrow> (case mem h a of None \<Rightarrow> Inl (Undefined UseAfterFree)
                  | Some v \<Rightarrow> Inr (h\<lparr>mem := (mem h)(a := None)\<rparr>)))"

lemma deref_Some [simp]: "mem h a = Some v \<Longrightarrow> deref h (Some a) = Inr v"
  by (simp add: deref_def)

lemma deref_Inr_iff: "deref h p = Inr v \<longleftrightarrow> (\<exists>a. p = Some a \<and> mem h a = Some v)"
  by (auto simp: deref_def split: option.splits)

lemma assign_Some [simp]: "mem h a = Some v \<Longrightarrow> assign h (Some a) f = Inr (put_rec a (f v) h)"
  by (simp add: assign_def)

lemma free_rec_Some [simp]: "mem h a = Some v \<Longrightarrow> free_rec (Some a) h = Inr (h\<lparr>mem := (mem h)(a := None)\<rparr>)"
  by (simp add: free_rec_def)

lemma mem_put_rec [simp]: "mem (put_rec a v h) = (mem h)(a \<mapsto> v)"
  by (simp add: put_rec_def)

lemma brk_put_rec [simp]: "brk (put_rec a v h) = brk h"
  by (simp add: put_rec_def)

lemma heap_ok_put_rec [simp]: "heap_ok h \<Longrightarrow> mem h a = Some w \<Longrightarrow> heap_ok (put_rec a v h)"
  by (auto simp: heap_ok_def)

lemma heap_ok_free [simp]: "heap_ok h \<Longrightarrow> heap_ok (h\<lparr>mem := (mem h)(a := None)\<rparr>)"
  by (auto simp: heap_ok_def)

lemma heap_ok_new: "heap_ok h \<Longrightarrow> new_rec v h = (a, h') \<Longrightarrow>
    heap_ok h' \<and> mem h a = None \<and> mem h' = (mem h)(a \<mapsto> v)"
  by (auto simp: heap_ok_def new_rec_def less_Suc_eq)

lemma heap_ok_empty [simp]: "heap_ok empty_heap"
  by (simp add: heap_ok_def empty_heap_def)

subsection \<open>Singly linked chains\<close>

text \<open>\<open>seg m nx p xs q\<close>: from \<open>p\<close> the links \<open>nx\<close> run through the addresses \<open>xs\<close> and
  then are \<open>q\<close>.\<close>

fun seg :: "(nat \<rightharpoonup> 'a) \<Rightarrow> ('a \<Rightarrow> ptr) \<Rightarrow> ptr \<Rightarrow> nat list \<Rightarrow> ptr \<Rightarrow> bool" where
  "seg m nx p [] q = (p = q)"
| "seg m nx p (x # xs) q = (p = Some x \<and> (\<exists>v. m x = Some v \<and> seg m nx (nx v) xs q))"

lemma seg_append: "seg m nx p (xs @ ys) q \<longleftrightarrow> (\<exists>r. seg m nx p xs r \<and> seg m nx r ys q)"
  by (induction xs arbitrary: p) auto

lemma seg_mem: "seg m nx p xs q \<Longrightarrow> x \<in> set xs \<Longrightarrow> m x \<noteq> None"
  by (induction xs arbitrary: p) auto

lemma seg_cong: "(\<And>x. x \<in> set xs \<Longrightarrow> m x = m' x) \<Longrightarrow> seg m nx p xs q = seg m' nx p xs q"
  by (induction xs arbitrary: p) auto

lemma seg_upd_other [simp]: "x \<notin> set xs \<Longrightarrow> seg (m(x := v)) nx p xs q = seg m nx p xs q"
  by (rule seg_cong) auto

lemma seg_start: "seg m nx p xs q \<Longrightarrow> p = (case xs of [] \<Rightarrow> q | x # _ \<Rightarrow> Some x)"
  by (cases xs) auto

text \<open>Redirecting the last link of a chain.\<close>

lemma seg_relink:
  "seg m nx p (xs @ [x]) q \<Longrightarrow> distinct (xs @ [x]) \<Longrightarrow> m x = Some v \<Longrightarrow> nx w = r \<Longrightarrow>
    seg (m(x \<mapsto> w)) nx p (xs @ [x]) r"
  by (auto simp: seg_append)

subsection \<open>Doubly linked chains\<close>

definition first_ptr :: "nat list \<Rightarrow> ptr \<Rightarrow> ptr" where
  "first_ptr xs q = (case xs of [] \<Rightarrow> q | x # _ \<Rightarrow> Some x)"

definition last_ptr :: "ptr \<Rightarrow> nat list \<Rightarrow> ptr" where
  "last_ptr p xs = (if xs = [] then p else Some (last xs))"

fun dseg :: "(nat \<rightharpoonup> 'a) \<Rightarrow> ('a \<Rightarrow> ptr) \<Rightarrow> ('a \<Rightarrow> ptr) \<Rightarrow> ptr \<Rightarrow> nat list \<Rightarrow> ptr \<Rightarrow> bool" where
  "dseg m pv nx p [] q = True"
| "dseg m pv nx p (x # xs) q =
     (\<exists>v. m x = Some v \<and> pv v = p \<and> nx v = first_ptr xs q \<and> dseg m pv nx (Some x) xs q)"

lemma first_ptr_simps [simp]: "first_ptr [] q = q" "first_ptr (x # xs) q = Some x"
  "first_ptr (xs @ ys) q = first_ptr xs (first_ptr ys q)"
  by (auto simp: first_ptr_def split: list.splits)

lemma last_ptr_simps [simp]: "last_ptr p [] = p" "last_ptr p (xs @ [x]) = Some x"
  "last_ptr p [x] = Some x"
  by (auto simp: last_ptr_def)

lemma last_ptr_Cons [simp]: "last_ptr p (x # xs) = last_ptr (Some x) xs"
  by (auto simp: last_ptr_def)

lemma dseg_append: "dseg m pv nx p (xs @ ys) q \<longleftrightarrow>
    dseg m pv nx p xs (first_ptr ys q) \<and> dseg m pv nx (last_ptr p xs) ys q"
  by (induction xs arbitrary: p) auto

lemma dseg_mem: "dseg m pv nx p xs q \<Longrightarrow> x \<in> set xs \<Longrightarrow> m x \<noteq> None"
  by (induction xs arbitrary: p) auto

lemma dseg_cong: "(\<And>x. x \<in> set xs \<Longrightarrow> m x = m' x) \<Longrightarrow> dseg m pv nx p xs q = dseg m' pv nx p xs q"
  by (induction xs arbitrary: p) auto

lemma dseg_upd_other [simp]: "x \<notin> set xs \<Longrightarrow> dseg (m(x := v)) pv nx p xs q = dseg m pv nx p xs q"
  by (rule dseg_cong) auto

subsection \<open>Taking an element out of a chain\<close>

text \<open>The elements \<open>ps\<close> lead to an element that is taken out: its predecessor, if there is one, is
  redirected by \<open>f\<close> to what follows it, and otherwise the start is. Nothing changes but links.\<close>

lemma seg_unlink:
  assumes "seg (mem h) nx p ps r" "distinct ps" "heap_ok h" "\<And>w. nx (f w) = q"
  shows "\<exists>h'. (if last_ptr NULL ps \<noteq> NULL then assign h (last_ptr NULL ps) f else Inr h) = Inr h' \<and>
    seg (mem h') nx (if ps = [] then q else p) ps q \<and> heap_ok h' \<and> brk h' = brk h \<and>
    (\<forall>y. y \<notin> set ps \<longrightarrow> mem h' y = mem h y) \<and>
    (\<forall>y. mem h' y = mem h y \<or> (\<exists>w. mem h y = Some w \<and> mem h' y = Some (f w)))"
proof (cases ps rule: rev_cases)
  case Nil
  with assms(3) show ?thesis
    by simp
next
  case (snoc qs z)
  obtain u where u: "mem h z = Some u"
    using assms(1) by (auto simp: snoc seg_append)
  have "seg ((mem h)(z \<mapsto> f u)) nx p (qs @ [z]) q"
    using assms(1,2,4) u by (intro seg_relink [where v = u]) (simp_all add: snoc)
  with u assms(3) show ?thesis
    by (simp add: snoc)
qed

lemma unlink_image:
  assumes "\<forall>y. mem h' y = mem h y \<or> (\<exists>w. mem h y = Some w \<and> mem h' y = Some (f w))" "\<And>w. g (f w) = g w"
  shows "map_option g (mem h' y) = map_option g (mem h y)"
  using assms(1) [THEN spec, of y] assms(2) by auto

lemma seg_first: "seg m nx p (xs @ y # ys) q \<Longrightarrow> distinct (xs @ y # ys) \<Longrightarrow> p = Some y \<longleftrightarrow> xs = []"
  by (cases xs) auto

end
