(* ===== verification/Sock.thy ===== *)
theory Sock
  imports Prelude
begin

text \<open>
  Sockets and file descriptors as the program sees them, and the loops it runs on them:
  \<open>send_buf\<close> of src/osrv.c, \<open>http_send\<close> and \<open>send_response\<close> of src/http.c, and the
  \<open>fetch\<close> of src/fd\_restore.c and src/sock\_restore.c.

  The kernel and the peer are not part of the sources. What they will answer is a script
  carried by the socket, and every statement is about all scripts: \<open>rx\<close> holds what the next
  reads find (bytes, or an error with its errno; after the last event the peer has closed),
  \<open>plan\<close> how many bytes each write accepts (a negative number is an error, past its end
  everything is accepted), \<open>tx\<close> collects what was sent.
\<close>

subsection \<open>The environment\<close>

datatype rx_event = RxData string | RxErr nat

record sock =
  rx :: "rx_event list"
  tx :: string
  plan :: "int list"
  errno :: nat
  is_open :: bool

definition EAGAIN :: nat where "EAGAIN = 11"

definition sock_recv :: "nat \<Rightarrow> sock \<Rightarrow> int \<times> string \<times> sock" where
  "sock_recv cap s =
     (if cap = 0 then (0, [], s)
      else case rx s of
        [] \<Rightarrow> (0, [], s)
      | RxErr e # es \<Rightarrow> (- 1, [], s\<lparr>rx := es, errno := e\<rparr>)
      | RxData d # es \<Rightarrow>
          if length d \<le> cap then (int (length d), d, s\<lparr>rx := es\<rparr>)
          else (int cap, take cap d, s\<lparr>rx := RxData (drop cap d) # es\<rparr>))"

definition sock_send :: "string \<Rightarrow> sock \<Rightarrow> int \<times> sock" where
  "sock_send buf s =
     (case plan s of
        [] \<Rightarrow> (int (length buf), s\<lparr>tx := tx s @ buf\<rparr>)
      | p # ps \<Rightarrow>
          if p < 0 then (- 1, s\<lparr>plan := ps\<rparr>)
          else (min p (int (length buf)), s\<lparr>plan := ps, tx := tx s @ take (nat p) buf\<rparr>))"

definition closesocket :: "sock \<Rightarrow> sock" where
  "closesocket s = s\<lparr>is_open := False\<rparr>"

text \<open>What is left to receive: each event counts one more than its bytes.\<close>

fun event_size :: "rx_event \<Rightarrow> nat" where
  "event_size (RxData d) = Suc (length d)"
| "event_size (RxErr e) = 1"

definition rx_size :: "sock \<Rightarrow> nat" where
  "rx_size s = sum_list (map event_size (rx s))"

lemma sock_recv_size:
  "sock_recv cap s = (n, bs, s') \<Longrightarrow> n \<noteq> 0 \<Longrightarrow> rx_size s' < rx_size s"
  by (auto simp: sock_recv_def rx_size_def split: if_splits list.splits rx_event.splits)

lemma sock_recv_len: "sock_recv cap s = (n, bs, s') \<Longrightarrow> 0 \<le> n \<Longrightarrow> int (length bs) = n \<and> length bs \<le> cap"
  by (auto simp: sock_recv_def split: if_splits list.splits rx_event.splits)

lemma sock_recv_frame:
  "sock_recv cap s = (n, bs, s') \<Longrightarrow> tx s' = tx s \<and> plan s' = plan s \<and> is_open s' = is_open s"
  by (auto simp: sock_recv_def split: if_splits list.splits rx_event.splits)

lemma sock_send_frame:
  "sock_send buf s = (n, s') \<Longrightarrow> rx s' = rx s \<and> errno s' = errno s \<and> is_open s' = is_open s"
  by (auto simp: sock_send_def split: if_splits list.splits)

lemma sock_send_tx: "sock_send buf s = (n, s') \<Longrightarrow> tx s' = tx s @ take (nat n) buf \<and> n \<le> int (length buf)"
  by (auto simp: sock_send_def min_def split: if_splits list.splits)

subsection \<open>Sending everything\<close>

definition MAX_SEND :: nat where "MAX_SEND = 1024 * 1024"

text \<open>The loop of \<open>send_buf\<close> and \<open>http_send\<close>: 0 when all was sent, 1 when a send
  accepted nothing, -1 on an error.\<close>

function send_loop :: "string \<Rightarrow> sock \<Rightarrow> int \<times> sock" where
  "send_loop buf s =
     (if buf = [] then (0, s)
      else
        (let ts = (if MAX_SEND < length buf then MAX_SEND else length buf);
             (n, s) = sock_send (take ts buf) s in
         if n < 1 then (if n < 0 then - 1 else 1, s) else send_loop (drop (nat n) buf) s))"
  by pat_completeness auto
termination
  by (relation "measure (\<lambda>(buf, s). length buf)") auto

declare send_loop.simps [simp del]

definition send_buf :: "string \<Rightarrow> sock \<Rightarrow> int \<times> sock" where
  "send_buf buf s = send_loop buf s"

definition http_send :: "string \<Rightarrow> sock \<Rightarrow> int \<times> sock" where
  "http_send buf s = send_loop buf s"

text \<open>\<open>send_response\<close> sends without the size limit and reports every failure as -1.\<close>

function send_response :: "string \<Rightarrow> sock \<Rightarrow> int \<times> sock" where
  "send_response buf s =
     (if buf = [] then (0, s)
      else (let (n, s) = sock_send buf s in
            if n < 1 then (- 1, s) else send_response (drop (nat n) buf) s))"
  by pat_completeness auto
termination
  by (relation "measure (\<lambda>(buf, s). length buf)") auto

declare send_response.simps [simp del]

lemma send_loop_spec:
  "send_loop buf s = (r, s') \<Longrightarrow>
    rx s' = rx s \<and> errno s' = errno s \<and> is_open s' = is_open s \<and>
    (\<exists>k. tx s' = tx s @ take k buf \<and> k \<le> length buf \<and> (r = 0 \<longleftrightarrow> k = length buf))"
proof (induction buf s arbitrary: r s' rule: send_loop.induct)
  case (1 buf s)
  show ?case
  proof (cases "buf = []")
    case True
    then show ?thesis using "1.prems" by (auto simp: send_loop.simps [of "[]"])
  next
    case False
    let ?ts = "if MAX_SEND < length buf then MAX_SEND else length buf"
    obtain n s1 where s1: "sock_send (take ?ts buf) s = (n, s1)"
      by (cases "sock_send (take ?ts buf) s")
    have n: "n \<le> int (length buf)" "tx s1 = tx s @ take (nat n) buf"
      using sock_send_tx [OF s1] by (auto simp: min_def split: if_splits)
    note fr = sock_send_frame [OF s1]
    show ?thesis
    proof (cases "n < 1")
      case True
      then have "(r = -1 \<or> r = 1) \<and> s' = s1"
        using "1.prems" False s1 by (auto simp: send_loop.simps [of buf] Let_def split: if_splits)
      then show ?thesis
        using fr n True False by (auto intro!: exI [of _ 0])
    next
      case nlt: False
      then have rec: "send_loop (drop (nat n) buf) s1 = (r, s')"
        using "1.prems" False s1 by (simp add: send_loop.simps [of buf] Let_def)
      obtain k where k: "tx s' = tx s1 @ take k (drop (nat n) buf)" "k \<le> length buf - nat n"
          "r = 0 \<longleftrightarrow> k = length buf - nat n" "rx s' = rx s1" "errno s' = errno s1" "is_open s' = is_open s1"
        using "1.IH" [OF False refl s1 [symmetric] refl nlt rec] by auto
      have "tx s' = tx s @ take (nat n + k) buf"
        using k(1) n(2) by (simp add: take_add)
      with k fr n nlt show ?thesis
        by (intro conjI exI [of _ "nat n + k"]) auto
    qed
  qed
qed

text \<open>A peer that keeps accepting: every write takes at least \<open>m\<close> bytes (or all there are).\<close>

definition accepts :: "int \<Rightarrow> sock \<Rightarrow> bool" where
  "accepts m s \<longleftrightarrow> (\<forall>p\<in>set (plan s). m \<le> p)"

lemma sock_send_accepts:
  "accepts m s \<Longrightarrow> sock_send buf s = (n, s') \<Longrightarrow> accepts m s' \<and> min m (int (length buf)) \<le> n"
  by (auto simp: accepts_def sock_send_def split: list.splits if_splits)

lemma send_loop_accepts:
  "accepts 1 s \<Longrightarrow> \<exists>s'. send_loop buf s = (0, s') \<and> accepts 1 s' \<and> tx s' = tx s @ buf \<and>
    rx s' = rx s \<and> errno s' = errno s \<and> is_open s' = is_open s"
proof (induction buf s rule: send_loop.induct)
  case (1 buf s)
  show ?case
  proof (cases "buf = []")
    case True
    then show ?thesis using "1.prems" by (simp add: send_loop.simps [of "[]"])
  next
    case False
    let ?ts = "if MAX_SEND < length buf then MAX_SEND else length buf"
    obtain n s1 where s1: "sock_send (take ?ts buf) s = (n, s1)"
      by (cases "sock_send (take ?ts buf) s")
    have "0 < length buf"
      using False by simp
    then have acc: "accepts 1 s1" and n: "\<not> n < 1"
      using sock_send_accepts [OF "1.prems" s1]
      by (auto simp: MAX_SEND_def min_def simp del: length_greater_0_conv split: if_splits)
    have "tx s1 = tx s @ take (nat n) (take ?ts buf)" "n \<le> int (length (take ?ts buf))"
      using sock_send_tx [OF s1] by auto
    then have tx: "tx s1 = tx s @ take (nat n) buf"
      by (auto simp: min_def split: if_splits)
    obtain s' where "send_loop (drop (nat n) buf) s1 = (0, s')" "accepts 1 s'"
        "tx s' = tx s1 @ drop (nat n) buf" "rx s' = rx s1" "errno s' = errno s1" "is_open s' = is_open s1"
      using "1.IH" [OF False refl s1 [symmetric] refl n acc] by blast
    then show ?thesis
      using False n s1 tx sock_send_frame [OF s1]
      by (simp add: send_loop.simps [of buf] Let_def)
  qed
qed

lemma send_response_spec:
  "send_response buf s = (r, s') \<Longrightarrow>
    rx s' = rx s \<and> errno s' = errno s \<and> is_open s' = is_open s \<and>
    (\<exists>k. tx s' = tx s @ take k buf \<and> k \<le> length buf \<and> (r = 0 \<longleftrightarrow> k = length buf))"
proof (induction buf s arbitrary: r s' rule: send_response.induct)
  case (1 buf s)
  show ?case
  proof (cases "buf = []")
    case True
    then show ?thesis using "1.prems" by (auto simp: send_response.simps [of "[]"])
  next
    case False
    obtain n s1 where s1: "sock_send buf s = (n, s1)"
      by (cases "sock_send buf s")
    note tx = sock_send_tx [OF s1] and fr = sock_send_frame [OF s1]
    show ?thesis
    proof (cases "n < 1")
      case True
      then have "r = -1 \<and> s' = s1"
        using "1.prems" False s1 by (auto simp: send_response.simps [of buf] Let_def)
      then show ?thesis
        using fr tx True False by (auto intro!: exI [of _ 0])
    next
      case nlt: False
      then have rec: "send_response (drop (nat n) buf) s1 = (r, s')"
        using "1.prems" False s1 by (simp add: send_response.simps [of buf] Let_def)
      obtain k where k: "tx s' = tx s1 @ take k (drop (nat n) buf)" "k \<le> length buf - nat n"
          "r = 0 \<longleftrightarrow> k = length buf - nat n" "rx s' = rx s1" "errno s' = errno s1" "is_open s' = is_open s1"
        using "1.IH" [OF False s1 [symmetric] refl nlt rec] by auto
      have "tx s' = tx s @ take (nat n + k) buf"
        using k(1) tx by (simp add: take_add)
      with k fr tx nlt show ?thesis
        by (intro conjI exI [of _ "nat n + k"]) auto
    qed
  qed
qed

subsection \<open>Receiving an exact number of bytes\<close>

text \<open>
  The \<open>fetch\<close> of src/fd\_restore.c and src/sock\_restore.c, which differ in the largest
  single request \<open>maxr\<close>. A read that would block is tried again (R may interrupt there; user
  interrupts are left out), any other error or the end of the stream closes and raises.
\<close>

function fetch_loop :: "nat \<Rightarrow> nat \<Rightarrow> string \<Rightarrow> sock \<Rightarrow> fault + string \<times> sock" where
  "fetch_loop maxr len got s =
     (if length got < len then
        (let need = (if maxr < len - length got then maxr else len - length got);
             (n, bs, s) = sock_recv need s in
         if n < 0 then
           (if errno s = EAGAIN then fetch_loop maxr len got s
            else Inl (RError ReadFailed))
         else if n = 0 then Inl (RError ConnClosed)
         else fetch_loop maxr len (got @ bs) s)
      else Inr (got, s))"
  by pat_completeness auto
termination
  by (relation "measure (\<lambda>(maxr, len, got, s). rx_size s)") (auto dest!: sock_recv_size [OF sym])

declare fetch_loop.simps [simp del]

definition fd_fetch :: "nat \<Rightarrow> sock \<Rightarrow> 64 word \<Rightarrow> fault + string \<times> sock" where
  "fd_fetch maxr s len = fetch_loop maxr (unat len) [] s"

text \<open>Streams without failures: non-empty pieces of data and would-block answers.\<close>

fun smooth_event :: "rx_event \<Rightarrow> bool" where
  "smooth_event (RxData d) = (d \<noteq> [])"
| "smooth_event (RxErr e) = (e = EAGAIN)"

fun event_bytes :: "rx_event \<Rightarrow> string" where
  "event_bytes (RxData d) = d"
| "event_bytes (RxErr e) = []"

definition smooth :: "sock \<Rightarrow> bool" where
  "smooth s \<longleftrightarrow> list_all smooth_event (rx s)"

definition stream :: "sock \<Rightarrow> string" where
  "stream s = concat (map event_bytes (rx s))"

lemma smooth_recv:
  assumes "smooth s" "sock_recv cap s = (n, bs, s')" "0 < cap"
  shows "smooth s'"
    and "n < 0 \<Longrightarrow> errno s' = EAGAIN \<and> stream s' = stream s"
    and "n = 0 \<Longrightarrow> stream s = []"
    and "0 < n \<Longrightarrow> stream s = bs @ stream s' \<and> length bs \<le> cap \<and> bs \<noteq> []"
  using assms
  by (auto simp: smooth_def stream_def sock_recv_def split: list.splits rx_event.splits if_splits)

lemma fetch_loop_smooth:
  "smooth s \<Longrightarrow> 0 < maxr \<Longrightarrow> length got \<le> len \<Longrightarrow> len - length got \<le> length (stream s) \<Longrightarrow>
    \<exists>s'. fetch_loop maxr len got s = Inr (got @ take (len - length got) (stream s), s') \<and>
      smooth s' \<and> stream s' = drop (len - length got) (stream s)"
proof (induction maxr len got s rule: fetch_loop.induct)
  case (1 maxr len got s)
  show ?case
  proof (cases "length got < len")
    case False
    then show ?thesis using "1.prems" by (simp add: fetch_loop.simps [of maxr len got s])
  next
    case True
    let ?need = "if maxr < len - length got then maxr else len - length got"
    obtain n bs s1 where s1: "sock_recv ?need s = (n, bs, s1)"
      by (cases "sock_recv ?need s")
    have need: "0 < ?need" "?need \<le> len - length got"
      using True "1.prems"(2) by auto
    note rc = smooth_recv [OF "1.prems"(1) s1 need(1)]
    consider "n < 0" | "n = 0" | "0 < n"
      by linarith
    then show ?thesis
    proof cases
      case 1
      then have "fetch_loop maxr len got s = fetch_loop maxr len got s1"
        using True s1 rc(2) by (simp add: fetch_loop.simps [of maxr len got s] Let_def)
      with "1.IH"(1) [OF True refl s1 [symmetric] refl refl 1] 1 rc(1,2) "1.prems" show ?thesis
        by simp
    next
      case 2
      then show ?thesis using rc(3) "1.prems"(4) True by simp
    next
      case 3
      then have eq: "fetch_loop maxr len got s = fetch_loop maxr len (got @ bs) s1"
        using True s1 by (simp add: fetch_loop.simps [of maxr len got s] Let_def)
      have bs: "stream s = bs @ stream s1" "length bs \<le> len - length got"
        using rc(4) [OF 3] need(2) by auto
      have "\<exists>s'. fetch_loop maxr len (got @ bs) s1 =
            Inr ((got @ bs) @ take (len - length (got @ bs)) (stream s1), s') \<and> smooth s' \<and>
            stream s' = drop (len - length (got @ bs)) (stream s1)"
        using "1.IH"(2) [OF True refl s1 [symmetric] refl refl _ _ rc(1)] 3 bs "1.prems" by simp
      then show ?thesis
        using bs by (simp add: eq)
    qed
  qed
qed

lemma fetch_loop_short:
  "smooth s \<Longrightarrow> 0 < maxr \<Longrightarrow> length (stream s) < len - length got \<Longrightarrow>
    fetch_loop maxr len got s = Inl (RError ConnClosed)"
proof (induction maxr len got s rule: fetch_loop.induct)
  case (1 maxr len got s)
  have True: "length got < len"
    using "1.prems"(3) by linarith
  let ?need = "if maxr < len - length got then maxr else len - length got"
  obtain n bs s1 where s1: "sock_recv ?need s = (n, bs, s1)"
    by (cases "sock_recv ?need s")
  have need: "0 < ?need" "?need \<le> len - length got"
    using True "1.prems"(2) by auto
  note rc = smooth_recv [OF "1.prems"(1) s1 need(1)]
  consider "n < 0" | "n = 0" | "0 < n"
    by linarith
  then show ?case
  proof cases
    case 1
    then have "fetch_loop maxr len got s = fetch_loop maxr len got s1"
      using True s1 rc(2) by (simp add: fetch_loop.simps [of maxr len got s] Let_def)
    with "1.IH"(1) [OF True refl s1 [symmetric] refl refl 1] 1 rc(1,2) "1.prems" show ?thesis
      by simp
  next
    case 2
    then show ?thesis
      using True s1 by (simp add: fetch_loop.simps [of maxr len got s] Let_def)
  next
    case 3
    then have eq: "fetch_loop maxr len got s = fetch_loop maxr len (got @ bs) s1"
      using True s1 by (simp add: fetch_loop.simps [of maxr len got s] Let_def)
    have bs: "stream s = bs @ stream s1" "length bs \<le> len - length got"
      using rc(4) [OF 3] need(2) by auto
    have "fetch_loop maxr len (got @ bs) s1 = Inl (RError ConnClosed)"
      using "1.IH"(2) [OF True refl s1 [symmetric] refl refl _ _ rc(1)] 3 bs "1.prems" by simp
    then show ?thesis
      by (simp add: eq)
  qed
qed

lemma fd_fetch_smooth:
  "smooth s \<Longrightarrow> 0 < maxr \<Longrightarrow> unat n \<le> length (stream s) \<Longrightarrow>
    \<exists>s'. fd_fetch maxr s n = Inr (take (unat n) (stream s), s') \<and> smooth s' \<and>
      stream s' = drop (unat n) (stream s)"
  using fetch_loop_smooth [of s maxr "[]" "unat n"] by (simp add: fd_fetch_def)

lemma fd_fetch_short:
  "smooth s \<Longrightarrow> 0 < maxr \<Longrightarrow> length (stream s) < unat n \<Longrightarrow>
    fd_fetch maxr s n = Inl (RError ConnClosed)"
  using fetch_loop_short [of s maxr "unat n" "[]"] by (simp add: fd_fetch_def)

end
