(* ===== verification/Sfs.thy ===== *)
theory Sfs
  imports Prelude
begin

text \<open>
  The serialiser core, src/sfs.c and src/sfs.h: R values, the recursive
  \<open>store\<close> that drives a store API, and \<open>sfs_load\<close>/\<open>decode_one\<close> that
  rebuild a value from a fetch API.

  The function pointers \<open>api->store\<close> and \<open>api->fetch\<close> are arguments. The contracts a
  back end has to keep are the locales \<open>store_api\<close> and \<open>fetch_api\<close>; each back end
  (memory, file descriptor, chunked HTTP, statistics) interprets them in its own theory.
\<close>

unbundle bit_operations_syntax

subsection \<open>Type codes (Rinternals.h, as printed in the table of src/mem\_store.c)\<close>

abbreviation (input) NILSXP :: nat where "NILSXP \<equiv> 0"
abbreviation (input) SYMSXP :: nat where "SYMSXP \<equiv> 1"
abbreviation (input) LISTSXP :: nat where "LISTSXP \<equiv> 2"
abbreviation (input) CLOSXP :: nat where "CLOSXP \<equiv> 3"
abbreviation (input) ENVSXP :: nat where "ENVSXP \<equiv> 4"
abbreviation (input) LANGSXP :: nat where "LANGSXP \<equiv> 6"
abbreviation (input) CHARSXP :: nat where "CHARSXP \<equiv> 9"
abbreviation (input) LGLSXP :: nat where "LGLSXP \<equiv> 10"
abbreviation (input) INTSXP :: nat where "INTSXP \<equiv> 13"
abbreviation (input) REALSXP :: nat where "REALSXP \<equiv> 14"
abbreviation (input) CPLXSXP :: nat where "CPLXSXP \<equiv> 15"
abbreviation (input) STRSXP :: nat where "STRSXP \<equiv> 16"
abbreviation (input) VECSXP :: nat where "VECSXP \<equiv> 19"
abbreviation (input) BCODESXP :: nat where "BCODESXP \<equiv> 21"
abbreviation (input) RAWSXP :: nat where "RAWSXP \<equiv> 24"
abbreviation (input) S4SXP :: nat where "S4SXP \<equiv> 25"

definition ATTRSXP :: nat where "ATTRSXP = 255"

definition SFS_EMPTY_ENV :: "64 word" where "SFS_EMPTY_ENV = 0xf0000000000000"
definition SFS_GLOBAL_ENV :: "64 word" where "SFS_GLOBAL_ENV = 0xf0000000000001"
definition SFS_BASE_ENV :: "64 word" where "SFS_BASE_ENV = 0xf0000000000002"

subsection \<open>R values\<close>

text \<open>
  A value is \<open>R_NilValue\<close> or a header (attribute pairlist, object bit) with a body.
  Pairlists are chains of cells, each with its own type (\<open>LISTSXP\<close> or \<open>LANGSXP\<close>), as in R.
  Numeric payloads are the machine words R keeps in memory (a REAL is its 64 bits), a
  string element is \<open>NA_STRING\<close> or the bytes of a CHARSXP; encodings are left out. The
  symbol with the empty name is \<open>R_MissingArg\<close>. \<open>OtherS\<close> stands for the types the
  serialiser has no case for (promises, builtins, external pointers, ...).
\<close>

datatype envk = GlobalEnv | EmptyEnv | BaseEnv | CustomEnv nat

datatype cellty = ListCell | LangCell

datatype charsxp = NA_STRING | MkChar string

datatype sexp =
    R_NilValue
  | Sxp (attrib: sexp) (objbit: bool) (body: rbody)
and rbody =
    SymS string
  | CellS cellty sexp sexp sexp
  | CloS sexp sexp sexp
  | EnvS envk
  | CharS charsxp
  | LglV "32 word list"
  | IntV "32 word list"
  | RealV "64 word list"
  | CplxV "(64 word \<times> 64 word) list"
  | StrV "charsxp list"
  | VecV "sexp list"
  | RawV string
  | S4S
  | BcodeS sexp
  | OtherS nat

fun cell_code :: "cellty \<Rightarrow> nat" where
  "cell_code ListCell = LISTSXP"
| "cell_code LangCell = LANGSXP"

fun body_type :: "rbody \<Rightarrow> nat" where
  "body_type (SymS s) = SYMSXP"
| "body_type (CellS ty t c d) = cell_code ty"
| "body_type (CloS f b e) = CLOSXP"
| "body_type (EnvS k) = ENVSXP"
| "body_type (CharS c) = CHARSXP"
| "body_type (LglV xs) = LGLSXP"
| "body_type (IntV xs) = INTSXP"
| "body_type (RealV xs) = REALSXP"
| "body_type (CplxV xs) = CPLXSXP"
| "body_type (StrV xs) = STRSXP"
| "body_type (VecV xs) = VECSXP"
| "body_type (RawV bs) = RAWSXP"
| "body_type S4S = S4SXP"
| "body_type (BcodeS x) = BCODESXP"
| "body_type (OtherS ty) = ty"

fun TYPEOF :: "sexp \<Rightarrow> nat" where
  "TYPEOF R_NilValue = NILSXP"
| "TYPEOF (Sxp a ob b) = body_type b"

text \<open>\<open>CHAR(x)\<close>: the C string of a CHARSXP; the one of \<open>NA_STRING\<close> reads "NA".\<close>

fun R_CHAR :: "charsxp \<Rightarrow> string" where
  "R_CHAR NA_STRING = ''NA''"
| "R_CHAR (MkChar s) = s"

text \<open>The number of cells of a pairlist, counted by following CDR to \<open>R_NilValue\<close>;
  \<open>None\<close> when a CDR is not a cell, where R's accessor would read a foreign object.\<close>

fun pairlen :: "sexp \<Rightarrow> nat option" where
  "pairlen R_NilValue = Some 0"
| "pairlen (Sxp a ob (CellS ty t c d)) = map_option Suc (pairlen d)"
| "pairlen (Sxp a ob b) = None"

subsection \<open>Storing\<close>

text \<open>\<open>api->store(api, ts, el, len, buf)\<close>: type, element size, length, payload (\<open>None\<close>
  for a null pointer; otherwise the \<open>len * el\<close> bytes it points to).\<close>

type_synonym 's store_fn = "'s \<Rightarrow> nat \<Rightarrow> nat \<Rightarrow> 64 word \<Rightarrow> string option \<Rightarrow> fault + 's"

text \<open>The types whose attributes are stored (the first switch of \<open>store\<close>).\<close>

definition attr_types :: "nat list" where
  "attr_types = [LGLSXP, INTSXP, REALSXP, CPLXSXP, STRSXP, VECSXP, RAWSXP, S4SXP]"

definition store_string :: "'s store_fn \<Rightarrow> 's \<Rightarrow> charsxp \<Rightarrow> fault + 's" where
  "store_string api st x =
     (let c = R_CHAR x; l = strlen c in api st CHARSXP 1 (of_nat (l + 1)) (Some (take l c @ [nul])))"

definition env_code :: "envk \<Rightarrow> 64 word" where
  "env_code k = (case k of GlobalEnv \<Rightarrow> SFS_GLOBAL_ENV | EmptyEnv \<Rightarrow> SFS_EMPTY_ENV
     | BaseEnv \<Rightarrow> SFS_BASE_ENV | CustomEnv n \<Rightarrow> 0)"

text \<open>The closure body that is stored: the expression of a byte-code body, else the body.\<close>

fun closure_body :: "sexp \<Rightarrow> sexp" where
  "closure_body (Sxp a ob (BcodeS x)) = x"
| "closure_body b = b"

lemma size_closure_body [termination_simp]: "size (closure_body b) \<le> size b"
  by (cases b rule: closure_body.cases) auto

fun store :: "'s store_fn \<Rightarrow> 's \<Rightarrow> sexp \<Rightarrow> fault + 's"
and store_body :: "'s store_fn \<Rightarrow> 's \<Rightarrow> rbody \<Rightarrow> fault + 's"
and store_elts :: "'s store_fn \<Rightarrow> 's \<Rightarrow> sexp list \<Rightarrow> fault + 's"
and store_cells :: "'s store_fn \<Rightarrow> 's \<Rightarrow> sexp \<Rightarrow> fault + 's" where
  "store api st R_NilValue = api st NILSXP 0 0 None"
| "store api st (Sxp a ob b) =
     rbind (if body_type b \<in> set attr_types \<and> a \<noteq> R_NilValue
            then (case pairlen a of None \<Rightarrow> Inl (Undefined BadPairlist)
                  | Some l \<Rightarrow> rbind (api st ATTRSXP 0 (of_nat l) None) (\<lambda>st. store_cells api st a))
            else Inr st)
       (\<lambda>st. store_body api st b)"
| "store_body api st (IntV xs) = api st INTSXP 4 (of_nat (length xs)) (Some (concat (map bytes32 xs)))"
| "store_body api st (LglV xs) = api st LGLSXP 4 (of_nat (length xs)) (Some (concat (map bytes32 xs)))"
| "store_body api st (RealV xs) = api st REALSXP 8 (of_nat (length xs)) (Some (concat (map bytes64 xs)))"
| "store_body api st (CplxV xs) = api st CPLXSXP 16 (of_nat (length xs))
     (Some (concat (map (\<lambda>(re, im). bytes64 re @ bytes64 im) xs)))"
| "store_body api st (VecV xs) =
     rbind (api st VECSXP 0 (of_nat (length xs)) None) (\<lambda>st. store_elts api st xs)"
| "store_body api st (StrV xs) =
     rbind (api st STRSXP 0 (of_nat (length xs)) None) (\<lambda>st. foldr_m (store_string api) st xs)"
| "store_body api st (RawV bs) = api st RAWSXP 1 (of_nat (length bs)) (Some bs)"
| "store_body api st (SymS p) =
     api st SYMSXP 1 (of_nat (if strlen p = 0 then 0 else strlen p + 1))
       (Some (if strlen p = 0 then [] else take (strlen p) p @ [nul]))"
| "store_body api st (CloS f b e) =
     rbind (api st CLOSXP 0 3 None) (\<lambda>st.
     rbind (store api st f) (\<lambda>st.
     rbind (store api st (closure_body b)) (\<lambda>st.
     store api st e)))"
| "store_body api st (CellS ty t c d) =
     (case pairlen d of None \<Rightarrow> Inl (Undefined BadPairlist)
      | Some l \<Rightarrow>
        rbind (api st (cell_code ty) 0 (of_nat (Suc l)) None) (\<lambda>st.
        rbind (store api st t) (\<lambda>st.
        rbind (store api st c) (\<lambda>st.
        store_cells api st d))))"
| "store_body api st (EnvS k) = api st ENVSXP 0 (env_code k) None"
| "store_body api st (CharS c) = api st CHARSXP 0 0 None"
| "store_body api st S4S = api st S4SXP 0 0 None"
| "store_body api st (BcodeS x) = api st BCODESXP 0 0 None"
| "store_body api st (OtherS ty) = api st ty 0 0 None"
| "store_elts api st [] = Inr st"
| "store_elts api st (x # xs) = rbind (store api st x) (\<lambda>st. store_elts api st xs)"
| "store_cells api st R_NilValue = Inr st"
| "store_cells api st (Sxp a ob (CellS ty t c d)) =
     rbind (store api st t) (\<lambda>st. rbind (store api st c) (\<lambda>st. store_cells api st d))"
| "store_cells api st (Sxp a ob b) = Inl (Undefined BadPairlist)"

definition sfs_store :: "'s store_fn \<Rightarrow> 's \<Rightarrow> sexp \<Rightarrow> fault + 's" where
  "sfs_store api st x = store api st x"

text \<open>The header word of a frame: the length shifted up over the type byte.\<close>

definition hdr_word :: "nat \<Rightarrow> 64 word \<Rightarrow> 64 word" where
  "hdr_word ts len = push_bit 8 len OR of_nat ts"

subsection \<open>Loading\<close>

text \<open>
  \<open>api->fetch(api, buf, len)\<close> returns exactly \<open>len\<close> bytes or leaves by an error. The
  loader's own state is the static scratch buffer \<open>dec_buf\<close>, 8192 bytes that live across
  calls and start as zeros. R's allocator and \<open>malloc\<close> are the fields of \<open>renv\<close>: whether
  a request of that size is served.
\<close>

type_synonym 's fetch_fn = "'s \<Rightarrow> 64 word \<Rightarrow> fault + string \<times> 's"

record renv =
  alloc_ok :: "nat \<Rightarrow> nat \<Rightarrow> bool"
  malloc_ok :: "nat \<Rightarrow> bool"

record 's loader =
  dec_buf :: string
  src :: 's

type_synonym ('s, 'a) load_fn = "'s loader \<Rightarrow> fault + 'a \<times> 's loader"

definition DEC_BUF_SIZE :: nat where "DEC_BUF_SIZE = 8192"

text \<open>The scratch buffer has its size and ends in NUL; its initial zeros do.\<close>

definition scratch_ok :: "string \<Rightarrow> bool" where
  "scratch_ok d \<longleftrightarrow> length d = DEC_BUF_SIZE \<and> d ! (DEC_BUF_SIZE - 1) = nul"

lemma scratch_ok_zero: "scratch_ok (replicate DEC_BUF_SIZE nul)"
  by (simp add: scratch_ok_def DEC_BUF_SIZE_def)

lemma scratch_ok_overwrite:
  assumes "scratch_ok d" "length bs < DEC_BUF_SIZE"
  shows "scratch_ok (overwrite 0 bs d)" "nul \<in> set (overwrite 0 bs d)"
proof -
  have l: "length (overwrite 0 bs d) = DEC_BUF_SIZE"
    using assms by (simp add: scratch_ok_def)
  moreover have n: "overwrite 0 bs d ! (DEC_BUF_SIZE - 1) = nul"
    using assms by (auto simp: scratch_ok_def overwrite_def nth_append)
  ultimately show "scratch_ok (overwrite 0 bs d)"
    by (simp add: scratch_ok_def)
  show "nul \<in> set (overwrite 0 bs d)"
    using l n nth_mem [of "DEC_BUF_SIZE - 1" "overwrite 0 bs d"] by (simp add: DEC_BUF_SIZE_def)
qed

definition fetch_ld :: "'s fetch_fn \<Rightarrow> 64 word \<Rightarrow> ('s, string) load_fn" where
  "fetch_ld fetch n s = rbind (fetch (src s) n) (\<lambda>(bs, r). Inr (bs, s\<lparr>src := r\<rparr>))"

definition fetch_hdr :: "'s fetch_fn \<Rightarrow> ('s, 64 word) load_fn" where
  "fetch_hdr fetch s = rbind (fetch_ld fetch 8 s) (\<lambda>(bs, s). Inr (word64 bs, s))"

definition allocVector :: "renv \<Rightarrow> nat \<Rightarrow> 64 word \<Rightarrow> fault + unit" where
  "allocVector R ts len = (if alloc_ok R ts (unat len) then Inr () else Inl (RError AllocFailed))"

text \<open>Symbols and strings shorter than the scratch buffer are fetched into it and read
  back as a C string, so bytes a previous call left behind the fetched ones are read when
  those hold no NUL. From 8192 bytes on a block is allocated but nothing is fetched into it.\<close>

definition fetch_scratch :: "renv \<Rightarrow> 's fetch_fn \<Rightarrow> 64 word \<Rightarrow> ('s, string) load_fn" where
  "fetch_scratch R fetch len s =
     (if unat len < DEC_BUF_SIZE then
        rbind (fetch_ld fetch len s) (\<lambda>(bs, s).
          let buf = overwrite 0 bs (dec_buf s) in
          if nul \<in> set buf then Inr (cstr buf, s\<lparr>dec_buf := buf\<rparr>)
          else Inl (Undefined OutOfBounds))
      else if malloc_ok R (unat len) then Inl (Undefined UninitRead)
      else Inl (RError AllocFailed))"

definition load_pair :: "('s, sexp) load_fn \<Rightarrow> ('s, sexp \<times> sexp) load_fn" where
  "load_pair ld s = rbind (ld s) (\<lambda>(tag, s). rbind (ld s) (\<lambda>(val, s). Inr ((tag, val), s)))"

text \<open>\<open>SET_STRING_ELT\<close> raises an R error unless the element is a CHARSXP.\<close>

definition load_chr :: "('s, sexp) load_fn \<Rightarrow> ('s, charsxp) load_fn" where
  "load_chr ld s = rbind (ld s) (\<lambda>(x, s).
     case x of Sxp a ob (CharS c) \<Rightarrow> Inr (c, s) | _ \<Rightarrow> Inl (RError BadElement))"

primrec mk_cells :: "cellty \<Rightarrow> (sexp \<times> sexp) list \<Rightarrow> sexp" where
  "mk_cells ty [] = R_NilValue"
| "mk_cells ty (p # ps) = Sxp R_NilValue False (CellS ty (fst p) (snd p) (mk_cells ty ps))"

abbreviation (input) plain :: "rbody \<Rightarrow> sexp" where
  "plain b \<equiv> Sxp R_NilValue False b"

definition decode_vec :: "renv \<Rightarrow> 's fetch_fn \<Rightarrow> nat \<Rightarrow> nat \<Rightarrow> (nat \<Rightarrow> string \<Rightarrow> rbody)
    \<Rightarrow> 64 word \<Rightarrow> ('s, sexp) load_fn" where
  "decode_vec R fetch ts el mk len s =
     rbind (allocVector R ts len) (\<lambda>_.
     rbind (fetch_ld fetch (len * of_nat el) s) (\<lambda>(bs, s).
     Inr (plain (mk (unat len) bs), s)))"

definition ints_of :: "nat \<Rightarrow> string \<Rightarrow> 32 word list" where
  "ints_of n bs = map word32 (chunks_of 4 n bs)"

definition reals_of :: "nat \<Rightarrow> string \<Rightarrow> 64 word list" where
  "reals_of n bs = map word64 (chunks_of 8 n bs)"

definition cplx_of :: "nat \<Rightarrow> string \<Rightarrow> (64 word \<times> 64 word) list" where
  "cplx_of n bs = map (\<lambda>c. (word64 (take 8 c), word64 (drop 8 c))) (chunks_of 16 n bs)"

definition decode_one :: "renv \<Rightarrow> 's fetch_fn \<Rightarrow> ('s, sexp) load_fn \<Rightarrow> 64 word \<Rightarrow> ('s, sexp) load_fn" where
  "decode_one R fetch ld hdr s =
     (let ts = unat (hdr AND 255); len = drop_bit 8 hdr in
      if ts = NILSXP then Inr (R_NilValue, s)
      else if ts = INTSXP then decode_vec R fetch ts 4 (\<lambda>n bs. IntV (ints_of n bs)) len s
      else if ts = LGLSXP then decode_vec R fetch ts 4 (\<lambda>n bs. LglV (ints_of n bs)) len s
      else if ts = REALSXP then decode_vec R fetch ts 8 (\<lambda>n bs. RealV (reals_of n bs)) len s
      else if ts = CPLXSXP then decode_vec R fetch ts 16 (\<lambda>n bs. CplxV (cplx_of n bs)) len s
      else if ts = SYMSXP then
        (if len = 0 then Inr (plain (SymS []), s)
         else rbind (fetch_scratch R fetch len s) (\<lambda>(name, s).
           if name = [] then Inl (RError ZeroName) else Inr (plain (SymS name), s)))
      else if ts = VECSXP then
        rbind (allocVector R ts len) (\<lambda>_.
        rbind (repeat_m (unat len) ld s) (\<lambda>(xs, s). Inr (plain (VecV xs), s)))
      else if ts = STRSXP then
        rbind (allocVector R ts len) (\<lambda>_.
        rbind (repeat_m (unat len) (load_chr ld) s) (\<lambda>(xs, s). Inr (plain (StrV xs), s)))
      else if ts = CHARSXP then
        rbind (fetch_scratch R fetch len s) (\<lambda>(c, s). Inr (plain (CharS (MkChar c)), s))
      else if ts = CLOSXP then
        rbind (ld s) (\<lambda>(f, s). rbind (ld s) (\<lambda>(b, s). rbind (ld s) (\<lambda>(e, s).
        Inr (plain (CloS f b e), s))))
      else if ts = ATTRSXP \<or> ts = LISTSXP then
        rbind (repeat_m (unat len) (load_pair ld) s) (\<lambda>(ps, s). Inr (mk_cells ListCell ps, s))
      else if ts = LANGSXP then
        rbind (repeat_m (unat len) (load_pair ld) s) (\<lambda>(ps, s). Inr (mk_cells LangCell ps, s))
      else if ts = ENVSXP then
        Inr (plain (EnvS (if len = SFS_GLOBAL_ENV then GlobalEnv
                          else if len = SFS_EMPTY_ENV then EmptyEnv else BaseEnv)), s)
      else Inl (RError (Unimplemented ts)))"

text \<open>
  \<open>decode_one\<close> has no case for RAWSXP (nor for S4SXP and the other types \<open>store\<close>
  writes as a bare header): they end in the error of the default branch.

  \<open>sfs_load\<close> reads a header; an attribute header is decoded first and then another header is
  read. The recursion through \<open>decode_one\<close> has no bound of its own, so it carries fuel: the
  depth of nesting it may still enter.
\<close>

fun has_class :: "sexp \<Rightarrow> bool" where
  "has_class (Sxp a ob (CellS ty t c d)) = (t = plain (SymS ''class'') \<or> has_class d)"
| "has_class x = False"

text \<open>\<open>SET_OBJECT\<close> and \<open>SET_ATTRIB\<close> on the decoded value. Nil, symbols, environments and cached
  CHARSXPs are objects shared with the rest of R, which a stream would then modify.\<close>

fun set_attrib :: "sexp \<Rightarrow> sexp \<Rightarrow> fault + sexp" where
  "set_attrib attr R_NilValue = Inl (Undefined SharedWrite)"
| "set_attrib attr (Sxp a ob b) =
     (if body_type b \<in> {SYMSXP, ENVSXP, CHARSXP} then Inl (Undefined SharedWrite)
      else Inr (Sxp attr (ob \<or> has_class attr) b))"

definition load_attr :: "renv \<Rightarrow> 's fetch_fn \<Rightarrow> ('s, sexp) load_fn \<Rightarrow> 64 word \<Rightarrow> ('s, sexp \<times> 64 word) load_fn" where
  "load_attr R fetch ld hdr s =
     (if hdr AND 255 = of_nat ATTRSXP then
        rbind (decode_one R fetch ld hdr s) (\<lambda>(attr, s).
        rbind (fetch_hdr fetch s) (\<lambda>(hdr, s). Inr ((attr, hdr), s)))
      else Inr ((R_NilValue, hdr), s))"

definition finish_load :: "sexp \<Rightarrow> sexp \<Rightarrow> ('s, sexp) load_fn" where
  "finish_load attr res s =
     (if attr = R_NilValue then Inr (res, s)
      else rbind (set_attrib attr res) (\<lambda>res. Inr (res, s)))"

primrec sfs_load :: "renv \<Rightarrow> 's fetch_fn \<Rightarrow> nat \<Rightarrow> ('s, sexp) load_fn" where
  "sfs_load R fetch 0 s = Inl OutOfFuel"
| "sfs_load R fetch (Suc fuel) s =
     rbind (fetch_hdr fetch s) (\<lambda>(hdr, s).
     rbind (load_attr R fetch (sfs_load R fetch fuel) hdr s) (\<lambda>((attr, hdr), s).
     rbind (decode_one R fetch (sfs_load R fetch fuel) hdr s) (\<lambda>(res, s).
     finish_load attr res s)))"

end
