(* ===== verification/SfsSpec.thy ===== *)
theory SfsSpec
  imports Sfs
begin

text \<open>
  What the serialisation core promises, independently of a back end:
  \<^item> \<open>frames\<close> and \<open>wire\<close>: the sequence of frames and the byte stream a value has;
  \<^item> \<open>norm\<close>: the value that comes back (attributes of calls, closures and environments are
    dropped, byte code becomes its expression, \<open>NA_STRING\<close> the string "NA", a custom
    environment the base environment, every cell of a call a call cell);
  \<^item> the locales \<open>store_api\<close>, \<open>fetch_api\<close>, \<open>strict_fetch_api\<close>: the laws of a back end,
    with the stream written, the round trip and the termination proved once inside them.
\<close>

subsection \<open>Frames and the byte stream\<close>

type_synonym frame = "nat \<times> nat \<times> 64 word \<times> string option"

fun frame_bytes :: "frame \<Rightarrow> string" where
  "frame_bytes (ts, el, len, buf) =
     bytes64 (hdr_word ts len) @ (case buf of None \<Rightarrow> [] | Some b \<Rightarrow> b)"

fun frame_ok :: "frame \<Rightarrow> bool" where
  "frame_ok (ts, el, len, buf) =
     (ts < 256 \<and> el \<le> 16 \<and> unat len < 2 ^ 56 \<and>
      (case buf of None \<Rightarrow> el = 0 | Some b \<Rightarrow> 0 < el \<and> length b = el * unat len))"

definition string_frame :: "charsxp \<Rightarrow> frame" where
  "string_frame x = (CHARSXP, 1, of_nat (strlen (R_CHAR x) + 1), Some (cstr (R_CHAR x) @ [nul]))"

fun frames :: "sexp \<Rightarrow> frame list"
and frames_body :: "rbody \<Rightarrow> frame list"
and frames_elts :: "sexp list \<Rightarrow> frame list"
and frames_cells :: "sexp \<Rightarrow> frame list" where
  "frames R_NilValue = [(NILSXP, 0, 0, None)]"
| "frames (Sxp a ob b) =
     (if body_type b \<in> set attr_types \<and> a \<noteq> R_NilValue
      then (ATTRSXP, 0, of_nat (the (pairlen a)), None) # frames_cells a else []) @ frames_body b"
| "frames_body (IntV xs) = [(INTSXP, 4, of_nat (length xs), Some (concat (map bytes32 xs)))]"
| "frames_body (LglV xs) = [(LGLSXP, 4, of_nat (length xs), Some (concat (map bytes32 xs)))]"
| "frames_body (RealV xs) = [(REALSXP, 8, of_nat (length xs), Some (concat (map bytes64 xs)))]"
| "frames_body (CplxV xs) = [(CPLXSXP, 16, of_nat (length xs),
      Some (concat (map (\<lambda>(re, im). bytes64 re @ bytes64 im) xs)))]"
| "frames_body (VecV xs) = (VECSXP, 0, of_nat (length xs), None) # frames_elts xs"
| "frames_body (StrV xs) = (STRSXP, 0, of_nat (length xs), None) # map string_frame xs"
| "frames_body (RawV bs) = [(RAWSXP, 1, of_nat (length bs), Some bs)]"
| "frames_body (SymS p) =
     [(SYMSXP, 1, of_nat (if cstr p = [] then 0 else strlen p + 1),
       Some (if cstr p = [] then [] else cstr p @ [nul]))]"
| "frames_body (CloS f b e) =
     (CLOSXP, 0, 3, None) # frames f @ frames (closure_body b) @ frames e"
| "frames_body (CellS ty t c d) =
     (cell_code ty, 0, of_nat (Suc (the (pairlen d))), None) # frames t @ frames c @ frames_cells d"
| "frames_body (EnvS k) = [(ENVSXP, 0, env_code k, None)]"
| "frames_body (CharS c) = [(CHARSXP, 0, 0, None)]"
| "frames_body S4S = [(S4SXP, 0, 0, None)]"
| "frames_body (BcodeS x) = [(BCODESXP, 0, 0, None)]"
| "frames_body (OtherS ty) = [(ty, 0, 0, None)]"
| "frames_elts [] = []"
| "frames_elts (x # xs) = frames x @ frames_elts xs"
| "frames_cells (Sxp a ob (CellS ty t c d)) = frames t @ frames c @ frames_cells d"
| "frames_cells x = []"

definition wire :: "sexp \<Rightarrow> string" where
  "wire x = concat (map frame_bytes (frames x))"

text \<open>
  Well-formed values: every pairlist that is written ends in \<open>R_NilValue\<close>, no type code
  exceeds a byte and no length reaches \<open>2^56\<close> (R's own limit is \<open>2^52\<close>), so that the
  header holds it.
\<close>

definition len_ok :: "nat \<Rightarrow> bool" where
  "len_ok n \<longleftrightarrow> n < 2 ^ 56"

fun wf_sexp :: "sexp \<Rightarrow> bool"
and wf_body :: "rbody \<Rightarrow> bool"
and wf_elts :: "sexp list \<Rightarrow> bool"
and wf_cells :: "sexp \<Rightarrow> bool" where
  "wf_sexp R_NilValue = True"
| "wf_sexp (Sxp a ob b) =
     ((if body_type b \<in> set attr_types \<and> a \<noteq> R_NilValue
       then (case pairlen a of None \<Rightarrow> False | Some l \<Rightarrow> len_ok l) \<and> wf_cells a else True) \<and> wf_body b)"
| "wf_body (IntV xs) = len_ok (length xs)"
| "wf_body (LglV xs) = len_ok (length xs)"
| "wf_body (RealV xs) = len_ok (length xs)"
| "wf_body (CplxV xs) = len_ok (length xs)"
| "wf_body (VecV xs) = (len_ok (length xs) \<and> wf_elts xs)"
| "wf_body (StrV xs) = (len_ok (length xs) \<and> list_all (\<lambda>x. len_ok (strlen (R_CHAR x) + 1)) xs)"
| "wf_body (RawV bs) = len_ok (length bs)"
| "wf_body (SymS p) = len_ok (strlen p + 1)"
| "wf_body (CloS f b e) = (wf_sexp f \<and> wf_sexp (closure_body b) \<and> wf_sexp e)"
| "wf_body (CellS ty t c d) =
     ((case pairlen d of None \<Rightarrow> False | Some l \<Rightarrow> len_ok (Suc l)) \<and> wf_sexp t \<and> wf_sexp c \<and> wf_cells d)"
| "wf_body (OtherS ty) = (ty < 256)"
| "wf_body (EnvS k) = True"
| "wf_body (CharS c) = True"
| "wf_body S4S = True"
| "wf_body (BcodeS x) = True"
| "wf_elts [] = True"
| "wf_elts (x # xs) = (wf_sexp x \<and> wf_elts xs)"
| "wf_cells (Sxp a ob (CellS ty t c d)) = (wf_sexp t \<and> wf_sexp c \<and> wf_cells d)"
| "wf_cells x = (x = R_NilValue)"

subsection \<open>The calls a back end sees\<close>

definition emit_frame :: "'s store_fn \<Rightarrow> 's \<Rightarrow> frame \<Rightarrow> fault + 's" where
  "emit_frame api st fr = (case fr of (ts, el, len, buf) \<Rightarrow> api st ts el len buf)"

lemma emit_frame_eq [simp]: "emit_frame api st (ts, el, len, buf) = api st ts el len buf"
  by (simp add: emit_frame_def)

lemma take_strlen [simp]: "take (strlen s) s = cstr s"
  unfolding strlen_def cstr_def by (rule takeWhile_eq_take [symmetric])

lemma strlen_0_iff [simp]: "strlen s = 0 \<longleftrightarrow> cstr s = []"
  by (simp add: strlen_def)

lemma emit_string: "store_string api st x = emit_frame api st (string_frame x)"
  by (simp add: store_string_def string_frame_def Let_def)

lemma foldr_m_strings:
  "foldr_m (store_string api) st xs = foldr_m (emit_frame api) st (map string_frame xs)"
  by (induction xs arbitrary: st) (simp_all add: emit_string)

lemma store_frames_all:
  "wf_sexp x \<Longrightarrow> store api st x = foldr_m (emit_frame api) st (frames x)"
  "wf_body b \<Longrightarrow> store_body api st b = foldr_m (emit_frame api) st (frames_body b)"
  "wf_elts xs \<Longrightarrow> store_elts api st xs = foldr_m (emit_frame api) st (frames_elts xs)"
  "wf_cells x \<Longrightarrow> store_cells api st x = foldr_m (emit_frame api) st (frames_cells x)"
proof (induction x and b and xs and x arbitrary: st and st and st and st
    rule: frames_frames_body_frames_elts_frames_cells.induct)
  case (2 a ob b)
  then show ?case
    by (auto simp: foldr_m_append rbind_assoc split: option.splits)
qed (auto simp: foldr_m_append foldr_m_strings rbind_assoc split: option.splits)

lemma store_frames: "wf_sexp x \<Longrightarrow> sfs_store api st x = foldr_m (emit_frame api) st (frames x)"
  by (simp add: sfs_store_def store_frames_all)

lemma unat_len_ok: "len_ok n \<Longrightarrow> unat (of_nat n :: 64 word) = n"
  by (simp add: len_ok_def unat_of_nat take_bit_nat_eq_self_iff)

lemma env_code_bound: "unat (env_code k) < 2 ^ 56"
  by (cases k)
    (simp_all add: env_code_def SFS_GLOBAL_ENV_def SFS_EMPTY_ENV_def SFS_BASE_ENV_def)

lemma string_frame_ok: "len_ok (strlen (R_CHAR x) + 1) \<Longrightarrow> frame_ok (string_frame x)"
  using unat_len_ok [of "strlen (R_CHAR x) + 1"]
  by (simp add: string_frame_def strlen_def len_ok_def)

lemma length_concat_bytes [simp]:
  "length (concat (map bytes32 xs)) = 4 * length xs"
  "length (concat (map bytes64 ys)) = 8 * length ys"
  "length (concat (map (\<lambda>(re, im). bytes64 re @ bytes64 im) zs)) = 16 * length zs"
  by (rule length_concat_map_const; simp split: prod.splits)+

lemma payload_frame_ok:
  "len_ok n \<Longrightarrow> ts < 256 \<Longrightarrow> 0 < el \<Longrightarrow> el \<le> 16 \<Longrightarrow> length b = el * n \<Longrightarrow>
    frame_ok (ts, el, of_nat n, Some b)"
  using unat_len_ok [of n] by (simp add: len_ok_def)

lemma bare_frame_ok: "len_ok n \<Longrightarrow> ts < 256 \<Longrightarrow> frame_ok (ts, 0, of_nat n, None)"
  using unat_len_ok [of n] by (simp add: len_ok_def)

lemma const_frame_ok:
  "ts < 256 \<Longrightarrow> frame_ok (ts, 0, 0, None)"
  "ts < 256 \<Longrightarrow> frame_ok (ts, 0, 3, None)"
  by simp_all

lemma frame_len:
  "frame_ok (ts, el, len, Some b) \<Longrightarrow> unat (len * of_nat el) = length b"
proof -
  assume fr: "frame_ok (ts, el, len, Some b)"
  have "unat len * el \<le> unat len * 16"
    using fr by (intro mult_le_mono2) simp
  also have "\<dots> < 2 ^ 64"
    using fr by simp
  finally have "unat (of_nat (unat len * el) :: 64 word) = unat len * el"
    by (simp add: unat_of_nat take_bit_nat_eq_self_iff del: of_nat_mult)
  then show ?thesis
    using fr by (simp add: mult.commute)
qed

lemma frames_ok_all:
  "wf_sexp x \<Longrightarrow> list_all frame_ok (frames x)"
  "wf_body b \<Longrightarrow> list_all frame_ok (frames_body b)"
  "wf_elts xs \<Longrightarrow> list_all frame_ok (frames_elts xs)"
  "wf_cells x \<Longrightarrow> list_all frame_ok (frames_cells x)"
proof (induction x and b and xs and x
    rule: frames_frames_body_frames_elts_frames_cells.induct)
  case (2 a ob b)
  then show ?case
    by (auto simp: ATTRSXP_def bare_frame_ok simp del: frame_ok.simps split: option.splits if_splits)
next
  case (8 xs)
  then show ?case
    by (auto simp: list_all_iff string_frame_ok bare_frame_ok simp del: frame_ok.simps)
next
  case (10 p)
  then show ?case
    using payload_frame_ok [of "strlen p + 1" SYMSXP 1 "cstr p @ [nul]"]
    by (auto simp: strlen_def simp del: of_nat_Suc)
next
  case (12 ty t c d)
  then show ?case
    using bare_frame_ok [of "Suc (the (pairlen d))" "cell_code ty"]
    by (cases ty) (auto simp del: frame_ok.simps of_nat_Suc split: option.splits)
next
  case (13 k)
  then show ?case using env_code_bound [of k] by simp
qed (auto intro!: payload_frame_ok bare_frame_ok const_frame_ok simp del: frame_ok.simps)

lemma frames_ok: "wf_sexp x \<Longrightarrow> list_all frame_ok (frames x)"
  by (rule frames_ok_all)

subsection \<open>The contract of a store back end\<close>

text \<open>\<open>out\<close> is the stream a back end's state stands for, \<open>good\<close> the states in which it
  keeps accepting frames. One frame appends its bytes; then a whole value appends its
  wire form.\<close>

locale store_api =
  fixes api :: "'s store_fn"
    and out :: "'s \<Rightarrow> string"
    and good :: "'s \<Rightarrow> bool"
  assumes api_frame: "good st \<Longrightarrow> frame_ok (ts, el, len, buf) \<Longrightarrow>
      \<exists>st'. api st ts el len buf = Inr st' \<and> good st' \<and>
        out st' = out st @ frame_bytes (ts, el, len, buf)"
begin

lemma api_frames:
  "good st \<Longrightarrow> list_all frame_ok fs \<Longrightarrow>
    \<exists>st'. foldr_m (emit_frame api) st fs = Inr st' \<and> good st' \<and>
      out st' = out st @ concat (map frame_bytes fs)"
proof (induction fs arbitrary: st)
  case Nil
  then show ?case by simp
next
  case (Cons fr fs)
  obtain ts el len buf where fr: "fr = (ts, el, len, buf)"
    by (cases fr)
  obtain st1 where st1: "api st ts el len buf = Inr st1" "good st1"
      "out st1 = out st @ frame_bytes fr"
    using Cons.prems api_frame [of st ts el len buf] by (auto simp: fr simp del: frame_ok.simps)
  obtain st2 where "foldr_m (emit_frame api) st1 fs = Inr st2" "good st2"
      "out st2 = out st1 @ concat (map frame_bytes fs)"
    using Cons.IH [OF st1(2)] Cons.prems by auto
  with st1 show ?case by (auto simp: fr)
qed

lemma store_wire:
  "good st \<Longrightarrow> wf_sexp x \<Longrightarrow>
    \<exists>st'. sfs_store api st x = Inr st' \<and> good st' \<and> out st' = out st @ wire x"
  using api_frames [of st "frames x"] by (simp add: store_frames frames_ok wire_def)

end

subsection \<open>What comes back\<close>

definition attr_stored :: "sexp \<Rightarrow> rbody \<Rightarrow> bool" where
  "attr_stored a b \<longleftrightarrow> body_type b \<in> set attr_types \<and> a \<noteq> R_NilValue"

fun norm_env :: "envk \<Rightarrow> envk" where
  "norm_env (CustomEnv n) = BaseEnv"
| "norm_env k = k"

fun norm :: "sexp \<Rightarrow> sexp"
and norm_body :: "rbody \<Rightarrow> rbody"
and norm_elts :: "sexp list \<Rightarrow> sexp list"
and norm_pairs :: "sexp \<Rightarrow> (sexp \<times> sexp) list" where
  "norm R_NilValue = R_NilValue"
| "norm (Sxp a ob b) =
     (if attr_stored a b
      then (let a' = mk_cells ListCell (norm_pairs a) in Sxp a' (has_class a') (norm_body b))
      else plain (norm_body b))"
| "norm_body (VecV xs) = VecV (norm_elts xs)"
| "norm_body (StrV xs) = StrV (map (\<lambda>x. MkChar (R_CHAR x)) xs)"
| "norm_body (CloS f b e) = CloS (norm f) (norm (closure_body b)) (norm e)"
| "norm_body (CellS ty t c d) = CellS ty (norm t) (norm c) (mk_cells ty (norm_pairs d))"
| "norm_body (EnvS k) = EnvS (norm_env k)"
| "norm_body (SymS p) = SymS p"
| "norm_body (CharS c) = CharS c"
| "norm_body (LglV xs) = LglV xs"
| "norm_body (IntV xs) = IntV xs"
| "norm_body (RealV xs) = RealV xs"
| "norm_body (CplxV xs) = CplxV xs"
| "norm_body (RawV bs) = RawV bs"
| "norm_body S4S = S4S"
| "norm_body (BcodeS x) = BcodeS x"
| "norm_body (OtherS ty) = OtherS ty"
| "norm_elts [] = []"
| "norm_elts (x # xs) = norm x # norm_elts xs"
| "norm_pairs (Sxp a ob (CellS ty t c d)) = (norm t, norm c) # norm_pairs d"
| "norm_pairs x = []"

text \<open>
  The values that can be read back: supported types only (no raw vectors, S4 objects, ...),
  strings and symbols without NUL that fit the scratch buffer with their terminator, and
  vectors the allocator grants.
\<close>

definition name_ok :: "string \<Rightarrow> bool" where
  "name_ok s \<longleftrightarrow> nul \<notin> set s \<and> length s + 1 < DEC_BUF_SIZE"

fun storable :: "renv \<Rightarrow> sexp \<Rightarrow> bool"
and storable_body :: "renv \<Rightarrow> rbody \<Rightarrow> bool"
and storable_elts :: "renv \<Rightarrow> sexp list \<Rightarrow> bool"
and storable_cells :: "renv \<Rightarrow> sexp \<Rightarrow> bool" where
  "storable R R_NilValue = True"
| "storable R (Sxp a ob b) = ((attr_stored a b \<longrightarrow> storable_cells R a) \<and> storable_body R b)"
| "storable_body R (IntV xs) = alloc_ok R INTSXP (length xs)"
| "storable_body R (LglV xs) = alloc_ok R LGLSXP (length xs)"
| "storable_body R (RealV xs) = alloc_ok R REALSXP (length xs)"
| "storable_body R (CplxV xs) = alloc_ok R CPLXSXP (length xs)"
| "storable_body R (VecV xs) = (alloc_ok R VECSXP (length xs) \<and> storable_elts R xs)"
| "storable_body R (StrV xs) =
     (alloc_ok R STRSXP (length xs) \<and> list_all (\<lambda>x. name_ok (R_CHAR x)) xs)"
| "storable_body R (SymS p) = name_ok p"
| "storable_body R (CloS f b e) = (storable R f \<and> storable R (closure_body b) \<and> storable R e)"
| "storable_body R (CellS ty t c d) = (storable R t \<and> storable R c \<and> storable_cells R d)"
| "storable_body R (EnvS k) = True"
| "storable_body R (RawV bs) = False"
| "storable_body R (CharS c) = False"
| "storable_body R S4S = False"
| "storable_body R (BcodeS x) = False"
| "storable_body R (OtherS ty) = False"
| "storable_elts R [] = True"
| "storable_elts R (x # xs) = (storable R x \<and> storable_elts R xs)"
| "storable_cells R (Sxp a ob (CellS ty t c d)) = (storable R t \<and> storable R c \<and> storable_cells R d)"
| "storable_cells R x = (x = R_NilValue)"

text \<open>Nesting depth: the fuel that loading the value's stream needs.\<close>

fun depth :: "sexp \<Rightarrow> nat"
and depth_body :: "rbody \<Rightarrow> nat"
and depth_elts :: "sexp list \<Rightarrow> nat"
and depth_cells :: "sexp \<Rightarrow> nat" where
  "depth R_NilValue = 1"
| "depth (Sxp a ob b) = Suc (max (if attr_stored a b then depth_cells a else 0) (depth_body b))"
| "depth_body (VecV xs) = depth_elts xs"
| "depth_body (StrV xs) = 1"
| "depth_body (CloS f b e) = max (depth f) (max (depth (closure_body b)) (depth e))"
| "depth_body (CellS ty t c d) = max (depth t) (max (depth c) (depth_cells d))"
| "depth_body (EnvS k) = 0"
| "depth_body (SymS p) = 0"
| "depth_body (CharS c) = 0"
| "depth_body (LglV xs) = 0"
| "depth_body (IntV xs) = 0"
| "depth_body (RealV xs) = 0"
| "depth_body (CplxV xs) = 0"
| "depth_body (RawV bs) = 0"
| "depth_body S4S = 0"
| "depth_body (BcodeS x) = 0"
| "depth_body (OtherS ty) = 0"
| "depth_elts [] = 0"
| "depth_elts (x # xs) = max (depth x) (depth_elts xs)"
| "depth_cells (Sxp a ob (CellS ty t c d)) = max (depth t) (max (depth c) (depth_cells d))"
| "depth_cells x = 0"

lemma hdr_word_type: "ts < 256 \<Longrightarrow> unat (hdr_word ts len AND 255) = ts"
proof -
  assume ts: "ts < 256"
  have "hdr_word ts len AND 255 = take_bit 8 (hdr_word ts len)"
    by (simp add: take_bit_eq_mask mask_eq_exp_minus_1)
  also have "\<dots> = take_bit 8 (of_nat ts)"
    by (simp add: hdr_word_def take_bit_push_bit)
  finally show ?thesis
    using ts by (simp add: unsigned_take_bit_eq unat_of_nat take_bit_nat_eq_self_iff)
qed

lemma hdr_word_len: "ts < 256 \<Longrightarrow> unat len < 2 ^ 56 \<Longrightarrow> drop_bit 8 (hdr_word ts len) = len"
proof -
  assume ts: "ts < 256" and len: "unat len < 2 ^ 56"
  have ts': "take_bit 8 ts = ts"
    using ts by (simp add: take_bit_nat_eq_self_iff)
  have len': "take_bit 56 len = len"
    using len by (simp add: word_unat_eq_iff unsigned_take_bit_eq take_bit_nat_eq_self_iff)
  have ts'': "\<not> bit ts (8 + n)" for n
    using arg_cong [OF ts', of "\<lambda>w. bit w (8 + n)"] by (simp add: bit_take_bit_iff)
  have len'': "bit len n \<Longrightarrow> n < 56" for n
    using arg_cong [OF len', of "\<lambda>w. bit w n"] by (simp add: bit_take_bit_iff)
  show ?thesis
    by (rule bit_word_eqI) (auto simp: hdr_word_def bit_simps ts'' dest: len'')
qed

lemma ints_of_bytes [simp, wire_simps]: "ints_of (length xs) (concat (map bytes32 xs)) = xs"
  unfolding ints_of_def by (induction xs) auto

lemma reals_of_bytes [simp, wire_simps]: "reals_of (length xs) (concat (map bytes64 xs)) = xs"
  unfolding reals_of_def by (induction xs) auto

lemma cplx_of_bytes [simp, wire_simps]:
  "cplx_of (length xs) (concat (map (\<lambda>(re, im). bytes64 re @ bytes64 im) xs)) = xs"
  unfolding cplx_of_def by (induction xs) auto

lemma hdr_not_attr: "ts < 255 \<Longrightarrow> hdr_word ts len AND 255 \<noteq> of_nat ATTRSXP"
proof
  assume ts: "ts < 255" and "hdr_word ts len AND 255 = of_nat ATTRSXP"
  then have "unat (hdr_word ts len AND 255) = 255"
    by (simp add: ATTRSXP_def)
  with ts show False by (simp add: hdr_word_type)
qed

lemma hdr_attr: "hdr_word ATTRSXP len AND 255 = of_nat ATTRSXP"
proof -
  have "unat (hdr_word ATTRSXP len AND 255) = ATTRSXP"
    by (rule hdr_word_type) (simp add: ATTRSXP_def)
  then show ?thesis
    by (metis of_nat_unat ucast_id)
qed

text \<open>\<open>decode_one\<close> branch by branch, for a header of type \<open>ts\<close> and length \<open>len\<close>.\<close>

lemma decode_branch:
  assumes "unat (h AND 255) = ts" "drop_bit 8 h = len"
  shows "ts = NILSXP \<Longrightarrow> decode_one R fetch ld h s = Inr (R_NilValue, s)"
    and "ts = INTSXP \<Longrightarrow> decode_one R fetch ld h s = decode_vec R fetch ts 4 (\<lambda>n bs. IntV (ints_of n bs)) len s"
    and "ts = LGLSXP \<Longrightarrow> decode_one R fetch ld h s = decode_vec R fetch ts 4 (\<lambda>n bs. LglV (ints_of n bs)) len s"
    and "ts = REALSXP \<Longrightarrow> decode_one R fetch ld h s = decode_vec R fetch ts 8 (\<lambda>n bs. RealV (reals_of n bs)) len s"
    and "ts = CPLXSXP \<Longrightarrow> decode_one R fetch ld h s = decode_vec R fetch ts 16 (\<lambda>n bs. CplxV (cplx_of n bs)) len s"
    and "ts = SYMSXP \<Longrightarrow> decode_one R fetch ld h s =
        (if len = 0 then Inr (plain (SymS []), s)
         else rbind (fetch_scratch R fetch len s) (\<lambda>(name, s).
           if name = [] then Inl (RError ZeroName) else Inr (plain (SymS name), s)))"
    and "ts = VECSXP \<Longrightarrow> decode_one R fetch ld h s =
        rbind (allocVector R ts len) (\<lambda>_.
        rbind (repeat_m (unat len) ld s) (\<lambda>(xs, s). Inr (plain (VecV xs), s)))"
    and "ts = STRSXP \<Longrightarrow> decode_one R fetch ld h s =
        rbind (allocVector R ts len) (\<lambda>_.
        rbind (repeat_m (unat len) (load_chr ld) s) (\<lambda>(xs, s). Inr (plain (StrV xs), s)))"
    and "ts = CHARSXP \<Longrightarrow> decode_one R fetch ld h s =
        rbind (fetch_scratch R fetch len s) (\<lambda>(c, s). Inr (plain (CharS (MkChar c)), s))"
    and "ts = CLOSXP \<Longrightarrow> decode_one R fetch ld h s =
        rbind (ld s) (\<lambda>(f, s). rbind (ld s) (\<lambda>(b, s). rbind (ld s) (\<lambda>(e, s).
        Inr (plain (CloS f b e), s))))"
    and "ts = ATTRSXP \<or> ts = LISTSXP \<Longrightarrow> decode_one R fetch ld h s =
        rbind (repeat_m (unat len) (load_pair ld) s) (\<lambda>(ps, s). Inr (mk_cells ListCell ps, s))"
    and "ts = LANGSXP \<Longrightarrow> decode_one R fetch ld h s =
        rbind (repeat_m (unat len) (load_pair ld) s) (\<lambda>(ps, s). Inr (mk_cells LangCell ps, s))"
    and "ts = ENVSXP \<Longrightarrow> decode_one R fetch ld h s =
        Inr (plain (EnvS (if len = SFS_GLOBAL_ENV then GlobalEnv
                          else if len = SFS_EMPTY_ENV then EmptyEnv else BaseEnv)), s)"
    and "ts \<in> {RAWSXP, S4SXP, BCODESXP} \<or> 25 < ts \<and> ts < 255 \<Longrightarrow>
        decode_one R fetch ld h s = Inl (RError (Unimplemented ts))"
  using assms unfolding decode_one_def Let_def ATTRSXP_def by (simp_all, auto)

lemmas decode_hdr = decode_branch [OF hdr_word_type hdr_word_len]

subsection \<open>The fuel a stored value needs\<close>

lemma depth_frames:
  "depth x \<le> Suc (length (frames x))"
  "depth_body b \<le> length (frames_body b)"
  "depth_elts xs \<le> Suc (length (frames_elts xs))"
  "depth_cells x \<le> Suc (length (frames_cells x))"
  by (induction x and b and xs and x rule: frames_frames_body_frames_elts_frames_cells.induct)
    (auto simp: attr_stored_def)

lemma length_frames_wire: "8 * length fs \<le> length (concat (map frame_bytes fs))"
proof (induction fs)
  case (Cons fr fs)
  obtain ts el len buf where "fr = (ts, el, len, buf)"
    by (cases fr)
  with Cons show ?case by simp
qed simp

lemma depth_wire: "depth x \<le> length (wire x) div 8 + 1"
  using depth_frames(1) [of x] length_frames_wire [of "frames x"] by (simp add: wire_def)

end
