(* ===== verification/SfsLoad.thy ===== *)
theory SfsLoad
  imports SfsSpec
begin

text \<open>
  The fetch side of the serialisation core: the contract of a fetch back end as a locale,
  and inside it the round trip (a stored value's stream loads to its normal form) and, for
  sources that report a short read as an error, termination on every input.
\<close>

subsection \<open>The contract of a fetch back end\<close>

text \<open>
  \<open>rest\<close> is what the source still holds, \<open>ok\<close> the states from which it can be read. A
  fetch of no more than that returns exactly the next bytes.
\<close>

locale fetch_api =
  fixes fetch :: "'s fetch_fn"
    and rest :: "'s \<Rightarrow> string"
    and ok :: "'s \<Rightarrow> bool"
  assumes fetch_rest: "ok r \<Longrightarrow> unat n \<le> length (rest r) \<Longrightarrow>
      \<exists>r'. fetch r n = Inr (take (unat n) (rest r), r') \<and> ok r' \<and> rest r' = drop (unat n) (rest r)"
begin

definition ready :: "'s loader \<Rightarrow> bool" where
  "ready s \<longleftrightarrow> ok (src s) \<and> length (dec_buf s) = DEC_BUF_SIZE"

text \<open>\<open>loads f bs v\<close>: wherever the source goes on with \<open>bs\<close>, the step \<open>f\<close> consumes
  exactly \<open>bs\<close> and returns \<open>v\<close>.\<close>

definition loads :: "('s, 'a) load_fn \<Rightarrow> string \<Rightarrow> 'a \<Rightarrow> bool" where
  "loads f bs v \<longleftrightarrow> (\<forall>s tl. ready s \<longrightarrow> rest (src s) = bs @ tl \<longrightarrow>
     (\<exists>s'. f s = Inr (v, s') \<and> ready s' \<and> rest (src s') = tl))"

lemma loadsD:
  "loads f bs v \<Longrightarrow> ready s \<Longrightarrow> rest (src s) = bs @ after \<Longrightarrow>
    \<exists>s'. f s = Inr (v, s') \<and> ready s' \<and> rest (src s') = after"
  by (simp add: loads_def)

lemma loads_return: "loads (\<lambda>s. Inr (v, s)) [] v"
  by (simp add: loads_def)

lemma loads_bind:
  "loads f bs v \<Longrightarrow> loads (g v) cs w \<Longrightarrow> loads (\<lambda>s. rbind (f s) (\<lambda>(x, s). g x s)) (bs @ cs) w"
  unfolding loads_def by fastforce

lemma loads_bind_pure:
  "loads f bs v \<Longrightarrow> loads (\<lambda>s. rbind (f s) (\<lambda>(x, s). Inr (h x, s))) bs (h v)"
  unfolding loads_def by fastforce

lemma loads_fetch: "unat n = length bs \<Longrightarrow> loads (fetch_ld fetch n) bs bs"
  unfolding loads_def
proof (intro allI impI)
  fix s tl
  assume n: "unat n = length bs" and s: "ready s" "rest (src s) = bs @ tl"
  obtain r' where "fetch (src s) n = Inr (take (unat n) (rest (src s)), r')"
      "ok r'" "rest r' = drop (unat n) (rest (src s))"
    using fetch_rest [of "src s" n] s n by (auto simp: ready_def)
  with s n show "\<exists>s'. fetch_ld fetch n s = Inr (bs, s') \<and> ready s' \<and> rest (src s') = tl"
    by (auto simp: fetch_ld_def ready_def)
qed

lemma loads_hdr: "loads (fetch_hdr fetch) (bytes64 w) w"
  using loads_bind_pure [OF loads_fetch [of 8 "bytes64 w"], of word64]
  by (simp add: fetch_hdr_def [abs_def])

lemma loads_scratch:
  assumes len: "unat len = length s + 1" "length s + 1 < DEC_BUF_SIZE" and s: "nul \<notin> set s"
  shows "loads (fetch_scratch R fetch len) (s @ [nul]) s"
  unfolding loads_def
proof (intro allI impI)
  fix l tl
  assume l: "ready l" "rest (src l) = (s @ [nul]) @ tl"
  obtain l' where l': "fetch_ld fetch len l = Inr (s @ [nul], l')" "ready l'" "rest (src l') = tl"
    using loads_fetch [of len "s @ [nul]"] len l by (auto simp: loads_def)
  have d: "overwrite 0 (s @ [nul]) (dec_buf l') = s @ nul # drop (Suc (length s)) (dec_buf l')"
    by (simp add: overwrite_def)
  have "length (overwrite 0 (s @ [nul]) (dec_buf l')) = DEC_BUF_SIZE"
    using l'(2) len(2) by (simp add: ready_def)
  with l' len s show "\<exists>s'. fetch_scratch R fetch len l = Inr (s, s') \<and> ready s' \<and> rest (src s') = tl"
    by (auto simp: fetch_scratch_def d ready_def Let_def)
qed

lemma loads_pair:
  "loads ld bs t \<Longrightarrow> loads ld cs v \<Longrightarrow> loads (load_pair ld) (bs @ cs) (t, v)"
  unfolding load_pair_def [abs_def]
  by (erule loads_bind, erule loads_bind_pure [where h = "Pair t"])

lemma loads_repeat_0: "loads (repeat_m 0 f) [] []"
  by (simp add: loads_def)

lemma loads_repeat_Cons:
  "loads f bs v \<Longrightarrow> loads (repeat_m n f) cs vs \<Longrightarrow> loads (repeat_m (Suc n) f) (bs @ cs) (v # vs)"
proof -
  assume f: "loads f bs v" and r: "loads (repeat_m n f) cs vs"
  have "loads (\<lambda>s. rbind (f s) (\<lambda>(x, s). rbind (repeat_m n f s) (\<lambda>(xs, s). Inr (x # xs, s))))
      (bs @ cs) (v # vs)"
    using f loads_bind_pure [OF r, of "Cons v"] by (rule loads_bind)
  then show ?thesis by (simp add: loads_def)
qed

lemma loads_vec:
  assumes "alloc_ok R ts n" "len_ok n" "el \<le> 16" "length bs = el * n"
  shows "loads (decode_vec R fetch ts el mk (of_nat n)) bs (plain (mk n bs))"
proof -
  have n: "unat (of_nat n :: 64 word) = n"
    using assms(2) by (rule unat_len_ok)
  have "n * el \<le> n * 16"
    using assms(3) by (rule mult_le_mono2)
  also have "\<dots> < 2 ^ 64"
    using assms(2) by (simp add: len_ok_def)
  finally have "n * el < 2 ^ 64" .
  then have "unat (of_nat n * of_nat el :: 64 word) = length bs"
    using assms(4) by (simp add: unat_of_nat take_bit_nat_eq_self_iff mult.commute flip: of_nat_mult)
  from loads_bind_pure [OF loads_fetch [OF this], of "\<lambda>bs. plain (mk n bs)"] show ?thesis
    using assms(1) by (simp add: decode_vec_def [abs_def] allocVector_def n)
qed

lemma loads_load_plain:
  assumes "hdr AND 255 \<noteq> of_nat ATTRSXP"
    and "loads (decode_one R fetch (sfs_load R fetch f) hdr) payload v"
  shows "loads (sfs_load R fetch (Suc f)) (bytes64 hdr @ payload) v"
proof -
  have "loads (\<lambda>s. rbind (fetch_hdr fetch s) (\<lambda>(hdr, s). decode_one R fetch (sfs_load R fetch f) hdr s))
      (bytes64 hdr @ payload) v"
    using loads_hdr assms(2) by (rule loads_bind)
  then show ?thesis
    using loads_hdr [of hdr] assms(1)
    unfolding loads_def by (fastforce simp: load_attr_def finish_load_def)
qed

lemma loads_load_attr:
  assumes cells: "loads (repeat_m l (load_pair (sfs_load R fetch f))) abytes ps"
    and l: "len_ok l" "mk_cells ListCell ps \<noteq> R_NilValue"
    and obj: "loads (decode_one R fetch (sfs_load R fetch f) hdr) payload (plain b)"
    and b: "body_type b \<notin> {SYMSXP, ENVSXP, CHARSXP}"
  shows "loads (sfs_load R fetch (Suc f))
    (bytes64 (hdr_word ATTRSXP (of_nat l)) @ abytes @ bytes64 hdr @ payload)
    (let a = mk_cells ListCell ps in Sxp a (has_class a) b)"
  unfolding loads_def
proof (intro allI impI)
  fix s tl
  let ?ld = "sfs_load R fetch f" and ?h = "hdr_word ATTRSXP (of_nat l)"
  assume s: "ready s"
    "rest (src s) = (bytes64 ?h @ abytes @ bytes64 hdr @ payload) @ tl"
  have "loads (\<lambda>s. rbind (repeat_m l (load_pair ?ld) s) (\<lambda>(ps, s). Inr (mk_cells ListCell ps, s)))
      abytes (mk_cells ListCell ps)"
    by (rule loads_bind_pure [OF cells])
  moreover have "decode_one R fetch ?ld ?h =
      (\<lambda>s. rbind (repeat_m (unat (of_nat l :: 64 word)) (load_pair ?ld) s)
        (\<lambda>(ps, s). Inr (mk_cells ListCell ps, s)))"
    by (rule ext, rule decode_hdr(11)) (use l(1) in \<open>simp_all add: ATTRSXP_def unat_len_ok len_ok_def\<close>)
  ultimately have attr: "loads (decode_one R fetch ?ld ?h) abytes (mk_cells ListCell ps)"
    by (simp only: unat_len_ok [OF l(1)])
  obtain s1 where s1: "fetch_hdr fetch s = Inr (?h, s1)" "ready s1"
      "rest (src s1) = abytes @ bytes64 hdr @ payload @ tl"
    using loadsD [OF loads_hdr s(1), of ?h "abytes @ bytes64 hdr @ payload @ tl"] s(2) by auto
  obtain s2 where s2: "decode_one R fetch ?ld ?h s1 = Inr (mk_cells ListCell ps, s2)" "ready s2"
      "rest (src s2) = bytes64 hdr @ payload @ tl"
    using loadsD [OF attr s1(2,3)] by blast
  obtain s3 where s3: "fetch_hdr fetch s2 = Inr (hdr, s3)" "ready s3" "rest (src s3) = payload @ tl"
    using loadsD [OF loads_hdr s2(2,3)] by blast
  obtain s4 where s4: "decode_one R fetch ?ld hdr s3 = Inr (plain b, s4)" "ready s4" "rest (src s4) = tl"
    using loadsD [OF obj s3(2,3)] by blast
  show "\<exists>s'. sfs_load R fetch (Suc f) s =
        Inr (let a = mk_cells ListCell ps in Sxp a (has_class a) b, s') \<and> ready s' \<and> rest (src s') = tl"
    using s1 s2 s3 s4 l(2) b by (simp add: hdr_attr Let_def load_attr_def finish_load_def)
qed

text \<open>One lemma per branch of the decoder: the payload that follows a frame's header loads to
  the body it was written for.\<close>

lemma loads_cong: "(\<And>s. g s = f s) \<Longrightarrow> loads f bs v \<Longrightarrow> loads g bs v"
  by (simp add: loads_def)

lemma decode_numbers:
  "alloc_ok R INTSXP (length xs) \<Longrightarrow> len_ok (length xs) \<Longrightarrow>
    loads (decode_one R fetch ld (hdr_word INTSXP (of_nat (length xs)))) (concat (map bytes32 xs)) (plain (IntV xs))"
  "alloc_ok R LGLSXP (length xs) \<Longrightarrow> len_ok (length xs) \<Longrightarrow>
    loads (decode_one R fetch ld (hdr_word LGLSXP (of_nat (length xs)))) (concat (map bytes32 xs)) (plain (LglV xs))"
  "alloc_ok R REALSXP (length ys) \<Longrightarrow> len_ok (length ys) \<Longrightarrow>
    loads (decode_one R fetch ld (hdr_word REALSXP (of_nat (length ys)))) (concat (map bytes64 ys)) (plain (RealV ys))"
  "alloc_ok R CPLXSXP (length zs) \<Longrightarrow> len_ok (length zs) \<Longrightarrow>
    loads (decode_one R fetch ld (hdr_word CPLXSXP (of_nat (length zs))))
      (concat (map (\<lambda>(re, im). bytes64 re @ bytes64 im) zs)) (plain (CplxV zs))"
proof -
  have u: "len_ok n \<Longrightarrow> unat (of_nat n :: 64 word) < 2 ^ 56" for n
    using unat_len_ok [of n] by (simp add: len_ok_def)
  show "alloc_ok R INTSXP (length xs) \<Longrightarrow> len_ok (length xs) \<Longrightarrow>
    loads (decode_one R fetch ld (hdr_word INTSXP (of_nat (length xs)))) (concat (map bytes32 xs)) (plain (IntV xs))"
    by (rule loads_cong, rule decode_hdr(2))
      (use u loads_vec [of R 13 "length xs" 4 "concat (map bytes32 xs)" "\<lambda>n bs. IntV (ints_of n bs)"] in simp_all)
  show "alloc_ok R LGLSXP (length xs) \<Longrightarrow> len_ok (length xs) \<Longrightarrow>
    loads (decode_one R fetch ld (hdr_word LGLSXP (of_nat (length xs)))) (concat (map bytes32 xs)) (plain (LglV xs))"
    by (rule loads_cong, rule decode_hdr(3))
      (use u loads_vec [of R 10 "length xs" 4 "concat (map bytes32 xs)" "\<lambda>n bs. LglV (ints_of n bs)"] in simp_all)
  show "alloc_ok R REALSXP (length ys) \<Longrightarrow> len_ok (length ys) \<Longrightarrow>
    loads (decode_one R fetch ld (hdr_word REALSXP (of_nat (length ys)))) (concat (map bytes64 ys)) (plain (RealV ys))"
    by (rule loads_cong, rule decode_hdr(4))
      (use u loads_vec [of R 14 "length ys" 8 "concat (map bytes64 ys)" "\<lambda>n bs. RealV (reals_of n bs)"] in simp_all)
  show "alloc_ok R CPLXSXP (length zs) \<Longrightarrow> len_ok (length zs) \<Longrightarrow>
    loads (decode_one R fetch ld (hdr_word CPLXSXP (of_nat (length zs))))
      (concat (map (\<lambda>(re, im). bytes64 re @ bytes64 im) zs)) (plain (CplxV zs))"
    by (rule loads_cong, rule decode_hdr(5))
      (use u loads_vec [of R 15 "length zs" 16 "concat (map (\<lambda>(re, im). bytes64 re @ bytes64 im) zs)"
        "\<lambda>n bs. CplxV (cplx_of n bs)"] in simp_all)
qed

lemma unat_len_bound: "len_ok n \<Longrightarrow> unat (of_nat n :: 64 word) < 2 ^ 56"
  using unat_len_ok [of n] by (simp add: len_ok_def)

lemma name_len_ok: "name_ok p \<Longrightarrow> len_ok (length p + 1)"
  by (simp add: name_ok_def len_ok_def DEC_BUF_SIZE_def)

lemma loads_name:
  "name_ok p \<Longrightarrow> unat len = length p + 1 \<Longrightarrow> loads (fetch_scratch R fetch len) (p @ [nul]) p"
  by (rule loads_scratch) (simp_all add: name_ok_def)

lemma name_bound: "name_ok p \<Longrightarrow> unat len = length p + 1 \<Longrightarrow> unat len < 2 ^ 56"
  using name_len_ok [of p] by (simp add: len_ok_def)

lemma decode_sym:
  "name_ok p \<Longrightarrow> p \<noteq> [] \<Longrightarrow> unat len = length p + 1 \<Longrightarrow>
    loads (decode_one R fetch ld (hdr_word SYMSXP len)) (p @ [nul]) (plain (SymS p))"
  "loads (decode_one R fetch ld (hdr_word SYMSXP 0)) [] (plain (SymS []))"
proof -
  assume p: "name_ok p" "p \<noteq> []" "unat len = length p + 1"
  have z: "len \<noteq> 0"
    using p(3) by auto
  have "loads (\<lambda>s. rbind (fetch_scratch R fetch len s) (\<lambda>(name, s).
      if name = [] then Inl (RError ZeroName) else Inr (plain (SymS name), s)))
      ((p @ [nul]) @ []) (plain (SymS p))"
    by (rule loads_bind [OF loads_name [OF p(1,3)]]) (simp add: p loads_return)
  then have L: "loads (\<lambda>s. rbind (fetch_scratch R fetch len s) (\<lambda>(name, s).
      if name = [] then Inl (RError ZeroName) else Inr (plain (SymS name), s)))
      (p @ [nul]) (plain (SymS p))"
    by simp
  show "loads (decode_one R fetch ld (hdr_word SYMSXP len)) (p @ [nul]) (plain (SymS p))"
    by (rule loads_cong [OF _ L], subst decode_hdr(6)) (use z name_bound [OF p(1,3)] in simp_all)
next
  show "loads (decode_one R fetch ld (hdr_word SYMSXP 0)) [] (plain (SymS []))"
    by (rule loads_cong [OF _ loads_return], subst decode_hdr(6)) simp_all
qed

lemma decode_string:
  assumes "name_ok c" "unat len = length c + 1"
  shows "loads (decode_one R fetch ld (hdr_word CHARSXP len)) (c @ [nul]) (plain (CharS (MkChar c)))"
  by (rule loads_cong [OF _ loads_bind_pure [OF loads_name [OF assms]]], subst decode_hdr(9))
    (use name_bound [OF assms] in simp_all)

lemma loads_string_elt:
  assumes "name_ok (R_CHAR x)"
  shows "loads (load_chr (sfs_load R fetch (Suc f))) (frame_bytes (string_frame x)) (MkChar (R_CHAR x))"
proof -
  have c: "cstr (R_CHAR x) = R_CHAR x"
    using assms by (simp add: name_ok_def cstr_id)
  have l: "unat (of_nat (strlen (R_CHAR x) + 1) :: 64 word) = length (R_CHAR x) + 1"
    using unat_len_ok [OF name_len_ok [OF assms]] c by (simp only: strlen_def)
  have "loads (sfs_load R fetch (Suc f))
      (bytes64 (hdr_word CHARSXP (of_nat (strlen (R_CHAR x) + 1))) @ R_CHAR x @ [nul])
      (plain (CharS (MkChar (R_CHAR x))))"
    by (rule loads_load_plain [OF _ decode_string [OF assms l]]) (rule hdr_not_attr, simp)
  from loads_bind [OF this, of "\<lambda>x s. case x of Sxp a ob (CharS c) \<Rightarrow> Inr (c, s) | _ \<Rightarrow> Inl (RError BadElement)"
      "[]" "MkChar (R_CHAR x)"]
  show ?thesis
    by (simp add: load_chr_def [abs_def] loads_return string_frame_def c del: of_nat_Suc)
qed

lemma loads_strings:
  "list_all (\<lambda>x. name_ok (R_CHAR x)) xs \<Longrightarrow>
    loads (repeat_m (length xs) (load_chr (sfs_load R fetch (Suc f))))
      (concat (map frame_bytes (map string_frame xs))) (map (\<lambda>x. MkChar (R_CHAR x)) xs)"
proof (induction xs)
  case Nil
  then show ?case using loads_return by simp
next
  case (Cons x xs)
  then show ?case
    using loads_repeat_Cons [OF loads_string_elt [of x R f], of "length xs"]
    by (simp del: sfs_load.simps repeat_m.simps)
qed

text \<open>A body's frames are a header below the attribute code and a payload that decodes to it.\<close>

definition body_loads :: "renv \<Rightarrow> nat \<Rightarrow> rbody \<Rightarrow> bool" where
  "body_loads R f b \<longleftrightarrow> (\<exists>ts len payload.
     concat (map frame_bytes (frames_body b)) = bytes64 (hdr_word ts len) @ payload \<and> ts < 255 \<and>
     loads (decode_one R fetch (sfs_load R fetch f) (hdr_word ts len)) payload (plain (norm_body b)))"

lemma body_loadsI:
  "concat (map frame_bytes (frames_body b)) = bytes64 (hdr_word ts len) @ payload \<Longrightarrow> ts < 255 \<Longrightarrow>
    loads (decode_one R fetch (sfs_load R fetch f) (hdr_word ts len)) payload (plain (norm_body b)) \<Longrightarrow>
    body_loads R f b"
  unfolding body_loads_def by blast

lemma body_loads_atom:
  "wf_body (IntV xs) \<Longrightarrow> storable_body R (IntV xs) \<Longrightarrow> body_loads R f (IntV xs)"
  "wf_body (LglV xs) \<Longrightarrow> storable_body R (LglV xs) \<Longrightarrow> body_loads R f (LglV xs)"
  "wf_body (RealV ys) \<Longrightarrow> storable_body R (RealV ys) \<Longrightarrow> body_loads R f (RealV ys)"
  "wf_body (CplxV zs) \<Longrightarrow> storable_body R (CplxV zs) \<Longrightarrow> body_loads R f (CplxV zs)"
  using body_loadsI [of "IntV xs" INTSXP "of_nat (length xs)" "concat (map bytes32 xs)" R f]
    body_loadsI [of "LglV xs" LGLSXP "of_nat (length xs)" "concat (map bytes32 xs)" R f]
    body_loadsI [of "RealV ys" REALSXP "of_nat (length ys)" "concat (map bytes64 ys)" R f]
    body_loadsI [of "CplxV zs" CPLXSXP "of_nat (length zs)"
      "concat (map (\<lambda>(re, im). bytes64 re @ bytes64 im) zs)" R f]
  by (simp_all add: decode_numbers)

lemma body_loads_sym:
  assumes "wf_body (SymS p)" "storable_body R (SymS p)"
  shows "body_loads R f (SymS p)"
proof (cases "p = []")
  case True
  then show ?thesis
    using body_loadsI [of "SymS []" SYMSXP 0 "[]" R f] decode_sym(2) by (simp add: cstr_def)
next
  case False
  have c: "cstr p = p"
    using assms(2) by (simp add: name_ok_def cstr_id)
  have l: "unat (of_nat (length p + 1) :: 64 word) = length p + 1"
    using assms(2) unat_len_ok [OF name_len_ok] by simp
  show ?thesis
    by (rule body_loadsI [of _ SYMSXP "of_nat (length p + 1)" "p @ [nul]"])
      (use False c decode_sym(1) [OF _ _ l] assms(2) in \<open>simp_all add: strlen_def del: of_nat_Suc\<close>)
qed

lemma body_loads_vec:
  assumes "len_ok (length xs)" "alloc_ok R VECSXP (length xs)"
    and elts: "loads (repeat_m (length xs) (sfs_load R fetch f))
      (concat (map frame_bytes (frames_elts xs))) (norm_elts xs)"
  shows "body_loads R f (VecV xs)"
proof (rule body_loadsI)
  let ?n = "of_nat (length xs) :: 64 word"
  have eq: "decode_one R fetch (sfs_load R fetch f) (hdr_word VECSXP ?n) s =
      rbind (repeat_m (length xs) (sfs_load R fetch f) s) (\<lambda>(xs, s). Inr (plain (VecV xs), s))" for s
    by (subst decode_hdr(7))
      (use assms(2) unat_len_bound [OF assms(1)] unat_len_ok [OF assms(1)] in \<open>simp_all add: allocVector_def\<close>)
  show "loads (decode_one R fetch (sfs_load R fetch f) (hdr_word VECSXP ?n))
      (concat (map frame_bytes (frames_elts xs))) (plain (norm_body (VecV xs)))"
    using loads_cong [OF eq loads_bind_pure [OF elts]] by simp
qed simp_all

lemma body_loads_str:
  assumes "wf_body (StrV xs)" "storable_body R (StrV xs)" "0 < f"
  shows "body_loads R f (StrV xs)"
proof (rule body_loadsI)
  obtain g where f: "f = Suc g"
    using assms(3) by (cases f) auto
  have elts: "loads (repeat_m (length xs) (load_chr (sfs_load R fetch f)))
      (concat (map frame_bytes (map string_frame xs))) (map (\<lambda>x. MkChar (R_CHAR x)) xs)"
    unfolding f by (rule loads_strings) (use assms(2) in simp)
  let ?n = "of_nat (length xs) :: 64 word"
  have n: "len_ok (length xs)"
    using assms(1) by simp
  have eq: "decode_one R fetch (sfs_load R fetch f) (hdr_word STRSXP ?n) s =
      rbind (repeat_m (length xs) (load_chr (sfs_load R fetch f)) s) (\<lambda>(xs, s). Inr (plain (StrV xs), s))" for s
    by (subst decode_hdr(8))
      (use assms(2) unat_len_bound [OF n] unat_len_ok [OF n] in \<open>simp_all add: allocVector_def\<close>)
  show "loads (decode_one R fetch (sfs_load R fetch f) (hdr_word STRSXP ?n))
      (concat (map frame_bytes (map string_frame xs))) (plain (norm_body (StrV xs)))"
    using loads_cong [OF eq loads_bind_pure [OF elts]] by simp
qed simp_all

lemma body_loads_clo:
  assumes "loads (sfs_load R fetch g) (wire f) (norm f)"
    and "loads (sfs_load R fetch g) (wire (closure_body b)) (norm (closure_body b))"
    and "loads (sfs_load R fetch g) (wire e) (norm e)"
  shows "body_loads R g (CloS f b e)"
proof (rule body_loadsI)
  let ?ld = "sfs_load R fetch g"
  have L: "loads (\<lambda>s. rbind (?ld s) (\<lambda>(f, s). rbind (?ld s) (\<lambda>(b, s). rbind (?ld s) (\<lambda>(e, s).
      Inr (plain (CloS f b e), s))))) (wire f @ wire (closure_body b) @ wire e)
      (plain (norm_body (CloS f b e)))"
    by (rule loads_bind [OF assms(1)], rule loads_bind [OF assms(2)],
        use loads_bind_pure [OF assms(3)] in simp)
  show "loads (decode_one R fetch ?ld (hdr_word CLOSXP 3))
      (wire f @ wire (closure_body b) @ wire e) (plain (norm_body (CloS f b e)))"
    by (rule loads_cong [OF _ L], subst decode_hdr(10)) simp_all
qed (simp_all add: wire_def)

lemma body_loads_cell:
  assumes l: "pairlen d = Some l" "len_ok (Suc l)"
    and t: "loads (sfs_load R fetch f) (wire t) (norm t)"
    and c: "loads (sfs_load R fetch f) (wire c) (norm c)"
    and d: "loads (repeat_m l (load_pair (sfs_load R fetch f)))
      (concat (map frame_bytes (frames_cells d))) (norm_pairs d)"
  shows "body_loads R f (CellS ty t c d)"
proof (rule body_loadsI)
  let ?ld = "sfs_load R fetch f" and ?h = "hdr_word (cell_code ty) (of_nat (Suc l))"
  let ?bs = "(wire t @ wire c) @ concat (map frame_bytes (frames_cells d))"
  have L: "loads (repeat_m (Suc l) (load_pair ?ld)) ?bs ((norm t, norm c) # norm_pairs d)"
    by (rule loads_repeat_Cons [OF loads_pair [OF t c] d])
  have u: "unat (of_nat (Suc l) :: 64 word) = Suc l"
    using l(2) by (rule unat_len_ok)
  have eq: "decode_one R fetch ?ld ?h s =
      rbind (repeat_m (Suc l) (load_pair ?ld) s) (\<lambda>(ps, s). Inr (mk_cells ty ps, s))" for s
  proof (cases ty)
    case ListCell
    then show ?thesis
      by (subst decode_hdr(11)) (use u l(2) in \<open>simp_all add: len_ok_def del: of_nat_Suc\<close>)
  next
    case LangCell
    then show ?thesis
      by (subst decode_hdr(12)) (use u l(2) in \<open>simp_all add: len_ok_def del: of_nat_Suc\<close>)
  qed
  show "loads (decode_one R fetch ?ld ?h) ?bs (plain (norm_body (CellS ty t c d)))"
    using loads_cong [OF eq loads_bind_pure [OF L]] by simp
  show "cell_code ty < 255"
    by (cases ty) simp_all
qed (use l in \<open>simp add: wire_def\<close>)

lemma body_loads_env: "body_loads R f (EnvS k)"
proof (rule body_loadsI)
  show "loads (decode_one R fetch (sfs_load R fetch f) (hdr_word ENVSXP (env_code k)))
      [] (plain (norm_body (EnvS k)))"
    by (rule loads_cong [OF _ loads_return], subst decode_hdr(13))
      (use env_code_bound [of k] in \<open>cases k; simp add: env_code_def SFS_GLOBAL_ENV_def
        SFS_EMPTY_ENV_def SFS_BASE_ENV_def\<close>)+
qed simp_all

lemma loads_object:
  assumes "body_loads R f b"
    and attr: "attr_stored a b \<Longrightarrow> \<exists>l. pairlen a = Some l \<and> len_ok l \<and>
      loads (repeat_m l (load_pair (sfs_load R fetch f))) (concat (map frame_bytes (frames_cells a))) (norm_pairs a) \<and>
      norm_pairs a \<noteq> []"
    and body: "attr_stored a b \<Longrightarrow> body_type (norm_body b) \<notin> {SYMSXP, ENVSXP, CHARSXP}"
  shows "loads (sfs_load R fetch (Suc f)) (wire (Sxp a ob b)) (norm (Sxp a ob b))"
proof -
  obtain ts len payload where
    w: "concat (map frame_bytes (frames_body b)) = bytes64 (hdr_word ts len) @ payload" and ts: "ts < 255" and
    d: "loads (decode_one R fetch (sfs_load R fetch f) (hdr_word ts len)) payload (plain (norm_body b))"
    using assms(1) unfolding body_loads_def by blast
  show ?thesis
  proof (cases "attr_stored a b")
    case True
    obtain l where l: "pairlen a = Some l" "len_ok l"
        "loads (repeat_m l (load_pair (sfs_load R fetch f))) (concat (map frame_bytes (frames_cells a))) (norm_pairs a)"
        and ne: "norm_pairs a \<noteq> []"
      using attr [OF True] by blast
    have "mk_cells ListCell (norm_pairs a) \<noteq> R_NilValue"
      using ne by (cases "norm_pairs a") simp_all
    from loads_load_attr [OF l(3,2) this d body [OF True]] True l(1)
    show ?thesis
      by (simp add: wire_def w attr_stored_def del: sfs_load.simps)
  next
    case False
    have "wire (Sxp a ob b) = bytes64 (hdr_word ts len) @ payload"
      using False by (simp only: wire_def attr_stored_def frames.simps w if_False append_Nil)
    then show ?thesis
      using False loads_load_plain [OF hdr_not_attr [OF ts] d] by (simp del: sfs_load.simps)
  qed
qed

lemma wf_cells_pairlen: "wf_cells a \<Longrightarrow> pairlen a \<noteq> None"
  by (induction a rule: pairlen.induct) auto

lemma norm_pairs_nonempty: "wf_cells a \<Longrightarrow> a \<noteq> R_NilValue \<Longrightarrow> norm_pairs a \<noteq> []"
  by (cases a rule: pairlen.cases) auto

lemma norm_body_attr_type:
  "body_type b \<in> set attr_types \<Longrightarrow> body_type (norm_body b) = body_type b"
  by (cases b) simp_all

lemma loads_nil: "loads (sfs_load R fetch (Suc f)) (wire R_NilValue) R_NilValue"
proof -
  have eq: "decode_one R fetch (sfs_load R fetch f) (hdr_word NILSXP 0) s = Inr (R_NilValue, s)" for s
    by (subst decode_hdr(1)) simp_all
  have "loads (sfs_load R fetch (Suc f)) (bytes64 (hdr_word NILSXP 0) @ []) R_NilValue"
    by (rule loads_load_plain [OF _ loads_cong [OF eq loads_return]]) (rule hdr_not_attr, simp)
  then show ?thesis by (simp add: wire_def del: sfs_load.simps)
qed

lemma loads_wire_all:
  "wf_sexp x \<Longrightarrow> storable R x \<Longrightarrow> depth x \<le> f \<Longrightarrow> loads (sfs_load R fetch f) (wire x) (norm x)"
  "wf_body b \<Longrightarrow> storable_body R b \<Longrightarrow> depth_body b \<le> f \<Longrightarrow> body_loads R f b"
  "wf_elts xs \<Longrightarrow> storable_elts R xs \<Longrightarrow> depth_elts xs \<le> f \<Longrightarrow>
    loads (repeat_m (length xs) (sfs_load R fetch f)) (concat (map frame_bytes (frames_elts xs))) (norm_elts xs)"
  "wf_cells a \<Longrightarrow> storable_cells R a \<Longrightarrow> depth_cells a \<le> f \<Longrightarrow>
    loads (repeat_m (the (pairlen a)) (load_pair (sfs_load R fetch f)))
      (concat (map frame_bytes (frames_cells a))) (norm_pairs a)"
proof (induction x and b and xs and a arbitrary: f and f and f and f
    rule: frames_frames_body_frames_elts_frames_cells.induct)
  case 1
  then show ?case using loads_nil by (cases f) (simp_all del: sfs_load.simps)
next
  case (2 a ob b)
  then obtain g where f: "f = Suc g"
    by (cases f) auto
  have b: "body_loads R g b"
    using "2.prems" by (intro "2.IH"(2)) (simp_all add: f)
  have a: "\<exists>l. pairlen a = Some l \<and> len_ok l \<and>
      loads (repeat_m l (load_pair (sfs_load R fetch g))) (concat (map frame_bytes (frames_cells a))) (norm_pairs a) \<and>
      norm_pairs a \<noteq> []" if "attr_stored a b"
    using "2.IH"(1) [of g] "2.prems" that norm_pairs_nonempty [of a]
    by (auto simp: f attr_stored_def split: option.splits)
  have t: "body_type (norm_body b) \<notin> {SYMSXP, ENVSXP, CHARSXP}" if "attr_stored a b"
    using that by (auto simp: attr_stored_def norm_body_attr_type attr_types_def)
  show ?case
    unfolding f by (rule loads_object [OF b a t])
next
  case (7 xs)
  then show ?case by (intro body_loads_vec) simp_all
next
  case (8 xs)
  then show ?case by (intro body_loads_str) simp_all
next
  case (11 fm b e)
  then show ?case by (intro body_loads_clo) simp_all
next
  case (12 ty t c d)
  then show ?case
    using wf_cells_pairlen [of d] by (auto intro!: body_loads_cell)
next
  case (13 k)
  then show ?case using body_loads_env by simp
next
  case (19 x xs)
  then show ?case
    using loads_repeat_Cons [of "sfs_load R fetch f" "wire x" "norm x" "length xs"]
    by (simp add: wire_def del: repeat_m.simps)
next
  case (20 a ob ty t c d)
  then obtain l where l: "pairlen d = Some l"
    using wf_cells_pairlen [of d] by auto
  have "loads (repeat_m (Suc l) (load_pair (sfs_load R fetch f)))
      ((wire t @ wire c) @ concat (map frame_bytes (frames_cells d))) ((norm t, norm c) # norm_pairs d)"
    using "20.IH" [of f] "20.prems" l by (intro loads_repeat_Cons loads_pair) simp_all
  then show ?case using l by (simp add: wire_def del: repeat_m.simps)
qed (simp_all add: body_loads_atom body_loads_sym loads_repeat_0)

text \<open>The round trip: whatever follows on the source, loading a stored value's stream gives
  its normal form and leaves what follows.\<close>

lemma load_wire:
  assumes "ok r" "rest r = wire x @ after" "length d = DEC_BUF_SIZE"
    and "wf_sexp x" "storable R x" "depth x \<le> fuel"
  shows "\<exists>s'. sfs_load R fetch fuel \<lparr>dec_buf = d, src = r\<rparr> = Inr (norm x, s') \<and>
    ok (src s') \<and> length (dec_buf s') = DEC_BUF_SIZE \<and> rest (src s') = after"
  using loadsD [OF loads_wire_all(1) [OF assms(4-6)], of "\<lparr>dec_buf = d, src = r\<rparr>" after] assms(1-3)
  by (auto simp: ready_def)

end

subsection \<open>Sources that report a short read\<close>

text \<open>
  A source that answers a fetch beyond its contents with an error makes loading total: each
  nested value takes at least the eight bytes of its header, so fuel above an eighth of the
  remaining length is never used up, whatever the bytes are. Nor is the scratch buffer ever
  read beyond its end: its last byte is never written.
\<close>

locale strict_fetch_api = fetch_api fetch rest ok
  for fetch :: "'s fetch_fn" and rest :: "'s \<Rightarrow> string" and ok :: "'s \<Rightarrow> bool" +
  assumes fetch_short: "ok r \<Longrightarrow> length (rest r) < unat n \<Longrightarrow> \<exists>e. fetch r n = Inl e \<and> e \<noteq> OutOfFuel \<and> e \<noteq> Undefined OutOfBounds"
begin

definition held :: "'s loader \<Rightarrow> bool" where
  "held s \<longleftrightarrow> ok (src s) \<and> scratch_ok (dec_buf s)"

definition safe :: "nat \<Rightarrow> ('s, 'a) load_fn \<Rightarrow> 's loader \<Rightarrow> bool" where
  "safe k f s \<longleftrightarrow> f s \<notin> {Inl OutOfFuel, Inl (Undefined OutOfBounds)} \<and> (\<forall>v s'. f s = Inr (v, s') \<longrightarrow>
     held s' \<and> length (rest (src s')) + k \<le> length (rest (src s)))"

lemma safe_mono: "safe k f s \<Longrightarrow> j \<le> k \<Longrightarrow> safe j f s"
  by (fastforce simp: safe_def)

lemma safe_return: "held s \<Longrightarrow> safe 0 (\<lambda>s. Inr (v, s)) s"
  by (simp add: safe_def)

lemma safe_error: "e \<noteq> OutOfFuel \<Longrightarrow> e \<noteq> Undefined OutOfBounds \<Longrightarrow> safe k (\<lambda>s. Inl e) s"
  by (simp add: safe_def)

lemma safe_bind:
  assumes "safe k f s"
    and "\<And>v s'. held s' \<Longrightarrow> length (rest (src s')) + k \<le> length (rest (src s)) \<Longrightarrow> safe j (g v) s'"
  shows "safe (k + j) (\<lambda>s. rbind (f s) (\<lambda>(v, s). g v s)) s"
proof (cases "f s")
  case (Inl e)
  then show ?thesis using assms(1) by (simp add: safe_def)
next
  case (Inr p)
  obtain v s' where p: "f s = Inr (v, s')"
    using Inr by (cases p) auto
  then have s': "held s'" "length (rest (src s')) + k \<le> length (rest (src s))"
    using assms(1) by (simp_all add: safe_def)
  from assms(2) [OF this, of v] s' p show ?thesis
    unfolding safe_def by fastforce
qed

lemma safe_bind0:
  assumes "safe 0 f s"
    and "\<And>v s'. held s' \<Longrightarrow> length (rest (src s')) \<le> length (rest (src s)) \<Longrightarrow> safe 0 (g v) s'"
  shows "safe 0 (\<lambda>s. rbind (f s) (\<lambda>(v, s). g v s)) s"
  using safe_bind [of 0 f s 0 g] assms by simp

lemma safe_fetch:
  assumes "held s"
  shows "safe (unat n) (fetch_ld fetch n) s"
    and "fetch_ld fetch n s = Inr (bs, s') \<Longrightarrow> length bs = unat n"
proof -
  show "safe (unat n) (fetch_ld fetch n) s"
    using fetch_rest [of "src s" n] fetch_short [of "src s" n] assms
    by (cases "unat n \<le> length (rest (src s))") (auto simp: safe_def fetch_ld_def held_def)
  show "fetch_ld fetch n s = Inr (bs, s') \<Longrightarrow> length bs = unat n"
    using fetch_rest [of "src s" n] fetch_short [of "src s" n] assms
    by (cases "unat n \<le> length (rest (src s))") (auto simp: fetch_ld_def held_def)
qed

lemma safe_hdr: "held s \<Longrightarrow> safe 8 (fetch_hdr fetch) s"
  using safe_bind [OF safe_fetch(1) [of s 8], of 0 "\<lambda>bs s. Inr (word64 bs, s)"]
  by (simp add: fetch_hdr_def [abs_def] safe_return)

lemma safe_fetch0: "held s \<Longrightarrow> safe 0 (fetch_ld fetch n) s"
  using safe_mono [OF safe_fetch(1)] by blast

lemma safe_scratch: "held s \<Longrightarrow> safe 0 (fetch_scratch R fetch len) s"
proof (cases "unat len < DEC_BUF_SIZE")
  case False
  then show ?thesis by (simp add: safe_def fetch_scratch_def)
next
  case True
  assume s: "held s"
  show ?thesis
  proof (cases "fetch_ld fetch len s")
    case (Inl e)
    then show ?thesis
      using True safe_fetch0 [OF s, of len] by (simp add: safe_def fetch_scratch_def)
  next
    case (Inr p)
    obtain bs s' where p: "fetch_ld fetch len s = Inr (bs, s')"
      using Inr by (cases p) auto
    have "length bs = unat len" "held s'" "length (rest (src s')) \<le> length (rest (src s))"
      using safe_fetch(2) [OF s p] safe_fetch0 [OF s, of len] p by (simp_all add: safe_def)
    with True p show ?thesis
      by (simp add: safe_def fetch_scratch_def Let_def held_def scratch_ok_overwrite)
  qed
qed

lemma safe_vec: "held s \<Longrightarrow> safe 0 (decode_vec R fetch ts el mk len) s"
  using safe_bind0 [OF safe_fetch0 [of s "len * of_nat el"], of "\<lambda>bs s. Inr (plain (mk (unat len) bs), s)"]
  by (auto simp: decode_vec_def [abs_def] allocVector_def safe_return safe_error)

lemma safe_repeat:
  "(\<And>s. held s \<Longrightarrow> length (rest (src s)) \<le> N \<Longrightarrow> safe 0 ld s) \<Longrightarrow>
    held s \<Longrightarrow> length (rest (src s)) \<le> N \<Longrightarrow> safe 0 (repeat_m n ld) s"
proof (induction n arbitrary: s)
  case 0
  then show ?case by (simp add: safe_def)
next
  case (Suc n)
  have "safe 0 (\<lambda>s. rbind (ld s) (\<lambda>(x, s). rbind (repeat_m n ld s) (\<lambda>(xs, s). Inr (x # xs, s)))) s"
    by (rule safe_bind0, use Suc in blast, rule safe_bind0, use Suc in force, rule safe_return)
  then show ?case by (simp add: safe_def)
qed

lemma safe_if: "(c \<Longrightarrow> safe k f s) \<Longrightarrow> (\<not> c \<Longrightarrow> safe k g s) \<Longrightarrow> safe k (\<lambda>s. if c then f s else g s) s"
  by (cases c) (simp_all add: safe_def)

lemma safe_alloc: "safe 0 f s \<Longrightarrow> safe 0 (\<lambda>s. rbind (allocVector R ts len) (\<lambda>_. f s)) s"
  by (simp add: safe_def allocVector_def)

text \<open>The nested loads of a decoding step: if they are safe on every remainder of at most
  \<open>N\<close> bytes, so is the step.\<close>

lemma decode_safe:
  assumes ld: "\<And>s. held s \<Longrightarrow> length (rest (src s)) \<le> N \<Longrightarrow> safe 0 ld s"
    and s: "held s" "length (rest (src s)) \<le> N"
  shows "safe 0 (decode_one R fetch ld hdr) s"
proof -
  have chr: "safe 0 (load_chr ld) s" if "held s" "length (rest (src s)) \<le> N" for s
    unfolding load_chr_def [abs_def]
    by (rule safe_bind0 [OF ld [OF that]])
      (auto simp: safe_def split: sexp.split rbody.split)
  have pair: "safe 0 (load_pair ld) s" if "held s" "length (rest (src s)) \<le> N" for s
    unfolding load_pair_def [abs_def]
    by (rule safe_bind0 [OF ld [OF that]], rule safe_bind0 [OF ld])
      (use that in \<open>simp_all add: safe_return\<close>)
  have clo: "safe 0 (\<lambda>s. rbind (ld s) (\<lambda>(f, s). rbind (ld s) (\<lambda>(b, s). rbind (ld s) (\<lambda>(e, s).
      Inr (plain (CloS f b e), s))))) s"
    by (rule safe_bind0 [OF ld [OF s]], rule safe_bind0 [OF ld], use s in simp_all,
        rule safe_bind0 [OF ld], use s in \<open>simp_all add: safe_return\<close>)
  have rep: "safe 0 (\<lambda>s. rbind (repeat_m n f s) (\<lambda>(xs, s). Inr (h xs, s))) s"
    if "\<And>s. held s \<Longrightarrow> length (rest (src s)) \<le> N \<Longrightarrow> safe 0 f s" for n h and f :: "('s, 'x) load_fn"
    by (rule safe_bind0 [OF safe_repeat [OF that s]]) (simp_all add: safe_return)
  have scr: "safe 0 (\<lambda>s. rbind (fetch_scratch R fetch len s) (\<lambda>(n, s).
      if P n then Inl (RError ZeroName) else Inr (h n, s))) s" for len P h
    by (rule safe_bind0 [OF safe_scratch [OF s(1)]]) (simp add: safe_def)
  show ?thesis
    unfolding decode_one_def [abs_def] Let_def
    by (intro safe_if safe_alloc safe_return safe_vec rep ld chr pair clo scr
          scr [of _ "\<lambda>_. False", simplified] safe_error s)
      simp_all
qed

lemma load_safe:
  "held s \<Longrightarrow> length (rest (src s)) < 8 * fuel \<Longrightarrow> safe 8 (sfs_load R fetch fuel) s"
proof (induction fuel arbitrary: s)
  case 0
  then show ?case by simp
next
  case (Suc fuel)
  let ?ld = "sfs_load R fetch fuel" and ?N = "length (rest (src s)) - 8"
  have ld: "safe 0 ?ld s'" if "held s'" "length (rest (src s')) + 8 \<le> length (rest (src s))" for s'
    using Suc.IH [OF that(1)] Suc.prems(2) that(2) safe_mono by force
  have dec: "safe 0 (decode_one R fetch ?ld hdr) s'"
    if "held s'" "length (rest (src s')) + 8 \<le> length (rest (src s))" for s' hdr
    by (rule decode_safe [of ?N]) (use ld that in auto)
  have attr: "safe 0 (load_attr R fetch ?ld hdr) s'"
    if s': "held s'" "length (rest (src s')) + 8 \<le> length (rest (src s))" for s' hdr
    unfolding load_attr_def [abs_def]
    by (intro safe_if safe_return safe_bind0 [OF dec] safe_bind0 [OF safe_mono [OF safe_hdr]])
      (use s' in auto)
  have fin: "safe 0 (finish_load attr res) s'" if "held s'" for attr res s'
  proof (cases res)
    case R_NilValue
    then show ?thesis using that by (simp add: safe_def finish_load_def)
  next
    case (Sxp a ob b)
    then show ?thesis using that by (simp add: safe_def finish_load_def)
  qed
  have "safe (8 + 0) (\<lambda>s. rbind (fetch_hdr fetch s) (\<lambda>(hdr, s).
      rbind (load_attr R fetch ?ld hdr s) (\<lambda>(p, s).
      rbind (decode_one R fetch ?ld (snd p) s) (\<lambda>(res, s). finish_load (fst p) res s)))) s"
    by (rule safe_bind [OF safe_hdr [OF Suc.prems(1)]], rule safe_bind0 [OF attr], assumption,
        assumption, rule safe_bind0 [OF dec], assumption, linarith, rule fin)
  then show ?case
    by (simp add: safe_def split_def)
qed

text \<open>Loading from a strict source with enough fuel ends in a value or an error of its own,
  never for lack of fuel and never by reading past the scratch buffer.\<close>

lemma load_total:
  assumes "ok r" "scratch_ok d" "length (rest r) < 8 * fuel"
  shows "sfs_load R fetch fuel \<lparr>dec_buf = d, src = r\<rparr> \<notin> {Inl OutOfFuel, Inl (Undefined OutOfBounds)}"
    and "sfs_load R fetch fuel \<lparr>dec_buf = d, src = r\<rparr> = Inr (x, s') \<Longrightarrow> scratch_ok (dec_buf s')"
  using load_safe [of "\<lparr>dec_buf = d, src = r\<rparr>" fuel R] assms by (auto simp: safe_def held_def)

end

declare sfs_load.simps(2) [simp del]

end
