(* ===== verification/SfsType.thy ===== *)
theory SfsType
  imports SfsLoad
begin

text \<open>
  What the loader can return. Whatever the bytes are, a value that \<open>sfs_load\<close> returns is well
  formed: attributes and the tails of cells are pairlists, and every length fits the 56 bits of
  a header, so the value can be stored again.
\<close>

text \<open>The decoder makes no byte code, and its strings come from the scratch buffer.\<close>

fun decoded :: "rbody \<Rightarrow> bool" where
  "decoded (BcodeS x) = False"
| "decoded (CharS c) = (strlen (R_CHAR c) < DEC_BUF_SIZE)"
| "decoded b = True"

fun typed :: "sexp \<Rightarrow> bool" where
  "typed R_NilValue = True"
| "typed (Sxp a ob b) = (wf_sexp (Sxp a ob b) \<and> decoded b)"

lemma typed_wf: "typed x \<Longrightarrow> wf_sexp x \<and> wf_sexp (closure_body x)"
  by (cases x rule: closure_body.cases) auto

definition typed_pair :: "sexp \<times> sexp \<Rightarrow> bool" where
  "typed_pair p \<longleftrightarrow> typed (fst p) \<and> typed (snd p)"

lemma wf_elts_all: "wf_elts xs = list_all wf_sexp xs"
  by (induction xs) simp_all

text \<open>The pairlist made of the pairs that were read.\<close>

lemma mk_cells_len [simp]: "pairlen (mk_cells ty ps) = Some (length ps)"
  by (induction ps) simp_all

lemma mk_cells_cells: "list_all typed_pair ps \<Longrightarrow> wf_cells (mk_cells ty ps)"
  by (induction ps) (auto simp: typed_pair_def dest: typed_wf)

lemma mk_cells_typed: "list_all typed_pair ps \<Longrightarrow> len_ok (length ps) \<Longrightarrow> typed (mk_cells ty ps)"
  by (cases ps) (auto simp: mk_cells_cells typed_pair_def dest: typed_wf)

lemma set_attrib_typed:
  assumes "set_attrib a x = Inr y" "typed x" "pairlen a = Some l" "len_ok l" "wf_cells a"
  shows "typed y"
  using assms by (cases x) (auto split: if_splits)

lemma len_bits: "len_ok (unat (drop_bit 8 w :: 64 word))"
proof -
  have "unat w div 256 < 2 ^ 56"
    using unsigned_less [of w, where ?'a = nat] by (simp add: less_mult_imp_div_less)
  then show ?thesis
    by (simp add: len_ok_def unat_drop_bit_eq drop_bit_eq_div unat_div_distrib)
qed

lemma length_chunks [simp]: "length (chunks_of w n bs) = n"
  by (induction n arbitrary: bs) simp_all

context strict_fetch_api
begin

text \<open>\<open>yields P f\<close>: from a good state the step \<open>f\<close> returns only values with \<open>P\<close>, in good states.\<close>

definition yields :: "('a \<Rightarrow> bool) \<Rightarrow> ('s, 'a) load_fn \<Rightarrow> bool" where
  "yields P f \<longleftrightarrow> (\<forall>s v s'. held s \<longrightarrow> f s = Inr (v, s') \<longrightarrow> P v \<and> held s')"

lemma yieldsD: "yields P f \<Longrightarrow> held s \<Longrightarrow> f s = Inr (v, s') \<Longrightarrow> P v \<and> held s'"
  by (simp add: yields_def)

lemma yields_return: "P v \<Longrightarrow> yields P (\<lambda>s. Inr (v, s))"
  by (simp add: yields_def)

lemma yields_error: "yields P (\<lambda>s. Inl e)"
  by (simp add: yields_def)

lemma yields_bind:
  assumes "yields P f" "\<And>v. P v \<Longrightarrow> yields Q (g v)"
  shows "yields Q (\<lambda>s. rbind (f s) (\<lambda>(v, s). g v s))"
  unfolding yields_def
proof (intro allI impI)
  fix s w s2
  assume s: "held s" "rbind (f s) (\<lambda>(v, s). g v s) = Inr (w, s2)"
  then obtain v s1 where v: "f s = Inr (v, s1)" "g v s1 = Inr (w, s2)"
    by (auto simp: rbind_iffs)
  with yieldsD [OF assms(1) s(1)] yieldsD [OF assms(2)] show "Q w \<and> held s2"
    by blast
qed

lemma yields_if: "(c \<Longrightarrow> yields P f) \<Longrightarrow> (\<not> c \<Longrightarrow> yields P g) \<Longrightarrow> yields P (\<lambda>s. if c then f s else g s)"
  by (cases c) simp_all

lemma yields_alloc: "yields P f \<Longrightarrow> yields P (\<lambda>s. rbind (allocVector R ts len) (\<lambda>_. f s))"
  by (simp add: yields_def allocVector_def)

lemma yields_fetch: "yields (\<lambda>bs. length bs = unat n) (fetch_ld fetch n)"
  using safe_fetch(2) safe_fetch(1) by (fastforce simp: yields_def safe_def)

lemma yields_any_fetch: "yields (\<lambda>_. True) (fetch_ld fetch n)"
  using yields_fetch [of n] by (simp add: yields_def)

lemma yields_hdr: "yields (\<lambda>_. True) (fetch_hdr fetch)"
  unfolding fetch_hdr_def [abs_def] by (rule yields_bind [OF yields_any_fetch yields_return]) simp

lemma yields_scratch: "yields (\<lambda>c. length c < DEC_BUF_SIZE) (fetch_scratch R fetch len)"
proof (cases "unat len < DEC_BUF_SIZE")
  case True
  have short: "length (cstr d) < length d" if "nul \<in> set d" for d
    using that by (induction d) (auto simp: cstr_def)
  have "yields (\<lambda>c. length c < DEC_BUF_SIZE) (\<lambda>s. rbind (fetch_ld fetch len s) (\<lambda>(bs, s).
      let buf = overwrite 0 bs (dec_buf s) in
      if nul \<in> set buf then Inr (cstr buf, s\<lparr>dec_buf := buf\<rparr>) else Inl (Undefined OutOfBounds)))"
    by (rule yields_bind [OF yields_fetch])
      (use True scratch_ok_overwrite short in \<open>fastforce simp: yields_def held_def Let_def scratch_ok_def\<close>)
  then show ?thesis
    using True by (simp add: fetch_scratch_def [abs_def])
qed (auto simp: fetch_scratch_def [abs_def] yields_def)

lemma yields_repeat: "yields P f \<Longrightarrow> yields (\<lambda>xs. length xs = n \<and> list_all P xs) (repeat_m n f)"
proof (induction n)
  case 0
  then show ?case by (simp add: yields_def)
next
  case (Suc n)
  show ?case
    by (simp only: repeat_m.simps, rule yields_bind [OF Suc.prems], rule yields_bind [OF Suc.IH [OF Suc.prems]])
      (simp add: yields_return)
qed

lemma yields_vec:
  assumes "\<And>bs. wf_body (mk (unat len) bs) \<and> decoded (mk (unat len) bs)"
  shows "yields typed (decode_vec R fetch ts el mk len)"
  unfolding decode_vec_def [abs_def]
  by (rule yields_alloc, rule yields_bind [OF yields_any_fetch]) (simp add: assms yields_return)

lemma yields_chr: "yields typed ld \<Longrightarrow> yields (\<lambda>c. strlen (R_CHAR c) < DEC_BUF_SIZE) (load_chr ld)"
  unfolding load_chr_def [abs_def]
  by (rule yields_bind) (auto simp: yields_def split: sexp.splits rbody.splits)

lemma yields_pair: "yields typed ld \<Longrightarrow> yields typed_pair (load_pair ld)"
  unfolding load_pair_def [abs_def]
  by (rule yields_bind, assumption, rule yields_bind, assumption) (simp add: typed_pair_def yields_return)

lemma yields_cells:
  assumes "yields typed ld" "len_ok n"
  shows "yields (\<lambda>x. \<exists>ps. x = mk_cells ty ps \<and> list_all typed_pair ps \<and> len_ok (length ps))
    (\<lambda>s. rbind (repeat_m n (load_pair ld) s) (\<lambda>(ps, s). Inr (mk_cells ty ps, s)))"
  by (rule yields_bind [OF yields_repeat [OF yields_pair [OF assms(1)]]]) (use assms(2) in \<open>auto intro: yields_return\<close>)

lemma yields_mono: "yields P f \<Longrightarrow> (\<And>v. P v \<Longrightarrow> Q v) \<Longrightarrow> yields Q f"
  by (auto simp: yields_def)

lemma strlen_le: "strlen s \<le> length s"
  by (simp add: strlen_def cstr_def length_takeWhile_le)

lemma scratch_len_ok: "n < DEC_BUF_SIZE \<Longrightarrow> len_ok (Suc n)"
  by (simp add: len_ok_def DEC_BUF_SIZE_def)

lemma decode_typed:
  assumes ld: "yields typed ld"
  shows "yields typed (decode_one R fetch ld hdr)"
proof -
  let ?n = "unat (drop_bit 8 hdr)"
  note n = len_bits [of hdr]
  have vec: "yields typed (\<lambda>s. rbind (repeat_m ?n ld s) (\<lambda>(xs, s). Inr (plain (VecV xs), s)))"
    by (rule yields_bind [OF yields_repeat [OF ld]], rule yields_return)
      (use n in \<open>auto simp: wf_elts_all list_all_iff dest: typed_wf\<close>)
  have str: "yields typed (\<lambda>s. rbind (repeat_m ?n (load_chr ld) s) (\<lambda>(xs, s). Inr (plain (StrV xs), s)))"
    by (rule yields_bind [OF yields_repeat [OF yields_chr [OF ld]]], rule yields_return)
      (use n scratch_len_ok in \<open>auto simp: list_all_iff\<close>)
  have sym: "yields typed (\<lambda>s. rbind (fetch_scratch R fetch len s) (\<lambda>(name, s).
      if name = [] then Inl (RError ZeroName) else Inr (plain (SymS name), s)))" for len
  proof (rule yields_bind [OF yields_scratch], intro yields_if yields_error yields_return)
    fix c :: string assume "length c < DEC_BUF_SIZE"
    then have "strlen c < DEC_BUF_SIZE"
      using strlen_le [of c] by linarith
    then show "typed (plain (SymS c))"
      using scratch_len_ok by simp
  qed
  have chr: "yields typed (\<lambda>s. rbind (fetch_scratch R fetch len s) (\<lambda>(c, s). Inr (plain (CharS (MkChar c)), s)))" for len
  proof (rule yields_bind [OF yields_scratch], rule yields_return)
    fix c :: string assume "length c < DEC_BUF_SIZE"
    then show "typed (plain (CharS (MkChar c)))"
      using strlen_le [of c] by simp
  qed
  have clo: "yields typed (\<lambda>s. rbind (ld s) (\<lambda>(f, s). rbind (ld s) (\<lambda>(b, s). rbind (ld s) (\<lambda>(e, s).
      Inr (plain (CloS f b e), s)))))"
    by (rule yields_bind [OF ld], rule yields_bind [OF ld], rule yields_bind [OF ld], rule yields_return)
      (auto dest: typed_wf)
  have cells: "yields typed (\<lambda>s. rbind (repeat_m ?n (load_pair ld) s) (\<lambda>(ps, s). Inr (mk_cells ty ps, s)))" for ty
    by (rule yields_mono [OF yields_cells [OF ld n]]) (auto intro: mk_cells_typed)
  have atoms: "wf_body (IntV (ints_of ?n bs))" "wf_body (LglV (ints_of ?n bs))" "wf_body (RealV (reals_of ?n bs))"
      "wf_body (CplxV (cplx_of ?n bs))" for bs
    using n by (simp_all add: ints_of_def reals_of_def cplx_of_def)
  show ?thesis
    unfolding decode_one_def [abs_def] Let_def
    by (intro yields_if yields_alloc yields_vec vec str sym chr clo cells yields_error)
      (simp_all only: atoms decoded.simps, simp_all add: yields_def len_ok_def strlen_def cstr_def)
qed

lemma load_typed: "yields typed (sfs_load R fetch fuel)"
proof (induction fuel)
  case 0
  then show ?case by (simp add: yields_def)
next
  case (Suc fuel)
  let ?ld = "sfs_load R fetch fuel"
  let ?attr = "\<lambda>a. a = R_NilValue \<or> (\<exists>ps. a = mk_cells ListCell ps \<and> list_all typed_pair ps \<and> len_ok (length ps))"
  have attr: "yields (\<lambda>p. ?attr (fst p)) (load_attr R fetch ?ld hdr)" for hdr
  proof (cases "hdr AND 255 = of_nat ATTRSXP")
    case True
    then have "unat (hdr AND 255) = 255"
      by (simp add: ATTRSXP_def)
    then have "decode_one R fetch ?ld hdr = (\<lambda>s. rbind (repeat_m (unat (drop_bit 8 hdr)) (load_pair ?ld) s)
        (\<lambda>(ps, s). Inr (mk_cells ListCell ps, s)))"
      by (simp add: decode_one_def [abs_def] ATTRSXP_def Let_def)
    then have dec: "yields ?attr (decode_one R fetch ?ld hdr)"
      using yields_mono [OF yields_cells [where ty = ListCell, OF Suc.IH len_bits [of hdr]], of ?attr] by auto
    have "yields (\<lambda>p. ?attr (fst p)) (\<lambda>s. rbind (decode_one R fetch ?ld hdr s) (\<lambda>(attr, s).
        rbind (fetch_hdr fetch s) (\<lambda>(hdr, s). Inr ((attr, hdr), s))))"
      by (rule yields_bind [OF dec], rule yields_bind [OF yields_hdr], rule yields_return) simp
    with True show ?thesis
      by (simp add: load_attr_def [abs_def])
  next
    case False
    then show ?thesis
      by (simp add: load_attr_def [abs_def] yields_return)
  qed
  have fin: "yields typed (finish_load a x)" if "?attr a" "typed x" for a x
  proof (cases "a = R_NilValue")
    case True
    with that(2) show ?thesis
      by (simp add: finish_load_def [abs_def] yields_return)
  next
    case False
    with that(1) obtain ps where ps: "a = mk_cells ListCell ps" "list_all typed_pair ps" "len_ok (length ps)"
      by blast
    have "typed y" if "set_attrib a x = Inr y" for y
      using set_attrib_typed [OF that \<open>typed x\<close>] ps mk_cells_cells [OF ps(2)] by simp
    with False show ?thesis
      by (auto simp: finish_load_def yields_def rbind_iffs)
  qed
  have "yields typed (\<lambda>s. rbind (fetch_hdr fetch s) (\<lambda>(hdr, s).
      rbind (load_attr R fetch ?ld hdr s) (\<lambda>(p, s).
      rbind (decode_one R fetch ?ld (snd p) s) (\<lambda>(res, s). finish_load (fst p) res s))))"
    by (rule yields_bind [OF yields_hdr], rule yields_bind [OF attr], rule yields_bind [OF decode_typed [OF Suc.IH]])
      (use fin in blast)
  then show ?case
    by (simp add: sfs_load.simps(2) [abs_def] split_def)
qed

end

end
