(* ===== verification/MemSfs.thy ===== *)
theory MemSfs
  imports SfsType
begin

text \<open>
  Serialisation into and out of memory: src/mem\_store.c (growing buffers and their
  collapse into one raw vector), src/mem\_restore.c and the same fetch function of
  src/robj.c, and the counting back end src/stat\_store.c.
\<close>

subsection \<open>mem\_store.c: a chain of buffers\<close>

text \<open>A buffer holds its written bytes (their number is its \<open>len\<close>) and its capacity. The
  store state is the chain from \<open>root\<close> to \<open>tail\<close>: the buffers before the tail, then the tail.
  The position counter serves the debugging output of \<open>verb\<close>, which is the subject of the
  theory MemVerb.\<close>

record lbuf =
  ldata :: string
  cap :: nat

record mem_store =
  before :: "lbuf list"
  tail :: lbuf
  cptr :: "64 word"

definition DEF_BUF_SIZE :: nat where "DEF_BUF_SIZE = 1024 * 1024 * 64"

definition alloc_buf :: "nat \<Rightarrow> lbuf" where
  "alloc_buf n = \<lparr>ldata = [], cap = n\<rparr>"

definition buf_add :: "mem_store \<Rightarrow> string \<Rightarrow> mem_store" where
  "buf_add st what =
     (let t = tail st; len = length what; in0 = cap t - length (ldata t) in
      if in0 < len then
        (let t' = alloc_buf (if DEF_BUF_SIZE < len then len + DEF_BUF_SIZE else DEF_BUF_SIZE) in
         st\<lparr>before := before st @ [t\<lparr>ldata := ldata t @ take in0 what\<rparr>],
            tail := t'\<lparr>ldata := drop in0 what\<rparr>\<rparr>)
      else st\<lparr>tail := t\<lparr>ldata := ldata t @ what\<rparr>\<rparr>)"

definition add_buf :: "mem_store store_fn" where
  "add_buf st ts el len buf =
     (let st = buf_add st (bytes64 (hdr_word ts len));
          st = st\<lparr>cptr := cptr st + 8\<rparr>; len = len * of_nat el in
      case buf of None \<Rightarrow> Inr st
      | Some b \<Rightarrow> rbind (read_mem (unat len) b) (\<lambda>bs.
          Inr ((buf_add st bs)\<lparr>cptr := cptr st + len\<rparr>)))"

text \<open>\<open>collapse_buf\<close> allocates the total and copies each buffer to \<open>dst\<close>; \<open>dst\<close> is not
  advanced in the loop.\<close>

definition collapse_buf :: "lbuf list \<Rightarrow> cell list" where
  "collapse_buf bufs =
     foldl (\<lambda>res c. overwrite 0 (map Some (ldata c)) res)
       (uninit (sum_list (map (\<lambda>c. length (ldata c)) bufs))) bufs"

definition init_mem_store :: mem_store where
  "init_mem_store = \<lparr>before = [], tail = alloc_buf DEF_BUF_SIZE, cptr = 0\<rparr>"

definition C_mem_store :: "sexp \<Rightarrow> fault + cell list" where
  "C_mem_store x = rbind (sfs_store add_buf init_mem_store x)
     (\<lambda>st. Inr (collapse_buf (before st @ [tail st])))"

subsection \<open>The chain keeps the stream\<close>

definition mem_bytes :: "mem_store \<Rightarrow> string" where
  "mem_bytes st = concat (map ldata (before st)) @ ldata (tail st)"

lemma buf_add_bytes: "mem_bytes (buf_add st what) = mem_bytes st @ what"
  by (simp add: buf_add_def mem_bytes_def Let_def alloc_buf_def)

lemma buf_add_cptr [simp]: "cptr (buf_add st what) = cptr st"
  by (simp add: buf_add_def Let_def)

text \<open>Every buffer is within its capacity; while there is one buffer it is the initial one,
  and once there are more, all are non-empty and more than the initial capacity is stored.\<close>

definition chain_ok :: "mem_store \<Rightarrow> bool" where
  "chain_ok st \<longleftrightarrow>
     list_all (\<lambda>b. length (ldata b) \<le> cap b) (before st @ [tail st]) \<and>
     (if before st = [] then cap (tail st) = DEF_BUF_SIZE
      else list_all (\<lambda>b. ldata b \<noteq> []) (before st @ [tail st]) \<and>
           DEF_BUF_SIZE < length (mem_bytes st))"

lemma buf_add_chain:
  assumes "chain_ok st"
  shows "chain_ok (buf_add st what)"
proof (cases "cap (tail st) - length (ldata (tail st)) < length what")
  case False
  then show ?thesis
    using assms by (auto simp: chain_ok_def buf_add_def mem_bytes_def Let_def)
next
  case True
  have "0 < DEF_BUF_SIZE"
    by (simp add: DEF_BUF_SIZE_def)
  with True assms show ?thesis
    by (auto simp: chain_ok_def buf_add_def mem_bytes_def Let_def alloc_buf_def split: if_splits)
qed

definition mem_ok :: "mem_store \<Rightarrow> bool" where
  "mem_ok st \<longleftrightarrow> chain_ok st \<and> cptr st = of_nat (length (mem_bytes st))"

lemma chain_ok_cptr [simp]: "chain_ok (st\<lparr>cptr := c\<rparr>) = chain_ok st"
  by (simp add: chain_ok_def mem_bytes_def)

lemma mem_bytes_cptr [simp]: "mem_bytes (st\<lparr>cptr := c\<rparr>) = mem_bytes st"
  by (simp add: mem_bytes_def)

interpretation mem: store_api add_buf mem_bytes mem_ok
proof
  fix st ts el len buf
  assume st: "mem_ok st" and fr: "frame_ok (ts, el, len, buf)"
  show "\<exists>st'. add_buf st ts el len buf = Inr st' \<and> mem_ok st' \<and>
      mem_bytes st' = mem_bytes st @ frame_bytes (ts, el, len, buf)"
  proof (cases buf)
    case None
    then show ?thesis
      using st by (simp add: add_buf_def mem_ok_def buf_add_chain buf_add_bytes)
  next
    case (Some b)
    with fr frame_len [of ts el len b] have l: "unat (len * of_nat el) = length b"
      by simp
    then have "of_nat (length b) = len * of_nat el"
      by (metis of_nat_unat ucast_id)
    with st l Some show ?thesis
      by (simp add: add_buf_def mem_ok_def buf_add_chain buf_add_bytes read_mem_def Let_def)
  qed
qed

lemma mem_ok_init: "mem_ok init_mem_store" "mem_bytes init_mem_store = []"
  by (simp_all add: mem_ok_def chain_ok_def mem_bytes_def init_mem_store_def alloc_buf_def)

lemma store_add_buf:
  "wf_sexp x \<Longrightarrow> \<exists>st. sfs_store add_buf init_mem_store x = Inr st \<and> mem_ok st \<and> mem_bytes st = wire x"
  using mem.store_wire [OF mem_ok_init(1)] mem_ok_init(2) by simp

subsection \<open>Collapsing\<close>

lemma overwrite_nth_above:
  "off + length bs \<le> i \<Longrightarrow> i < length mem \<Longrightarrow> overwrite off bs mem ! i = mem ! i"
  by (auto simp: overwrite_def nth_append min_def)

lemma foldl_overwrite_above:
  "(\<forall>b\<in>set bufs. length (ldata b) \<le> i) \<Longrightarrow> i < length res \<Longrightarrow>
    foldl (\<lambda>res c. overwrite 0 (map Some (ldata c)) res) res bufs ! i = res ! i"
  by (induction bufs arbitrary: res) (simp_all add: overwrite_nth_above)

lemma collapse_single: "collapse_buf [b] = map Some (ldata b)"
  by (simp add: collapse_buf_def overwrite_0)

text \<open>With several non-empty buffers every copy is shorter than the result, so its last cell
  is never written.\<close>

lemma collapse_last_unwritten:
  assumes n: "n = sum_list (map (\<lambda>c. length (ldata c)) bufs)"
    and two: "bufs = b # bs" "bs \<noteq> []" "list_all (\<lambda>b. ldata b \<noteq> []) bufs"
  shows "collapse_buf bufs ! (n - 1) = None"
proof -
  have pos: "c \<in> set bufs \<Longrightarrow> 0 < length (ldata c)" for c
    using two(3) by (auto simp: list_all_iff)
  have less: "length (ldata c) \<le> n - 1" if c: "c \<in> set bufs" for c
  proof -
    obtain us vs where split: "bufs = us @ c # vs"
      using c by (auto simp: in_set_conv_decomp)
    then obtain d where d: "d \<in> set (us @ vs)"
      using two(1,2) by (cases us; cases vs) auto
    then have "length (ldata d) \<le> sum_list (map (\<lambda>c. length (ldata c)) (us @ vs))"
      by (intro member_le_sum_list) auto
    moreover have "0 < length (ldata d)"
      using d split by (intro pos) auto
    moreover have "n = length (ldata c) + sum_list (map (\<lambda>c. length (ldata c)) (us @ vs))"
      using n split by simp
    ultimately show ?thesis
      by linarith
  qed
  have "0 < length (ldata b)" "length (ldata b) \<le> n - 1"
    using less [of b] pos [of b] two(1) by simp_all
  then have "0 < n"
    by linarith
  then show ?thesis
    unfolding collapse_buf_def n [symmetric]
    by (subst foldl_overwrite_above) (use less in \<open>auto simp: uninit_def\<close>)
qed

lemma mem_store_small:
  "wf_sexp x \<Longrightarrow> length (wire x) \<le> DEF_BUF_SIZE \<Longrightarrow> C_mem_store x = Inr (map Some (wire x))"
proof -
  assume x: "wf_sexp x" and len: "length (wire x) \<le> DEF_BUF_SIZE"
  obtain st where st: "sfs_store add_buf init_mem_store x = Inr st" "mem_ok st" "mem_bytes st = wire x"
    using store_add_buf [OF x] by blast
  have "before st = []"
    using st(2,3) len by (auto simp: mem_ok_def chain_ok_def split: if_splits)
  with st show ?thesis
    by (simp add: C_mem_store_def mem_bytes_def collapse_single)
qed

lemma mem_store_large:
  assumes "wf_sexp x" "DEF_BUF_SIZE < length (wire x)"
  shows "\<exists>cs. C_mem_store x = Inr cs \<and> cs ! (length (wire x) - 1) = None"
proof -
  obtain st where st: "sfs_store add_buf init_mem_store x = Inr st" "mem_ok st" "mem_bytes st = wire x"
    using store_add_buf [OF assms(1)] by blast
  have "before st \<noteq> []"
    using st(2,3) assms(2) by (auto simp: mem_ok_def chain_ok_def mem_bytes_def)
  moreover have "length (wire x) = sum_list (map (\<lambda>c. length (ldata c)) (before st @ [tail st]))"
    using st(3) by (simp add: mem_bytes_def length_concat comp_def flip: st(3))
  ultimately have "collapse_buf (before st @ [tail st]) ! (length (wire x) - 1) = None"
    using st(2) by (intro collapse_last_unwritten [where b = "hd (before st @ [tail st])"
          and bs = "tl (before st @ [tail st])"]) (auto simp: mem_ok_def chain_ok_def)
  with st(1) show ?thesis
    by (simp add: C_mem_store_def)
qed

subsection \<open>mem\_restore.c: reading from a raw vector\<close>

text \<open>The state of the fetch API is what is left of the vector: \<open>fbuf\<close> and \<open>flen\<close> in one.\<close>

definition fetch_buf :: "string fetch_fn" where
  "fetch_buf fbuf len =
     (if length fbuf < unat len then Inl (RError ShortRead)
      else Inr (take (unat len) fbuf, drop (unat len) fbuf))"

text \<open>The scratch buffer \<open>d\<close> is static in src/sfs.c: it is passed in and out. The fuel is one
  more than the number of headers the input can hold.\<close>

definition C_mem_restore :: "renv \<Rightarrow> string \<Rightarrow> string \<Rightarrow> fault + sexp \<times> string" where
  "C_mem_restore R d raw =
     rbind (sfs_load R fetch_buf (length raw div 8 + 1) \<lparr>dec_buf = d, src = raw\<rparr>)
       (\<lambda>(x, s). Inr (x, dec_buf s))"

interpretation memf: strict_fetch_api fetch_buf "\<lambda>fbuf. fbuf" "\<lambda>_. True"
  by unfold_locales (auto simp: fetch_buf_def)

lemma mem_restore_wire:
  assumes "wf_sexp x" "storable R x" "length d = DEC_BUF_SIZE"
  shows "\<exists>d'. C_mem_restore R d (wire x) = Inr (norm x, d') \<and> length d' = DEC_BUF_SIZE"
  using memf.load_wire [where r = "wire x" and after = "[]" and d = d and x = x
      and fuel = "length (wire x) div 8 + 1" and R = R] assms depth_wire [of x]
  by (auto simp: C_mem_restore_def)

lemma mem_restore_total:
  assumes "scratch_ok d"
  shows "C_mem_restore R d raw \<notin> {Inl OutOfFuel, Inl (Undefined OutOfBounds)}"
    and "C_mem_restore R d raw = Inr (x, d') \<Longrightarrow> scratch_ok d'"
  using memf.load_total [where d = d and r = raw and fuel = "length raw div 8 + 1" and R = R] assms
  by (auto simp: C_mem_restore_def rbind_iffs)

lemma restored_typed:
  assumes "scratch_ok d" "C_mem_restore R d raw = Inr (x, d')"
  shows "wf_sexp x"
proof -
  obtain s' where "sfs_load R fetch_buf (length raw div 8 + 1) \<lparr>dec_buf = d, src = raw\<rparr> = Inr (x, s')"
    using assms(2) by (auto simp: C_mem_restore_def rbind_iffs)
  moreover have "memf.held \<lparr>dec_buf = d, src = raw\<rparr>"
    using assms(1) by (simp add: memf.held_def)
  ultimately have "typed x"
    using memf.yieldsD [OF memf.load_typed] by blast
  then show ?thesis
    using typed_wf by blast
qed

subsection \<open>stat\_store.c: counting\<close>

record stat_store =
  cs :: "nat \<Rightarrow> 64 word"
  ls :: "nat \<Rightarrow> 64 word"

definition stat_add :: "stat_store store_fn" where
  "stat_add st ts el len buf =
     (let len = len * of_nat el in
      Inr (st\<lparr>cs := (cs st)(ts := cs st ts + 1), ls := (ls st)(ts := ls st ts + len)\<rparr>))"

text \<open>The counters are then written to a 256 by 2 matrix of doubles; that conversion is left
  out and the two counter columns are the result.\<close>

definition C_stat_store :: "sexp \<Rightarrow> fault + stat_store" where
  "C_stat_store x = sfs_store stat_add \<lparr>cs = (\<lambda>_. 0), ls = (\<lambda>_. 0)\<rparr> x"

definition stat_total :: "stat_store \<Rightarrow> 64 word" where
  "stat_total st = (\<Sum>ts<256. 8 * cs st ts + ls st ts)"

lemma stat_total_add:
  "ts < 256 \<Longrightarrow> stat_add st ts el len buf = Inr st' \<Longrightarrow>
    stat_total st' = stat_total st + (8 + len * of_nat el)"
proof -
  assume ts: "ts < 256" and st': "stat_add st ts el len buf = Inr st'"
  have "stat_total st' = (\<Sum>t<256. 8 * cs st t + ls st t + (if t = ts then 8 + len * of_nat el else 0))"
    using st' unfolding stat_total_def
    by (intro sum.cong) (auto simp: stat_add_def Let_def algebra_simps)
  also have "\<dots> = stat_total st + (8 + len * of_nat el)"
    using ts by (simp add: sum.distrib stat_total_def)
  finally show ?thesis .
qed

lemma frame_bytes_len:
  "frame_ok (ts, el, len, buf) \<Longrightarrow> of_nat (length (frame_bytes (ts, el, len, buf))) = (8 + len * of_nat el :: 64 word)"
proof (cases buf)
  case (Some b)
  assume "frame_ok (ts, el, len, buf)"
  with Some frame_len [of ts el len b] have "of_nat (length b) = len * of_nat el"
    by (metis of_nat_unat ucast_id)
  with Some show ?thesis by simp
qed simp

lemma stat_frames:
  "list_all frame_ok fs \<Longrightarrow> \<exists>st'. foldr_m (emit_frame stat_add) st fs = Inr st' \<and>
    stat_total st' = stat_total st + of_nat (length (concat (map frame_bytes fs)))"
proof (induction fs arbitrary: st)
  case (Cons fr fs)
  obtain ts el len buf where fr: "fr = (ts, el, len, buf)"
    by (cases fr)
  obtain st1 where st1: "stat_add st ts el len buf = Inr st1"
    by (simp add: stat_add_def Let_def)
  obtain st2 where st2: "foldr_m (emit_frame stat_add) st1 fs = Inr st2"
      "stat_total st2 = stat_total st1 + of_nat (length (concat (map frame_bytes fs)))"
    using Cons.IH [of st1] Cons.prems by auto
  have "stat_total st1 = stat_total st + of_nat (length (frame_bytes fr))"
    using Cons.prems stat_total_add [OF _ st1] frame_bytes_len [of ts el len buf] by (simp add: fr)
  with st1 st2 show ?case
    by (simp add: fr add.assoc del: frame_bytes.simps)
qed simp

subsection \<open>Streams that do not come back\<close>

lemma hdr_type_eq:
  assumes "hdr_word ts len AND 255 = of_nat ATTRSXP" "ts < 256"
  shows "ts = ATTRSXP"
proof -
  have "unat (hdr_word ts len AND 255) = unat (of_nat ATTRSXP :: 64 word)"
    using assms(1) by (rule arg_cong)
  then show ?thesis
    using hdr_word_type [OF assms(2)] by (simp add: ATTRSXP_def)
qed

lemma load_hdr:
  "fetch_hdr fetch_buf \<lparr>dec_buf = d, src = bytes64 h @ rest\<rparr> = Inr (h, \<lparr>dec_buf = d, src = rest\<rparr>)"
  by (simp add: fetch_hdr_def fetch_ld_def fetch_buf_def)

text \<open>A stream that starts with a plain header is decoded by \<open>decode_one\<close> right away.\<close>

lemma restore_step:
  assumes "ts < 256" "ts \<noteq> ATTRSXP"
  shows "C_mem_restore R d (bytes64 (hdr_word ts len) @ rest) =
    rbind (decode_one R fetch_buf (sfs_load R fetch_buf ((8 + length rest) div 8)) (hdr_word ts len)
      \<lparr>dec_buf = d, src = rest\<rparr>) (\<lambda>(x, s). Inr (x, dec_buf s))"
proof -
  have "load_attr R fetch_buf ld (hdr_word ts len) s = Inr ((R_NilValue, hdr_word ts len), s)" for ld s
    using hdr_type_eq assms by (auto simp: load_attr_def)
  then show ?thesis
    by (simp add: C_mem_restore_def sfs_load.simps(2) load_hdr rbind_assoc finish_load_def case_prod_beta)
qed

lemma wire_raw: "wire (plain (RawV bs)) = bytes64 (hdr_word RAWSXP (of_nat (length bs))) @ bs"
  by (simp add: wire_def)

lemma raw_unimplemented: "C_mem_restore R d (wire (plain (RawV bs))) = Inl (RError (Unimplemented RAWSXP))"
  unfolding wire_raw
  by (subst restore_step) (simp_all add: ATTRSXP_def decode_one_def hdr_word_type Let_def)

lemma decode_charsxp:
  "unat len < 2 ^ 56 \<Longrightarrow> decode_one R fetch ld (hdr_word CHARSXP len) s =
    rbind (fetch_scratch R fetch len s) (\<lambda>(c, s). Inr (plain (CharS (MkChar c)), s))"
  by (simp add: decode_one_def hdr_word_type hdr_word_len Let_def ATTRSXP_def)

lemma stale_string:
  assumes n: "length s < DEC_BUF_SIZE" and d: "length d = DEC_BUF_SIZE" "nul \<in> set (drop (length s) d)"
    and s: "nul \<notin> set s"
  shows "C_mem_restore R d (bytes64 (hdr_word CHARSXP (of_nat (length s))) @ s) =
    Inr (plain (CharS (MkChar (s @ cstr (drop (length s) d)))), s @ drop (length s) d)"
proof -
  have l: "unat (of_nat (length s) :: 64 word) = length s"
    using n by (intro unat_len_ok) (simp add: len_ok_def DEC_BUF_SIZE_def)
  have b: "length s < 2 ^ 56"
    using n by (simp add: DEC_BUF_SIZE_def)
  have o: "overwrite 0 s d = s @ drop (length s) d"
    by (simp add: overwrite_def)
  have "cstr (s @ drop (length s) d) = s @ cstr (drop (length s) d)"
    unfolding cstr_def by (rule takeWhile_append2) (use s in auto)
  then have "fetch_scratch R fetch_buf (of_nat (length s)) \<lparr>dec_buf = d, src = s\<rparr> =
      Inr (s @ cstr (drop (length s) d), \<lparr>dec_buf = s @ drop (length s) d, src = []\<rparr>)"
    using n l d o by (simp add: fetch_scratch_def fetch_ld_def fetch_buf_def)
  then show ?thesis
    using l b by (subst restore_step) (simp_all add: ATTRSXP_def decode_charsxp)
qed

lemma long_symbol:
  assumes p: "nul \<notin> set p" "DEC_BUF_SIZE \<le> length p + 1" "len_ok (length p + 1)" and m: "malloc_ok R (length p + 1)"
  shows "C_mem_restore R d (wire (plain (SymS p))) = Inl (Undefined UninitRead)"
proof -
  have ne: "cstr p = p" "p \<noteq> []"
    using p by (auto simp: cstr_id DEC_BUF_SIZE_def)
  have w: "wire (plain (SymS p)) = bytes64 (hdr_word SYMSXP (of_nat (length p + 1))) @ p @ [nul]"
    using ne by (simp add: wire_def strlen_def)
  have l: "unat (of_nat (length p + 1) :: 64 word) = length p + 1"
    using unat_len_ok [OF p(3)] .
  have z: "of_nat (length p + 1) \<noteq> (0 :: 64 word)"
    using l by (metis add_is_0 one_neq_zero unat_0)
  have "fetch_scratch R fetch_buf (of_nat (length p + 1)) s = Inl (Undefined UninitRead)" for s
    using p(2) m l unfolding fetch_scratch_def by simp
  moreover have "length p + 1 < 2 ^ 56"
    using p(3) by (simp add: len_ok_def)
  ultimately show ?thesis
    using l z unfolding w
    by (subst restore_step) (simp_all add: ATTRSXP_def decode_one_def hdr_word_type hdr_word_len Let_def del: of_nat_add of_nat_Suc)
qed

subsection \<open>Properties\<close>

lemma restored_stores:
  assumes "scratch_ok d" "C_mem_restore R d raw = Inr (x, d')"
  shows "\<exists>cs. C_mem_store x = Inr cs"
  using restored_typed [OF assms] mem_store_small [of x] mem_store_large [of x] by (cases "length (wire x) \<le> DEF_BUF_SIZE") auto

text \<open>C19: The recursive \<open>store\<close> of sfs.c hands its store API exactly the frames of the value, in
  order, and stops at the first one that fails, whatever the API does: storing is the same as
  running the API over the list \<open>frames x\<close>.\<close>

theorem sfs_store_frames:
  assumes "wf_sexp x"
  shows "sfs_store api st x = foldr_m (emit_frame api) st (frames x)"
  using assms by (rule store_frames)

definition demo_sexp :: sexp where
  "demo_sexp = Sxp (Sxp R_NilValue False (CellS ListCell (plain (SymS ''names'')) (plain (StrV [MkChar ''a'', NA_STRING])) R_NilValue))
     False (VecV [plain (IntV [1, 2]), plain (EnvS GlobalEnv)])"

lemma demo_sexp_wf: "wf_sexp demo_sexp"
  by (simp add: demo_sexp_def len_ok_def strlen_def cstr_def attr_types_def)

theorem sfs_store_frames_witness:
  "sfs_store stat_add \<lparr>cs = (\<lambda>_. 0), ls = (\<lambda>_. 0)\<rparr> demo_sexp =
    foldr_m (emit_frame stat_add) \<lparr>cs = (\<lambda>_. 0), ls = (\<lambda>_. 0)\<rparr> (frames demo_sexp)"
  by (rule sfs_store_frames) (rule demo_sexp_wf)

text \<open>C1: Round trip through memory: what \<open>C_mem_store\<close> writes, as long as it fits one buffer of
  64 Mb, is the wire form of the value, and \<open>C_mem_restore\<close> turns it back into the value in the
  normal form of the format, whatever an earlier call left in the scratch buffer. This is for the
  values that can be restored: no raw vectors, and no names and strings of 8192 bytes or more.\<close>

theorem mem_roundtrip:
  assumes "wf_sexp x" "storable R x" "length (wire x) \<le> DEF_BUF_SIZE" "length d = DEC_BUF_SIZE"
  shows "\<exists>raw d'. C_mem_store x = Inr (map Some raw) \<and> C_mem_restore R d raw = Inr (norm x, d') \<and> length d' = DEC_BUF_SIZE"
  using mem_store_small [OF assms(1,3)] mem_restore_wire [OF assms(1,2,4)] by blast

definition all_ok :: renv where
  "all_ok = \<lparr>alloc_ok = \<lambda>_ _. True, malloc_ok = \<lambda>_. True\<rparr>"

lemma demo_storable: "storable all_ok demo_sexp"
  by (simp add: demo_sexp_def all_ok_def name_ok_def DEC_BUF_SIZE_def attr_stored_def attr_types_def)

lemma demo_length: "length (wire demo_sexp) = 83"
  by (simp add: demo_sexp_def wire_def strlen_def cstr_def attr_types_def string_frame_def)

theorem mem_roundtrip_witness:
  "\<exists>raw d'. C_mem_store demo_sexp = Inr (map Some raw) \<and>
    C_mem_restore all_ok (replicate DEC_BUF_SIZE nul) raw = Inr (norm demo_sexp, d') \<and> length d' = DEC_BUF_SIZE"
  by (rule mem_roundtrip) (simp_all add: demo_sexp_wf demo_storable demo_length DEF_BUF_SIZE_def)

text \<open>A result that needs more than one buffer is corrupt: \<open>collapse_buf\<close> copies every buffer
  to the start of the raw vector, so that its last byte is never written.\<close>

theorem mem_store_large_corrupt:
  assumes "wf_sexp x" "DEF_BUF_SIZE < length (wire x)"
  shows "\<exists>cs. C_mem_store x = Inr cs \<and> cs ! (length (wire x) - 1) = None"
  using assms by (rule mem_store_large)

lemma length_wire_raw: "length (wire (plain (RawV bs))) = 8 + length bs"
  by (simp add: wire_raw)

theorem mem_store_large_corrupt_witness:
  "\<exists>cs. C_mem_store (plain (RawV (replicate DEF_BUF_SIZE nul))) = Inr cs \<and>
    cs ! (length (wire (plain (RawV (replicate DEF_BUF_SIZE nul)))) - 1) = None"
proof (rule mem_store_large_corrupt)
  show "wf_sexp (plain (RawV (replicate DEF_BUF_SIZE nul)))"
    by (simp only: wf_sexp.simps wf_body.simps length_replicate) (simp add: len_ok_def DEF_BUF_SIZE_def)
  show "DEF_BUF_SIZE < length (wire (plain (RawV (replicate DEF_BUF_SIZE nul))))"
    by (simp only: length_wire_raw length_replicate)
qed

text \<open>C17: Restoring from any bytes whatsoever ends: it does not run out of the fuel (one more than the
  number of headers the input can hold) and does not read outside the scratch buffer; the buffer
  keeps its terminating NUL, so the next call is safe too. What is not excluded are reads of bytes
  that were never written, as in \<open>long_symbol_uninit\<close>.\<close>

theorem mem_restore_safe:
  assumes "scratch_ok d"
  shows "case C_mem_restore R d raw of Inl f \<Rightarrow> f \<notin> {OutOfFuel, Undefined OutOfBounds} | Inr (x, d') \<Rightarrow> scratch_ok d'"
  using mem_restore_total [OF assms, of R raw] by (auto split: sum.splits)

theorem mem_restore_safe_witness:
  "case C_mem_restore all_ok (replicate DEC_BUF_SIZE nul) ''garbage, not a stream'' of
      Inl f \<Rightarrow> f \<notin> {OutOfFuel, Undefined OutOfBounds} | Inr (x, d') \<Rightarrow> scratch_ok d'"
  by (rule mem_restore_safe) (rule scratch_ok_zero)

text \<open>C18: Whatever bytes are restored, the result is a well-formed value: its attributes and the tails
  of its cells are pairlists, and all its lengths fit a header. In particular storing it again
  runs into no fault.\<close>

theorem mem_restore_typed:
  assumes "scratch_ok d" "C_mem_restore R d raw = Inr (x, d')"
  shows "wf_sexp x \<and> (\<exists>cs. C_mem_store x = Inr cs)"
  using restored_typed [OF assms] restored_stores [OF assms] ..

theorem mem_restore_typed_witness: "wf_sexp (norm demo_sexp) \<and> (\<exists>cs. C_mem_store (norm demo_sexp) = Inr cs)"
proof -
  obtain d' where "C_mem_restore all_ok (replicate DEC_BUF_SIZE nul) (wire demo_sexp) = Inr (norm demo_sexp, d')"
    using mem_restore_wire [OF demo_sexp_wf demo_storable, of "replicate DEC_BUF_SIZE nul"] by auto
  with scratch_ok_zero show ?thesis
    by (rule mem_restore_typed)
qed

text \<open>Raw vectors are written but cannot be read back: restoring the wire form of any raw
  vector is the error for an unimplemented type.\<close>

theorem raw_not_restorable:
  "C_mem_restore R d (wire (plain (RawV bs))) = Inl (RError (Unimplemented RAWSXP))"
  by (rule raw_unimplemented)

text \<open>A string in the stream that does not end in NUL is completed with what an earlier call
  left in the static scratch buffer: bytes of previously restored objects leak into the value.\<close>

theorem string_leaks_scratch:
  assumes "length s < DEC_BUF_SIZE" "length d = DEC_BUF_SIZE" "nul \<in> set (drop (length s) d)" "nul \<notin> set s"
  shows "C_mem_restore R d (bytes64 (hdr_word CHARSXP (of_nat (length s))) @ s) =
    Inr (plain (CharS (MkChar (s @ cstr (drop (length s) d)))), s @ drop (length s) d)"
  using assms by (rule stale_string)

definition used_scratch :: string where
  "used_scratch = ''secret'' @ replicate (DEC_BUF_SIZE - 6) nul"

theorem string_leaks_scratch_witness:
  "C_mem_restore all_ok used_scratch (bytes64 (hdr_word CHARSXP (of_nat (length ''se''))) @ ''se'') =
    Inr (plain (CharS (MkChar (''se'' @ cstr (drop (length ''se'') used_scratch)))), ''se'' @ drop (length ''se'') used_scratch)"
  by (rule string_leaks_scratch) (simp_all add: used_scratch_def DEC_BUF_SIZE_def)

text \<open>A symbol whose name does not fit the scratch buffer is allocated but never fetched:
  its name is read from uninitialised memory.\<close>

theorem long_symbol_uninit:
  assumes "nul \<notin> set p" "DEC_BUF_SIZE \<le> length p + 1" "len_ok (length p + 1)" "malloc_ok R (length p + 1)"
  shows "C_mem_restore R d (wire (plain (SymS p))) = Inl (Undefined UninitRead)"
  using assms by (rule long_symbol)

theorem long_symbol_uninit_witness:
  "C_mem_restore all_ok (replicate DEC_BUF_SIZE nul) (wire (plain (SymS (replicate DEC_BUF_SIZE (CHR ''x''))))) =
    Inl (Undefined UninitRead)"
  by (rule long_symbol_uninit) (simp_all add: all_ok_def len_ok_def DEC_BUF_SIZE_def)

text \<open>The counting back end is exact: eight bytes per header plus the payload lengths it has
  summed up are the length of the stream, as a 64-bit number.\<close>

theorem stat_store_counts:
  assumes "wf_sexp x"
  shows "\<exists>st. C_stat_store x = Inr st \<and> stat_total st = of_nat (length (wire x))"
proof -
  have "stat_total \<lparr>cs = (\<lambda>_. 0), ls = (\<lambda>_. 0)\<rparr> = 0"
    by (simp add: stat_total_def)
  with stat_frames [OF frames_ok [OF assms], of "\<lparr>cs = (\<lambda>_. 0), ls = (\<lambda>_. 0)\<rparr>"] store_frames [OF assms, of stat_add]
  show ?thesis
    by (simp add: C_stat_store_def wire_def)
qed

theorem stat_store_counts_witness:
  "\<exists>st. C_stat_store demo_sexp = Inr st \<and> stat_total st = of_nat (length (wire demo_sexp))"
  by (rule stat_store_counts) (rule demo_sexp_wf)

end
