(* ===== verification/FdSfs.thy ===== *)
theory FdSfs
  imports SfsLoad Sock
begin

text \<open>
  Serialisation to and from file descriptors: src/fd\_store.c (files and the raw TCP
  protocol), src/fd\_restore.c and src/sock\_restore.c.
\<close>

subsection \<open>fd\_store.c\<close>

definition MAX_SEND_SIZE :: nat where "MAX_SEND_SIZE = 1024 * 1024 * 128"

text \<open>The payload loop: every write has to accept something.\<close>

function write_loop :: "string \<Rightarrow> sock \<Rightarrow> fault + sock" where
  "write_loop buf s =
     (if buf = [] then Inr s
      else
        (let need = (if MAX_SEND_SIZE < length buf then MAX_SEND_SIZE else length buf);
             (n, s) = sock_send (take need buf) s in
         if n < 1 then Inl (RError WriteFailed) else write_loop (drop (nat n) buf) s))"
  by pat_completeness auto
termination
  by (relation "measure (\<lambda>(buf, s). length buf)") auto

declare write_loop.simps [simp del]

definition write_payload :: "nat \<Rightarrow> 64 word \<Rightarrow> string option \<Rightarrow> sock \<Rightarrow> fault + sock" where
  "write_payload el len buf s =
     (let len = (if 1 < el then len * of_nat el else len) in
      case buf of None \<Rightarrow> Inr s
      | Some b \<Rightarrow> rbind (read_mem (unat len) b) (\<lambda>bs. write_loop bs s))"

text \<open>The header check compares the signed result with the unsigned \<open>sizeof(hdr)\<close>, so the
  result is converted to a 64-bit word first.\<close>

definition fd_add :: "sock store_fn" where
  "fd_add s ts el len buf =
     (let (n, s) = sock_send (bytes64 (hdr_word ts len)) s in
      if (of_int n :: 64 word) < 8 then Inl (RError WriteFailed)
      else write_payload el len buf s)"

definition fd_store :: "sock \<Rightarrow> sexp \<Rightarrow> fault + sock" where
  "fd_store s x = sfs_store fd_add s x"

lemma write_loop_accepts:
  "accepts 1 s \<Longrightarrow> \<exists>s'. write_loop buf s = Inr s' \<and> tx s' = tx s @ buf \<and>
    (\<forall>m. accepts m s \<longrightarrow> accepts m s')"
proof (induction buf s rule: write_loop.induct)
  case (1 buf s)
  show ?case
  proof (cases "buf = []")
    case True
    then show ?thesis by (simp add: write_loop.simps [of "[]"])
  next
    case False
    let ?ts = "if MAX_SEND_SIZE < length buf then MAX_SEND_SIZE else length buf"
    obtain n s1 where s1: "sock_send (take ?ts buf) s = (n, s1)"
      by (cases "sock_send (take ?ts buf) s")
    have "0 < length buf"
      using False by simp
    then have acc: "accepts 1 s1" and n: "\<not> n < 1"
      using sock_send_accepts [OF "1.prems" s1]
      by (auto simp: MAX_SEND_SIZE_def min_def simp del: length_greater_0_conv split: if_splits)
    have "tx s1 = tx s @ take (nat n) (take ?ts buf)" "n \<le> int (length (take ?ts buf))"
      using sock_send_tx [OF s1] by auto
    then have tx: "tx s1 = tx s @ take (nat n) buf"
      by (auto simp: min_def split: if_splits)
    have m: "accepts m s \<longrightarrow> accepts m s1" for m
      using sock_send_accepts [OF _ s1] by blast
    obtain s' where "write_loop (drop (nat n) buf) s1 = Inr s'"
        "tx s' = tx s1 @ drop (nat n) buf" "\<forall>m. accepts m s1 \<longrightarrow> accepts m s'"
      using "1.IH" [OF False refl s1 [symmetric] refl n acc] by blast
    then show ?thesis
      using False n s1 tx m by (simp add: write_loop.simps [of buf] Let_def)
  qed
qed

lemma accepts_mono: "accepts m s \<Longrightarrow> k \<le> m \<Longrightarrow> accepts k s"
  by (auto simp: accepts_def)

lemma fd_payload:
  assumes "accepts 8 s" "frame_ok (ts, el, len, buf)"
  shows "\<exists>s'. write_payload el len buf s = Inr s' \<and> accepts 8 s' \<and>
    tx s' = tx s @ (case buf of None \<Rightarrow> [] | Some b \<Rightarrow> b)"
proof (cases buf)
  case None
  then show ?thesis using assms(1) by (simp add: write_payload_def)
next
  case (Some b)
  have "unat (if 1 < el then len * of_nat el else len) = length b"
    using frame_len [of ts el len b] assms(2) Some by (cases "el = 1") auto
  moreover obtain s' where "write_loop b s = Inr s'" "tx s' = tx s @ b" "\<forall>m. accepts m s \<longrightarrow> accepts m s'"
    using write_loop_accepts [OF accepts_mono [OF assms(1), of 1]] by auto
  ultimately show ?thesis
    using Some assms(1) by (simp add: write_payload_def read_mem_def Let_def)
qed

interpretation fd: store_api fd_add tx "accepts 8"
proof
  fix s ts el len buf
  assume s: "accepts 8 s" and fr: "frame_ok (ts, el, len, buf)"
  let ?h = "bytes64 (hdr_word ts len)"
  obtain n s1 where s1: "sock_send ?h s = (n, s1)"
    by (cases "sock_send ?h s")
  have n: "n = 8" and acc: "accepts 8 s1"
    using sock_send_accepts [OF s s1] sock_send_tx [OF s1] by auto
  have tx: "tx s1 = tx s @ ?h"
    using sock_send_tx [OF s1] n by simp
  show "\<exists>s'. fd_add s ts el len buf = Inr s' \<and> accepts 8 s' \<and> tx s' = tx s @ frame_bytes (ts, el, len, buf)"
    using fd_payload [OF acc fr] n tx by (auto simp: fd_add_def s1 Let_def)
qed

lemma fd_store_wire:
  "accepts 8 s \<Longrightarrow> wf_sexp x \<Longrightarrow> \<exists>s'. fd_store s x = Inr s' \<and> accepts 8 s' \<and> tx s' = tx s @ wire x"
  unfolding fd_store_def by (rule fd.store_wire)

text \<open>A failed write of a header is the value -1, which as an unsigned number is not below 8:
  the stream goes on without the header.\<close>

lemma fd_add_lost_header:
  assumes "plan s = - 1 # ps" "accepts 8 (s\<lparr>plan := ps\<rparr>)" "frame_ok (ts, el, len, buf)"
  shows "\<exists>s'. fd_add s ts el len buf = Inr s' \<and> accepts 8 s' \<and>
    tx s' = tx s @ drop 8 (frame_bytes (ts, el, len, buf))"
  using fd_payload [OF assms(2,3)] assms(1) by (auto simp: fd_add_def sock_send_def)

lemma foldr_m_Cons_frame:
  "foldr_m (emit_frame api) st (fr # fs) =
    rbind (case fr of (ts, el, len, buf) \<Rightarrow> api st ts el len buf) (\<lambda>st. foldr_m (emit_frame api) st fs)"
  by (cases fr) simp

lemma frames_nonempty: "frames x \<noteq> []" "frames_body b \<noteq> []"
  by (cases x; cases b; simp; cases "body x"; simp)+

lemma fd_store_lost_header:
  assumes x: "wf_sexp x" and s: "plan s = - 1 # ps" "accepts 8 (s\<lparr>plan := ps\<rparr>)"
  shows "\<exists>s'. fd_store s x = Inr s' \<and> tx s' = tx s @ drop 8 (wire x)"
proof -
  obtain fr fs where fs: "frames x = fr # fs"
    using frames_nonempty(1) [of x] by (cases "frames x") auto
  obtain ts el len buf where fr: "fr = (ts, el, len, buf)"
    by (cases fr)
  have ok: "frame_ok (ts, el, len, buf)" "list_all frame_ok fs"
    using frames_ok [OF x] by (simp_all add: fs fr del: frame_ok.simps)
  obtain s1 where s1: "fd_add s ts el len buf = Inr s1" "accepts 8 s1"
      "tx s1 = tx s @ drop 8 (frame_bytes fr)"
    using fd_add_lost_header [OF s ok(1)] fr by blast
  obtain s2 where "foldr_m (emit_frame fd_add) s1 fs = Inr s2"
      "tx s2 = tx s1 @ concat (map frame_bytes fs)"
    using fd.api_frames [OF s1(2) ok(2)] by blast
  with s1 show ?thesis
    by (simp add: fd_store_def store_frames [OF x] fs fr wire_def)
qed

subsection \<open>fd\_restore.c and sock\_restore.c\<close>

definition FD_MAX_RECV :: nat where "FD_MAX_RECV = 1024 * 1024 * 128"
definition SOCK_MAX_RECV :: nat where "SOCK_MAX_RECV = 1024 * 1024"

text \<open>\<open>fd_restore\<close> and \<open>sock_restore\<close> load from the descriptor; the fuel covers every
  header the script can deliver. The receive timeout that \<open>sock_restore\<close> may set shows as
  would-block answers in the script.\<close>

definition fd_load :: "nat \<Rightarrow> renv \<Rightarrow> string \<Rightarrow> sock \<Rightarrow> fault + sexp \<times> sock loader" where
  "fd_load maxr R d s = sfs_load R (fd_fetch maxr) (length (stream s) div 8 + 1) \<lparr>dec_buf = d, src = s\<rparr>"

definition fd_restore :: "renv \<Rightarrow> string \<Rightarrow> sock \<Rightarrow> fault + sexp \<times> sock loader" where
  "fd_restore = fd_load FD_MAX_RECV"

definition sock_restore :: "renv \<Rightarrow> string \<Rightarrow> sock \<Rightarrow> fault + sexp \<times> sock loader" where
  "sock_restore = fd_load SOCK_MAX_RECV"

text \<open>\<open>C_file_restore\<close> closes the file after a successful load.\<close>

definition C_file_restore :: "renv \<Rightarrow> string \<Rightarrow> sock \<Rightarrow> fault + sexp \<times> sock loader" where
  "C_file_restore R d s = rbind (fd_restore R d s) (\<lambda>(x, l). Inr (x, l\<lparr>src := closesocket (src l)\<rparr>))"

definition C_file_store :: "sock \<Rightarrow> sexp \<Rightarrow> fault + sock" where
  "C_file_store s x = rbind (fd_store s x) (\<lambda>s. Inr (closesocket s))"

lemma fd_fetch_strict: "0 < maxr \<Longrightarrow> strict_fetch_api (fd_fetch maxr) stream smooth"
  by unfold_locales (simp_all add: fd_fetch_smooth fd_fetch_short)

interpretation fdf: strict_fetch_api "fd_fetch FD_MAX_RECV" stream smooth
  by (rule fd_fetch_strict) (simp add: FD_MAX_RECV_def)

interpretation skf: strict_fetch_api "fd_fetch SOCK_MAX_RECV" stream smooth
  by (rule fd_fetch_strict) (simp add: SOCK_MAX_RECV_def)

lemma depth_fuel: "depth x \<le> length (wire x @ after) div 8 + 1"
  using depth_wire [of x] by (simp add: div_le_mono order_trans)

lemma file_restore_wire:
  assumes "smooth s" "stream s = wire x @ after" "length d = DEC_BUF_SIZE" "wf_sexp x" "storable R x"
  shows "\<exists>l. C_file_restore R d s = Inr (norm x, l) \<and> stream (src l) = after \<and> \<not> is_open (src l)"
  using fdf.load_wire [OF assms depth_fuel [of x after]] assms(2)
  by (auto simp: C_file_restore_def fd_restore_def fd_load_def closesocket_def stream_def)

lemma sock_restore_wire:
  assumes "smooth s" "stream s = wire x @ after" "length d = DEC_BUF_SIZE" "wf_sexp x" "storable R x"
  shows "\<exists>l. sock_restore R d s = Inr (norm x, l) \<and> stream (src l) = after \<and> smooth (src l)"
  using skf.load_wire [OF assms depth_fuel [of x after]] assms(2)
  by (auto simp: sock_restore_def fd_load_def)

subsection \<open>Properties\<close>

definition fdesc :: "rx_event list \<Rightarrow> int list \<Rightarrow> sock" where
  "fdesc es ps = \<lparr>rx = es, tx = [], plan = ps, errno = 0, is_open = True\<rparr>"

lemma fdesc_simps [simp]: "rx (fdesc es ps) = es" "tx (fdesc es ps) = []" "plan (fdesc es ps) = ps"
  by (simp_all add: fdesc_def)

definition small_sexp :: sexp where
  "small_sexp = plain (VecV [plain (StrV [MkChar ''a'']), plain (IntV [1])])"

lemma small_sexp_wf: "wf_sexp small_sexp"
  by (simp add: small_sexp_def len_ok_def strlen_def cstr_def)

definition any_renv :: renv where
  "any_renv = \<lparr>alloc_ok = \<lambda>_ _. True, malloc_ok = \<lambda>_. True\<rparr>"

lemma small_sexp_length: "length (wire small_sexp) = 38"
  by (simp add: small_sexp_def wire_def strlen_def cstr_def string_frame_def)

lemma small_sexp_storable: "storable any_renv small_sexp"
  by (simp add: small_sexp_def any_renv_def name_ok_def DEC_BUF_SIZE_def attr_stored_def attr_types_def)

text \<open>C16: Round trip through a file: what \<open>C_file_store\<close> writes can be read by \<open>C_file_restore\<close>,
  however the reads are cut into pieces and whatever follows in the file; the result is the
  value in normal form, exactly the bytes of the value are consumed, and both ends close. This is
  for values that can be restored and writes that take at least the 8 bytes of a header.\<close>

theorem file_roundtrip:
  assumes "wf_sexp x" "storable R x" "accepts 8 s" "length d = DEC_BUF_SIZE" "smooth r" "stream r = wire x @ after"
  shows "\<exists>s' l. C_file_store s x = Inr s' \<and> tx s' = tx s @ wire x \<and> \<not> is_open s' \<and>
    C_file_restore R d r = Inr (norm x, l) \<and> stream (src l) = after \<and> \<not> is_open (src l)"
proof -
  obtain s' where "fd_store s x = Inr s'" "tx s' = tx s @ wire x"
    using fd_store_wire [OF assms(3,1)] by blast
  then have "C_file_store s x = Inr (closesocket s')" "tx (closesocket s') = tx s @ wire x" "\<not> is_open (closesocket s')"
    by (simp_all add: C_file_store_def closesocket_def)
  then show ?thesis
    using file_restore_wire [OF assms(5,6,4,1,2)] by blast
qed

theorem file_roundtrip_witness:
  "\<exists>s' l. C_file_store (fdesc [] [8, 8, 100]) small_sexp = Inr s' \<and> tx s' = tx (fdesc [] [8, 8, 100]) @ wire small_sexp \<and>
    \<not> is_open s' \<and>
    C_file_restore any_renv (replicate DEC_BUF_SIZE nul) (fdesc [RxData (wire small_sexp), RxData ''rest''] []) = Inr (norm small_sexp, l) \<and>
    stream (src l) = ''rest'' \<and> \<not> is_open (src l)"
  by (rule file_roundtrip)
    (use small_sexp_length in \<open>auto simp: small_sexp_wf small_sexp_storable accepts_def smooth_def stream_def\<close>)

text \<open>C25: Reading a value from a socket gives its normal form however the network cuts the stream
  into packets, and leaves exactly the bytes behind the value unread.\<close>

theorem sock_restore_any_packets:
  assumes "smooth s" "stream s = wire x @ after" "length d = DEC_BUF_SIZE" "wf_sexp x" "storable R x"
  shows "\<exists>l. sock_restore R d s = Inr (norm x, l) \<and> stream (src l) = after \<and> smooth (src l)"
  using assms by (rule sock_restore_wire)

theorem sock_restore_any_packets_witness:
  "\<exists>l. sock_restore any_renv (replicate DEC_BUF_SIZE nul)
      (fdesc [RxData (take 3 (wire small_sexp)), RxErr EAGAIN, RxData (drop 3 (wire small_sexp)), RxData ''rest''] []) = Inr (norm small_sexp, l) \<and>
    stream (src l) = ''rest'' \<and> smooth (src l)"
  by (rule sock_restore_any_packets)
    (use small_sexp_length in \<open>auto simp: small_sexp_wf small_sexp_storable smooth_def stream_def simp flip: append_assoc\<close>)

text \<open>When the write of the first header fails, \<open>fd_store\<close> does not notice: it goes on and
  the peer receives the stream without its first eight bytes.\<close>

theorem fd_store_header_error_lost:
  assumes "wf_sexp x" "plan s = - 1 # ps" "accepts 8 (s\<lparr>plan := ps\<rparr>)"
  shows "\<exists>s'. fd_store s x = Inr s' \<and> tx s' = tx s @ drop 8 (wire x)"
  using assms by (rule fd_store_lost_header)

theorem fd_store_header_error_lost_witness:
  "\<exists>s'. fd_store (fdesc [] [- 1]) small_sexp = Inr s' \<and> tx s' = tx (fdesc [] [- 1]) @ drop 8 (wire small_sexp)"
  by (rule fd_store_header_error_lost [where ps = "[]"]) (simp_all add: small_sexp_wf accepts_def)

end
