(* ===== verification/HttpOut.thy ===== *)
theory HttpOut
  imports Sock
begin

text \<open>
  The sending half of src/http.c: status lines, \<open>http_response\<close> and the chunked transfer
  encoding of \<open>http_send_chunk\<close>, with the decoder of RFC 7230 that a client runs as its
  reference.
\<close>

abbreviation (input) cr :: char where "cr \<equiv> CHR 0x0D"
abbreviation (input) lf :: char where "lf \<equiv> CHR 0x0A"
abbreviation (input) crlf :: string where "crlf \<equiv> [CHR 0x0D, CHR 0x0A]"

subsection \<open>Numbers as text\<close>

function dec_string :: "nat \<Rightarrow> string" where
  "dec_string n = (if n < 10 then [char_of (48 + n)] else dec_string (n div 10) @ [char_of (48 + n mod 10)])"
  by pat_completeness auto
termination
  by (relation "measure id") auto

declare dec_string.simps [simp del]

definition int_string :: "int \<Rightarrow> string" where
  "int_string i = (if i < 0 then CHR ''-'' # dec_string (nat (- i)) else dec_string (nat i))"

lemma digit_val: "n < 10 \<Longrightarrow> is_digit (char_of (48 + n)) \<and> of_char (char_of (48 + n :: nat)) = 48 + n"
  by (simp add: is_digit_def less_eq_char_def of_char_of)

lemma dec_string_digits: "list_all is_digit (dec_string n)"
  by (induction n rule: dec_string.induct) (subst dec_string.simps, use digit_val in \<open>auto simp: list_all_iff\<close>)

lemma dec_string_nonempty [simp]: "dec_string n \<noteq> []"
  by (subst dec_string.simps) simp

lemma dec_digits_snoc: "dec_digits (ds @ [c]) = 10 * dec_digits ds + (of_char c - 48)"
  by (simp add: dec_digits_def)

lemma dec_digits_dec_string: "dec_digits (dec_string n) = n"
proof (induction n rule: dec_string.induct)
  case (1 n)
  show ?case
  proof (cases "n < 10")
    case True
    then show ?thesis
      using digit_val [of n] by (subst dec_string.simps) (simp add: dec_digits_def)
  next
    case False
    have "dec_digits (dec_string n) = 10 * dec_digits (dec_string (n div 10)) + (of_char (char_of (48 + n mod 10) :: char) - 48)"
      using False by (subst dec_string.simps) (simp add: dec_digits_snoc)
    then show ?thesis
      using "1.IH" [OF False] digit_val [of "n mod 10"] by simp
  qed
qed

lemma atol_dec_string: "int n < 2 ^ 63 \<Longrightarrow> atol (dec_string n) = int n"
proof -
  assume n: "int n < 2 ^ 63"
  obtain d ds where d: "dec_string n = d # ds" "is_digit d"
    using dec_string_digits [of n] dec_string_nonempty [of n] by (cases "dec_string n") auto
  have nd: "\<not> is_space d" "d \<noteq> CHR ''-''" "d \<noteq> CHR ''+''"
    using d(2) by (auto simp: is_digit_def is_space_def less_eq_char_def)
  have "takeWhile is_digit (dec_string n) = dec_string n"
    using dec_string_digits [of n] by (simp add: takeWhile_eq_all_conv list_all_iff)
  then show ?thesis
    using n d(1) nd dec_digits_dec_string [of n] by (simp add: atol_def Let_def)
qed

lemma dec_string_length: "n < 10 ^ k \<Longrightarrow> 0 < k \<Longrightarrow> length (dec_string n) \<le> k"
proof (induction k arbitrary: n)
  case (Suc k)
  show ?case
  proof (cases "n < 10")
    case True
    then show ?thesis by (subst dec_string.simps) simp
  next
    case False
    then have "0 < k" "n div 10 < 10 ^ k"
      using Suc.prems by (cases k; simp)+
    with Suc.IH [of "n div 10"] False show ?thesis
      by (subst dec_string.simps) simp
  qed
qed simp

definition hex :: string where "hex = ''0123456789abcdef''"

text \<open>The digit loop of \<open>http_send_chunk\<close>: it fills the array from the last digit down.\<close>

function hex_loop :: "nat \<Rightarrow> string \<Rightarrow> string" where
  "hex_loop l acc = (if 0 < l then hex_loop (l div 16) (hex ! (l mod 16) # acc) else acc)"
  by pat_completeness auto
termination
  by (relation "measure fst") auto

declare hex_loop.simps [simp del]

definition hex_string :: "nat \<Rightarrow> string" where
  "hex_string l = hex_loop l []"

subsection \<open>Responses\<close>

text \<open>\<open>http_send_chunk\<close>: the size line, the data, the closing line end; a length of zero
  sends the terminating chunk. The first failure is returned.\<close>

definition http_send_chunk :: "string \<Rightarrow> sock \<Rightarrow> int \<times> sock" where
  "http_send_chunk buf s =
     (if 0 < length buf then
        (let (r, s) = http_send (hex_string (length buf) @ crlf) s in
         if r \<noteq> 0 then (r, s)
         else (let (r, s) = http_send buf s in
               if r \<noteq> 0 then (r, s) else http_send crlf s))
      else http_send (''0'' @ crlf @ crlf) s)"

text \<open>\<open>send_http_response\<close> prefixes the protocol version; short texts go out in one buffer.\<close>

definition send_http_response :: "bool \<Rightarrow> string \<Rightarrow> sock \<Rightarrow> int \<times> sock" where
  "send_http_response http10 text s =
     (let sig = (if http10 then ''HTTP/1.0'' else ''HTTP/1.1'') in
      if length text < 96 - 10 then send_response (sig @ text) s
      else (let (res, s) = sock_send sig s in
            if res < 8 then (- 1, s) else send_response text s))"

text \<open>\<open>http_response\<close>: formatted into 512 bytes, so at most 511 characters are sent.\<close>

definition response_text :: "bool \<Rightarrow> int \<Rightarrow> string \<Rightarrow> string option \<Rightarrow> int \<Rightarrow> string option \<Rightarrow> string" where
  "response_text http10 code txt content_type content_length headers =
     (let ver = (if http10 then ''0'' else ''1'');
          ct = (case content_type of None \<Rightarrow> ''text/plain'' | Some c \<Rightarrow> c);
          hs = (case headers of None \<Rightarrow> [] | Some h \<Rightarrow> h);
          line1 = ''HTTP/1.'' @ ver @ '' '' @ int_string code @ '' '' @ txt @ crlf;
          line2 = ''Content-type: '' @ ct @ crlf;
          line3 = (if content_length < 0 then []
                   else ''Content-length: '' @ int_string content_length @ crlf)
      in take 511 (line1 @ line2 @ line3 @ hs @ crlf))"

definition http_response ::
    "bool \<Rightarrow> int \<Rightarrow> string option \<Rightarrow> string option \<Rightarrow> int \<Rightarrow> string option \<Rightarrow> sock \<Rightarrow> int \<times> sock" where
  "http_response http10 code txt content_type content_length headers s =
     http_send (response_text http10 code (case txt of None \<Rightarrow> ''<NULL>'' | Some t \<Rightarrow> t)
       content_type content_length headers) s"

subsection \<open>Decoding a chunked body\<close>

definition hex_val :: "char \<Rightarrow> nat option" where
  "hex_val c =
     (if CHR ''0'' \<le> c \<and> c \<le> CHR ''9'' then Some (of_char c - 48)
      else if CHR ''a'' \<le> c \<and> c \<le> CHR ''f'' then Some (of_char c - 87)
      else if CHR ''A'' \<le> c \<and> c \<le> CHR ''F'' then Some (of_char c - 55)
      else None)"

text \<open>The size line: at least one hexadecimal digit, then CR LF.\<close>

fun chunk_size :: "nat \<Rightarrow> string \<Rightarrow> (nat \<times> string) option" where
  "chunk_size n (c # cs) =
     (case hex_val c of Some d \<Rightarrow> chunk_size (16 * n + d) cs
      | None \<Rightarrow> (case cs of x # rest \<Rightarrow> if c = CHR 0x0D \<and> x = CHR 0x0A then Some (n, rest) else None
                | [] \<Rightarrow> None))"
| "chunk_size n [] = None"

lemma chunk_size_length: "chunk_size n s = Some (m, r) \<Longrightarrow> length r < length s"
  by (induction n s rule: chunk_size.induct) (auto split: option.splits list.splits if_splits)

text \<open>The payload of the complete, non-empty chunks at the front, and what follows them.\<close>

function dechunk :: "string \<Rightarrow> string \<times> string" where
  "dechunk s =
     (case chunk_size 0 s of None \<Rightarrow> ([], s)
      | Some (n, rest) \<Rightarrow>
          if n = 0 \<or> length rest < n + 2 \<or> take 2 (drop n rest) \<noteq> crlf then ([], s)
          else (let (p, r) = dechunk (drop (n + 2) rest) in (take n rest @ p, r)))"
  by pat_completeness auto
termination
  by (relation "measure length") (auto dest: chunk_size_length)

declare dechunk.simps [simp del]

definition chunk_bytes :: "string \<Rightarrow> string" where
  "chunk_bytes c = hex_string (length c) @ crlf @ c @ crlf"

definition last_chunk :: string where
  "last_chunk = ''0'' @ crlf @ crlf"

lemma chunk_size_append: "chunk_size n s = Some (m, r) \<Longrightarrow> chunk_size n (s @ t) = Some (m, r @ t)"
  by (induction n s rule: chunk_size.induct) (auto split: option.splits list.splits if_splits)

lemma hex_val_hex: "d < 16 \<Longrightarrow> hex_val (hex ! d) = Some d"
proof -
  assume "d < 16"
  then have "d \<in> {0, 1, 2, 3, 4, 5, 6, 7, 8, 9, 10, 11, 12, 13, 14, 15}"
    by (auto simp: less_Suc_eq numeral_eq_Suc)
  then show ?thesis
    by (auto simp: hex_def hex_val_def)
qed

lemma hex_loop_acc: "hex_loop l acc = hex_loop l [] @ acc"
proof (induction l arbitrary: acc rule: less_induct)
  case (less l)
  show ?case
  proof (cases "l = 0")
    case True
    then show ?thesis by (simp add: hex_loop.simps)
  next
    case False
    then have "hex_loop (l div 16) (x # ys) = hex_loop (l div 16) [] @ x # ys" for x ys
      by (intro less.IH) simp
    with False show ?thesis by (simp add: hex_loop.simps [of l])
  qed
qed

lemma hex_string_step: "0 < l \<Longrightarrow> hex_string l = hex_string (l div 16) @ [hex ! (l mod 16)]"
  unfolding hex_string_def by (subst hex_loop.simps) (simp add: hex_loop_acc [of _ "[_]"])

lemma hex_string_0 [simp]: "hex_string 0 = []"
  by (simp add: hex_string_def hex_loop.simps)

text \<open>The size fits the array \<open>sz[20]\<close>: sixteen digits and the line end.\<close>

lemma hex_string_length: "l < 16 ^ k \<Longrightarrow> length (hex_string l) \<le> k"
proof (induction k arbitrary: l)
  case 0
  then show ?case by simp
next
  case (Suc k)
  then have "length (hex_string (l div 16)) \<le> k"
    by (intro Suc.IH) (simp add: less_mult_imp_div_less mult.commute)
  then show ?case
    by (cases "l = 0") (simp_all add: hex_string_step [of l])
qed

lemma chunk_size_digit:
  "d < 16 \<Longrightarrow> chunk_size n (hex ! d # s) = chunk_size (16 * n + d) s"
  by (simp add: hex_val_hex)

lemma chunk_size_hex:
  "chunk_size k (hex_string l @ s) = chunk_size (k * 16 ^ length (hex_string l) + l) s"
proof (induction l arbitrary: k s rule: less_induct)
  case (less l)
  show ?case
  proof (cases "l = 0")
    case True
    then show ?thesis by simp
  next
    case False
    let ?h = "hex_string (l div 16)"
    have "chunk_size k (hex_string l @ s) = chunk_size k (?h @ hex ! (l mod 16) # s)"
      using False by (simp add: hex_string_step [of l])
    also have "\<dots> = chunk_size (k * 16 ^ length ?h + l div 16) (hex ! (l mod 16) # s)"
      using False by (intro less.IH) simp
    also have "\<dots> = chunk_size (16 * (k * 16 ^ length ?h + l div 16) + l mod 16) s"
      by (rule chunk_size_digit) simp
    also have "16 * (k * 16 ^ length ?h + l div 16) + l mod 16 = k * 16 ^ length (hex_string l) + l"
      using False mult_div_mod_eq [of 16 l] by (simp add: hex_string_step [of l])
    finally show ?thesis .
  qed
qed

lemma chunk_size_line: "chunk_size 0 (hex_string l @ CHR 0x0D # CHR 0x0A # s) = Some (l, s)"
  by (simp add: chunk_size_hex) (simp add: hex_val_def less_eq_char_simp)

lemma dechunk_chunk:
  assumes "c \<noteq> []"
  shows "dechunk (chunk_bytes c @ s) = (c @ fst (dechunk s), snd (dechunk s))"
  using assms by (subst dechunk.simps) (simp add: chunk_bytes_def chunk_size_line split_def Let_def)

lemma dechunk_Nil [simp]: "dechunk [] = ([], [])"
  by (simp add: dechunk.simps)

lemma dechunk_last: "dechunk last_chunk = ([], last_chunk)"
  by (simp add: dechunk.simps [of last_chunk]) (simp add: last_chunk_def hex_val_def less_eq_char_simp)

lemma dechunk_append:
  "dechunk s = (p, []) \<Longrightarrow> dechunk (s @ t) = (p @ fst (dechunk t), snd (dechunk t))"
proof (induction s arbitrary: p rule: dechunk.induct)
  case (1 s)
  show ?case
  proof (cases "chunk_size 0 s")
    case None
    then show ?thesis using "1.prems" by (simp add: dechunk.simps [of s])
  next
    case (Some nr)
    obtain n rest where nr: "chunk_size 0 s = Some (n, rest)"
      using Some by (cases nr) auto
    show ?thesis
    proof (cases "n = 0 \<or> length rest < n + 2 \<or> take 2 (drop n rest) \<noteq> crlf")
      case True
      then have "s = []"
        using "1.prems" nr by (simp add: dechunk.simps [of s])
      then show ?thesis using "1.prems" by simp
    next
      case False
      obtain q where q: "dechunk (drop (n + 2) rest) = (q, [])" "p = take n rest @ q"
        using "1.prems" nr False by (auto simp: dechunk.simps [of s] split_def Let_def prod_eq_iff)
      have IH: "dechunk (drop (n + 2) rest @ t) = (q @ fst (dechunk t), snd (dechunk t))"
        using "1.IH" [OF nr refl False q(1)] .
      have "chunk_size 0 (s @ t) = Some (n, rest @ t)"
        using nr by (rule chunk_size_append)
      then show ?thesis
        using False IH q(2) by (simp add: dechunk.simps [of "s @ t"] split_def Let_def)
    qed
  qed
qed

lemma http_send_chunk_accepts:
  assumes "accepts 1 s"
  shows "\<exists>s'. http_send_chunk c s = (0, s') \<and> accepts 1 s' \<and>
    tx s' = tx s @ (if c = [] then last_chunk else chunk_bytes c) \<and> is_open s' = is_open s \<and> rx s' = rx s"
proof (cases "c = []")
  case True
  then show ?thesis
    using send_loop_accepts [OF assms, of last_chunk]
    by (auto simp: http_send_chunk_def http_send_def last_chunk_def)
next
  case False
  obtain s1 where s1: "send_loop (hex_string (length c) @ crlf) s = (0, s1)" "accepts 1 s1"
      "tx s1 = tx s @ hex_string (length c) @ crlf" "is_open s1 = is_open s" "rx s1 = rx s"
    using send_loop_accepts [OF assms] by blast
  obtain s2 where s2: "send_loop c s1 = (0, s2)" "accepts 1 s2" "tx s2 = tx s1 @ c"
      "is_open s2 = is_open s1" "rx s2 = rx s1"
    using send_loop_accepts [OF s1(2)] by blast
  obtain s3 where "send_loop crlf s2 = (0, s3)" "accepts 1 s3" "tx s3 = tx s2 @ crlf"
      "is_open s3 = is_open s2" "rx s3 = rx s2"
    using send_loop_accepts [OF s2(2)] by blast
  with s1 s2 False show ?thesis
    by (auto simp: http_send_chunk_def http_send_def chunk_bytes_def Let_def)
qed

text \<open>Sending never touches what is to be received nor the descriptor.\<close>

definition same_input :: "sock \<Rightarrow> sock \<Rightarrow> bool" where
  "same_input s s' \<longleftrightarrow> rx s' = rx s \<and> is_open s' = is_open s"

lemma same_input_refl [simp]: "same_input s s"
  by (simp add: same_input_def)

lemma same_input_trans: "same_input s s' \<Longrightarrow> same_input s' s'' \<Longrightarrow> same_input s s''"
  by (simp add: same_input_def)

lemma http_send_input: "http_send buf s = (r, s') \<Longrightarrow> same_input s s'"
  unfolding http_send_def same_input_def using send_loop_spec by blast

lemma http_send_chunk_input: "http_send_chunk c s = (r, s') \<Longrightarrow> same_input s s'"
  by (auto simp: http_send_chunk_def Let_def split: if_splits prod.splits
      intro: same_input_trans dest!: http_send_input)

lemma http_response_input: "http_response v c t ct cl h s = (r, s') \<Longrightarrow> same_input s s'"
  by (auto simp: http_response_def Let_def dest: http_send_input)

lemma send_http_response_input: "send_http_response v t s = (r, s') \<Longrightarrow> same_input s s'"
proof -
  assume r: "send_http_response v t s = (r, s')"
  have sr: "send_response b x = (q, y) \<Longrightarrow> same_input x y" for b x q y
    unfolding same_input_def using send_response_spec by blast
  have ss: "sock_send b x = (n, y) \<Longrightarrow> same_input x y" for b x n y
    unfolding same_input_def using sock_send_frame by blast
  show ?thesis
    using r by (auto simp: send_http_response_def Let_def split: if_splits prod.splits
        intro: same_input_trans dest!: sr ss)
qed

end
