(* ===== verification/HcSfs.thy ===== *)
theory HcSfs
  imports SfsLoad HttpOut
begin

text \<open>
  Serialisation into a chunked HTTP response, src/hcstore.c: small pieces are collected in
  a 16 Mb buffer, large ones are sent as chunks of their own.
\<close>

definition MAX_CHUNK_SIZE :: nat where "MAX_CHUNK_SIZE = 1024 * 1024 * 16"
definition MIN_INPLACE_SIZE :: nat where "MIN_INPLACE_SIZE = 1024 * 1024 * 2"

text \<open>The block is \<open>sizeof(store_api_t) + MAX_CHUNK_SIZE\<close> bytes; \<open>buf\<close> starts 8 bytes
  before the end of the structure (LP64 layout), so it can take 8 bytes more.\<close>

definition HC_CAP :: nat where "HC_CAP = MAX_CHUNK_SIZE + 8"

record hc_store =
  conn :: sock
  res :: int
  hlen :: "64 word"
  pos :: "64 word"
  hbuf :: "cell list"

text \<open>The flush at the head of \<open>buf_add\<close>: the new state, with \<open>res\<close> telling whether the send
  failed.\<close>

definition hc_flush :: "hc_store \<Rightarrow> fault + hc_store" where
  "hc_flush st =
     rbind (read_cells (unat (pos st)) (hbuf st)) (\<lambda>bs.
       let (r, c) = http_send_chunk bs (conn st) in
       Inr (if r \<noteq> 0 then st\<lparr>conn := c, res := r\<rparr> else st\<lparr>conn := c, res := r, pos := 0\<rparr>))"

definition hc_buf_add :: "hc_store \<Rightarrow> string \<Rightarrow> fault + hc_store" where
  "hc_buf_add st what =
     (let len = of_nat (length what) :: 64 word; min_inplace = of_nat MIN_INPLACE_SIZE in
      if res st \<noteq> 0 then Inr st
      else
        rbind (if hlen st - pos st < len \<and> (min_inplace \<le> pos st \<or> min_inplace \<le> len)
               then hc_flush st else Inr st) (\<lambda>st.
        if res st \<noteq> 0 then Inr st
        else if pos st = 0 \<and> min_inplace \<le> len then
          (let (r, c) = http_send_chunk what (conn st) in Inr (st\<lparr>conn := c, res := r\<rparr>))
        else if HC_CAP < unat (pos st) + length what then Inl (Undefined OutOfBounds)
        else Inr (st\<lparr>hbuf := overwrite (unat (pos st)) (map Some what) (hbuf st), pos := pos st + len\<rparr>)))"

definition hc_add :: "hc_store store_fn" where
  "hc_add st ts el len buf =
     rbind (hc_buf_add st (bytes64 (hdr_word ts len))) (\<lambda>st.
       let len = len * of_nat el in
       case buf of None \<Rightarrow> Inr st
       | Some b \<Rightarrow> rbind (read_mem (unat len) b) (\<lambda>bs. hc_buf_add st bs))"

text \<open>
  \<open>http_store\<close> sets \<open>store\<close>, \<open>conn\<close> and \<open>res\<close> of the allocated structure; \<open>len\<close> and \<open>pos\<close>
  keep what the allocator left there, here the arguments \<open>len0\<close> and \<open>pos0\<close>.
\<close>

definition http_store :: "bool \<Rightarrow> 64 word \<Rightarrow> 64 word \<Rightarrow> sock \<Rightarrow> sexp \<Rightarrow> fault + int \<times> sock" where
  "http_store allocated len0 pos0 s x =
     (if \<not> allocated then Inr (- 1, s)
      else
        rbind (sfs_store hc_add \<lparr>conn = s, res = 0, hlen = len0, pos = pos0, hbuf = uninit HC_CAP\<rparr> x) (\<lambda>st.
        rbind (if res st = 0 \<and> pos st \<noteq> 0 then
                 rbind (read_cells (unat (pos st)) (hbuf st)) (\<lambda>bs.
                   let (r, c) = http_send_chunk bs (conn st) in Inr (st\<lparr>conn := c, res := r\<rparr>))
               else Inr st) (\<lambda>st.
        if res st = 0 then Inr (http_send_chunk [] (conn st)) else Inr (res st, conn st))))"

subsection \<open>With the fields initialised\<close>

text \<open>What always holds when the position started at zero: everything before it is written, and what
  was sent is a sequence of whole chunks. \<open>hc_good\<close> adds that the length field was set to its size.\<close>

definition hc_sound :: "string \<Rightarrow> hc_store \<Rightarrow> bool" where
  "hc_sound base st \<longleftrightarrow>
     res st = 0 \<and> unat (pos st) \<le> HC_CAP \<and> length (hbuf st) = HC_CAP \<and> None \<notin> set (take (unat (pos st)) (hbuf st)) \<and>
     accepts 1 (conn st) \<and> (\<exists>sent. tx (conn st) = base @ sent \<and> snd (dechunk sent) = [])"

definition hc_good :: "string \<Rightarrow> hc_store \<Rightarrow> bool" where
  "hc_good base st \<longleftrightarrow> hc_sound base st \<and> hlen st = of_nat MAX_CHUNK_SIZE \<and> unat (pos st) \<le> MAX_CHUNK_SIZE"

definition hc_pending :: "hc_store \<Rightarrow> string" where
  "hc_pending st = map the (take (unat (pos st)) (hbuf st))"

definition hc_out :: "string \<Rightarrow> hc_store \<Rightarrow> string" where
  "hc_out base st = fst (dechunk (drop (length base) (tx (conn st)))) @ hc_pending st"

lemma map_the_Some: "None \<notin> set cs \<Longrightarrow> cs = map Some (map the cs)"
  by (induction cs) auto

lemma hc_pending_read:
  "hc_sound base st \<Longrightarrow> read_cells (unat (pos st)) (hbuf st) = Inr (hc_pending st) \<and>
    length (hc_pending st) = unat (pos st)"
  by (simp add: hc_sound_def read_cells_def hc_pending_def HC_CAP_def)

text \<open>Sending a non-empty chunk appends its bytes to the decoded stream.\<close>

lemma hc_send:
  assumes "hc_sound base st" "c \<noteq> []"
  shows "\<exists>s'. http_send_chunk c (conn st) = (0, s') \<and> accepts 1 s' \<and>
    (\<exists>sent. tx s' = base @ sent \<and>
      dechunk sent = (fst (dechunk (drop (length base) (tx (conn st)))) @ c, []))"
proof -
  obtain sent where sent: "tx (conn st) = base @ sent" "snd (dechunk sent) = []"
    using assms(1) by (auto simp: hc_sound_def)
  obtain s' where s': "http_send_chunk c (conn st) = (0, s')" "accepts 1 s'"
      "tx s' = tx (conn st) @ chunk_bytes c"
    using http_send_chunk_accepts [of "conn st" c] assms by (auto simp: hc_sound_def)
  have "dechunk (sent @ chunk_bytes c) = (fst (dechunk sent) @ c, [])"
    using dechunk_append [of sent "fst (dechunk sent)" "chunk_bytes c"] sent(2)
      dechunk_chunk [OF assms(2), of "[]"] by (simp add: prod_eq_iff)
  with s' sent show ?thesis
    by (intro exI [of _ s']) simp
qed

lemma hc_room:
  "unat p \<le> MAX_CHUNK_SIZE \<Longrightarrow> unat (of_nat MAX_CHUNK_SIZE - p :: 64 word) = MAX_CHUNK_SIZE - unat p"
  by (subst unat_sub) (simp_all add: word_le_nat_alt MAX_CHUNK_SIZE_def)

lemma word_neq_0_unat: "w \<noteq> 0 \<longleftrightarrow> 0 < unat w"
  by (simp add: unat_gt_0)

lemma hc_flush_ok:
  assumes "hc_sound base st" "pos st \<noteq> 0"
  shows "\<exists>st'. hc_flush st = Inr st' \<and> hc_sound base st' \<and> pos st' = 0 \<and> hlen st' = hlen st \<and> hc_out base st' = hc_out base st"
proof -
  have p: "hc_pending st \<noteq> []"
    using hc_pending_read [OF assms(1)] assms(2) by (auto simp: unat_eq_0)
  obtain s' sent where s': "http_send_chunk (hc_pending st) (conn st) = (0, s')" "accepts 1 s'"
      "tx s' = base @ sent"
      "dechunk sent = (fst (dechunk (drop (length base) (tx (conn st)))) @ hc_pending st, [])"
    using hc_send [OF assms(1) p] by blast
  let ?st = "st\<lparr>conn := s', res := 0, pos := 0\<rparr>"
  have "hc_flush st = Inr ?st"
    using hc_pending_read [OF assms(1)] s'(1) by (simp add: hc_flush_def)
  moreover have "hc_sound base ?st"
    using assms(1) s' by (simp add: hc_sound_def)
  moreover have "hc_out base ?st = hc_out base st"
    using s' by (simp add: hc_out_def hc_pending_def)
  ultimately show ?thesis
    by (intro exI [of _ ?st]) simp
qed

lemma hc_copy:
  assumes st: "hc_sound base st" and fits: "unat (pos st) + length what \<le> HC_CAP"
  defines "st' \<equiv> st\<lparr>hbuf := overwrite (unat (pos st)) (map Some what) (hbuf st),
      pos := pos st + of_nat (length what)\<rparr>"
  shows "hc_sound base st' \<and> hc_out base st' = hc_out base st @ what \<and>
    unat (pos st') = unat (pos st) + length what"
proof -
  have l: "unat (of_nat (length what) :: 64 word) = length what"
    using fits by (intro unat_len_ok) (simp add: len_ok_def HC_CAP_def MAX_CHUNK_SIZE_def)
  have u: "unat (pos st + of_nat (length what)) = unat (pos st) + length what"
    using fits l by (subst unat_add_lem [THEN iffD1]) (simp_all add: HC_CAP_def MAX_CHUNK_SIZE_def)
  have b: "length (hbuf st) = HC_CAP"
    using st by (simp add: hc_sound_def)
  have "take (unat (pos st) + length what) (overwrite (unat (pos st)) (map Some what) (hbuf st)) =
      take (unat (pos st)) (hbuf st) @ map Some what"
    using b fits by (simp add: overwrite_def)
  then show ?thesis
    using st fits u b by (auto simp: st'_def hc_sound_def hc_out_def hc_pending_def)
qed

text \<open>The second half of \<open>hc_buf_add\<close>: bytes are sent at once or copied behind the pending ones.\<close>

definition hc_place :: "string \<Rightarrow> hc_store \<Rightarrow> fault + hc_store" where
  "hc_place what st =
     (if res st \<noteq> 0 then Inr st
      else if pos st = 0 \<and> MIN_INPLACE_SIZE \<le> length what then
        (let (r, c) = http_send_chunk what (conn st) in Inr (st\<lparr>conn := c, res := r\<rparr>))
      else if HC_CAP < unat (pos st) + length what then Inl (Undefined OutOfBounds)
      else Inr (st\<lparr>hbuf := overwrite (unat (pos st)) (map Some what) (hbuf st), pos := pos st + of_nat (length what)\<rparr>))"

definition hc_full :: "string \<Rightarrow> hc_store \<Rightarrow> bool" where
  "hc_full what st \<longleftrightarrow> hlen st - pos st < of_nat (length what) \<and> (MIN_INPLACE_SIZE \<le> unat (pos st) \<or> MIN_INPLACE_SIZE \<le> length what)"

lemma hc_buf_add_place:
  assumes "res st = 0" and len: "length what < 2 ^ 64"
  shows "hc_buf_add st what = rbind (if hc_full what st then hc_flush st else Inr st) (hc_place what)"
proof -
  have l: "unat (of_nat (length what) :: 64 word) = length what" "unat (of_nat MIN_INPLACE_SIZE :: 64 word) = MIN_INPLACE_SIZE"
    using len by (simp_all add: unat_of_nat take_bit_nat_eq_self_iff MIN_INPLACE_SIZE_def)
  have min: "(of_nat MIN_INPLACE_SIZE \<le> pos st) = (MIN_INPLACE_SIZE \<le> unat (pos st))"
    "((of_nat MIN_INPLACE_SIZE :: 64 word) \<le> of_nat (length what)) = (MIN_INPLACE_SIZE \<le> length what)"
    using l by (simp_all add: word_le_nat_alt)
  show ?thesis
    unfolding hc_buf_add_def hc_place_def [abs_def] hc_full_def Let_def min by (simp add: assms(1))
qed

lemma hc_full_good:
  assumes "hc_good base st" "length what < 2 ^ 64"
  shows "hc_full what st = (MAX_CHUNK_SIZE < unat (pos st) + length what \<and> (MIN_INPLACE_SIZE \<le> unat (pos st) \<or> MIN_INPLACE_SIZE \<le> length what))"
proof -
  have "unat (of_nat (length what) :: 64 word) = length what"
    using assms(2) by (simp add: unat_of_nat take_bit_nat_eq_self_iff)
  then show ?thesis
    using assms(1) hc_room [of "pos st"] by (simp add: hc_full_def hc_good_def word_less_nat_alt less_diff_conv2 add.commute)
qed

text \<open>Every way of adding bytes adds them to the stream, or runs over the end of the buffer; not
  when the length field is right, and not as long as everything stored so far fits.\<close>

definition hc_added :: "string \<Rightarrow> hc_store \<Rightarrow> string \<Rightarrow> hc_store \<Rightarrow> bool" where
  "hc_added base st what st' \<longleftrightarrow> hc_sound base st' \<and> hc_out base st' = hc_out base st @ what \<and> (hc_good base st \<longrightarrow> hc_good base st')"

definition hc_over :: "string \<Rightarrow> hc_store \<Rightarrow> string \<Rightarrow> fault \<Rightarrow> bool" where
  "hc_over base st what f \<longleftrightarrow> f = Undefined OutOfBounds \<and> \<not> hc_good base st \<and> MAX_CHUNK_SIZE < length (hc_out base st @ what)"

lemma hc_place_ok:
  assumes st: "hc_sound base st" and small: "pos st = 0 \<or> unat (pos st) + length what \<le> HC_CAP"
  shows "\<exists>st'. hc_place what st = Inr st' \<and> hc_sound base st' \<and> hc_out base st' = hc_out base st @ what \<and> hlen st' = hlen st \<and>
    (length what < MIN_INPLACE_SIZE \<longrightarrow> what \<noteq> [] \<longrightarrow> pos st' \<noteq> 0) \<and>
    (pos st = 0 \<and> MIN_INPLACE_SIZE \<le> length what \<and> pos st' = 0 \<or> unat (pos st') = unat (pos st) + length what)"
proof (cases "pos st = 0 \<and> MIN_INPLACE_SIZE \<le> length what")
  case True
  then have "what \<noteq> []"
    by (auto simp: MIN_INPLACE_SIZE_def)
  from hc_send [OF st this] obtain s' sent where s': "http_send_chunk what (conn st) = (0, s')" "accepts 1 s'"
      "tx s' = base @ sent" "dechunk sent = (fst (dechunk (drop (length base) (tx (conn st)))) @ what, [])"
    by blast
  have "hc_place what st = Inr (st\<lparr>conn := s', res := 0\<rparr>)"
    using True st s'(1) by (simp add: hc_place_def hc_sound_def)
  moreover have "hc_sound base (st\<lparr>conn := s', res := 0\<rparr>)"
    using st s' by (simp add: hc_sound_def)
  moreover have "hc_out base (st\<lparr>conn := s', res := 0\<rparr>) = hc_out base st @ what"
    using s' True by (simp add: hc_out_def hc_pending_def)
  ultimately show ?thesis
    using True by (intro exI [of _ "st\<lparr>conn := s', res := 0\<rparr>"]) simp
next
  case False
  then have fits: "unat (pos st) + length what \<le> HC_CAP"
    using small by (auto simp: HC_CAP_def MAX_CHUNK_SIZE_def MIN_INPLACE_SIZE_def)
  have "hc_place what st = Inr (st\<lparr>hbuf := overwrite (unat (pos st)) (map Some what) (hbuf st), pos := pos st + of_nat (length what)\<rparr>)"
    unfolding hc_place_def if_not_P [OF False] using fits st by (simp add: hc_sound_def)
  with hc_copy [OF st fits] show ?thesis
    by (intro exI [of _ "st\<lparr>hbuf := overwrite (unat (pos st)) (map Some what) (hbuf st), pos := pos st + of_nat (length what)\<rparr>"])
      (simp add: word_neq_0_unat)
qed

lemma hc_pos_out: "hc_sound base st \<Longrightarrow> unat (pos st) \<le> length (hc_out base st)"
  using hc_pending_read [of base st] by (simp add: hc_out_def)

lemma hc_buf_add_ok:
  assumes st: "hc_sound base st" and small: "length what < MIN_INPLACE_SIZE \<or> pos st \<noteq> 0" and len: "length what < 2 ^ 64"
  shows "run_ok (hc_over base st what) (\<lambda>st'. hc_added base st what st' \<and> (length what < MIN_INPLACE_SIZE \<longrightarrow> what \<noteq> [] \<longrightarrow> pos st' \<noteq> 0))
    (hc_buf_add st what)"
proof -
  have "res st = 0"
    using st by (simp add: hc_sound_def)
  note place = hc_buf_add_place [OF this len]
  show ?thesis
  proof (cases "hc_full what st")
    case True
    then have "pos st \<noteq> 0"
      using small by (auto simp: hc_full_def MIN_INPLACE_SIZE_def)
    then obtain st1 where st1: "hc_flush st = Inr st1" "hc_sound base st1" "pos st1 = 0" "hlen st1 = hlen st" "hc_out base st1 = hc_out base st"
      using hc_flush_ok [OF st] by blast
    obtain st2 where st2: "hc_place what st1 = Inr st2" "hc_sound base st2" "hc_out base st2 = hc_out base st1 @ what" "hlen st2 = hlen st1"
        "length what < MIN_INPLACE_SIZE \<longrightarrow> what \<noteq> [] \<longrightarrow> pos st2 \<noteq> 0"
        "MIN_INPLACE_SIZE \<le> length what \<and> pos st2 = 0 \<or> unat (pos st2) = length what"
      using hc_place_ok [OF st1(2), of what] st1(3) by auto
    then have "unat (pos st2) \<le> MAX_CHUNK_SIZE \<or> MIN_INPLACE_SIZE \<le> length what \<and> unat (pos st2) = length what"
      by (auto simp: MIN_INPLACE_SIZE_def MAX_CHUNK_SIZE_def)
    moreover have "unat (pos st2) = 0" if "MIN_INPLACE_SIZE \<le> length what"
      using st2(1) that st1(2,3) by (auto simp: hc_place_def hc_sound_def split: prod.splits)
    ultimately show ?thesis
      using True st1 st2 by (auto simp: place hc_added_def hc_good_def MAX_CHUNK_SIZE_def)
  next
    case False
    have over: "hc_over base st what (Undefined OutOfBounds)" if "HC_CAP < unat (pos st) + length what"
      using that False hc_full_good [OF _ len, of base st] hc_pos_out [OF st]
      by (auto simp: hc_over_def HC_CAP_def MAX_CHUNK_SIZE_def MIN_INPLACE_SIZE_def)
    show ?thesis
    proof (cases "HC_CAP < unat (pos st) + length what")
      case True
      then have "hc_place what st = Inl (Undefined OutOfBounds)"
        using small st by (auto simp: hc_place_def hc_sound_def HC_CAP_def MAX_CHUNK_SIZE_def MIN_INPLACE_SIZE_def)
      then show ?thesis
        using False over [OF True] by (simp add: place)
    next
      case fits: False
      then obtain st2 where "hc_place what st = Inr st2" "hc_sound base st2" "hc_out base st2 = hc_out base st @ what" "hlen st2 = hlen st"
          "length what < MIN_INPLACE_SIZE \<longrightarrow> what \<noteq> [] \<longrightarrow> pos st2 \<noteq> 0"
          "pos st2 = 0 \<or> unat (pos st2) = unat (pos st) + length what"
        using hc_place_ok [OF st, of what] by auto
      moreover have "unat (pos st) + length what \<le> MAX_CHUNK_SIZE" if "hc_good base st"
        using False hc_full_good [OF that len] by (auto simp: MAX_CHUNK_SIZE_def MIN_INPLACE_SIZE_def)
      ultimately show ?thesis
        using False by (auto simp: place hc_added_def hc_good_def)
    qed
  qed
qed

lemma hc_add_ok:
  assumes st: "hc_sound base st" and fr: "frame_ok fr"
  shows "run_ok (hc_over base st (frame_bytes fr)) (hc_added base st (frame_bytes fr)) (emit_frame hc_add st fr)"
proof -
  obtain ts el len buf where f: "fr = (ts, el, len, buf)"
    by (cases fr)
  let ?h = "bytes64 (hdr_word ts len)"
  have h: "length ?h < MIN_INPLACE_SIZE" "?h \<noteq> []" "length ?h < 2 ^ 64"
    by (simp_all add: MIN_INPLACE_SIZE_def flip: length_0_conv)
  have head: "run_ok (hc_over base st (frame_bytes fr)) (\<lambda>st'. hc_added base st ?h st' \<and> pos st' \<noteq> 0) (hc_buf_add st ?h)"
    by (rule run_ok_mono [OF hc_buf_add_ok [OF st _ h(3)]]) (use h in \<open>auto simp: hc_over_def f\<close>)
  show ?thesis
  proof (cases buf)
    case None
    then show ?thesis
      using run_ok_mono [OF head] by (simp add: f hc_add_def)
  next
    case (Some b)
    have l: "unat (len * of_nat el) = length b"
      using frame_len [of ts el len b] fr Some f by simp
    then have b: "length b < 2 ^ 64"
      using unsigned_less [of "len * of_nat el", where ?'a = nat] by simp
    show ?thesis
      unfolding f Some emit_frame_eq hc_add_def
    proof (rule run_ok_rbind [OF head [unfolded f Some]])
      fix st1 assume st1: "hc_added base st ?h st1 \<and> pos st1 \<noteq> 0"
      then have "run_ok (hc_over base st1 b) (\<lambda>st'. hc_added base st1 b st' \<and> (length b < MIN_INPLACE_SIZE \<longrightarrow> b \<noteq> [] \<longrightarrow> pos st' \<noteq> 0)) (hc_buf_add st1 b)"
        by (intro hc_buf_add_ok b) (auto simp: hc_added_def)
      then have "run_ok (hc_over base st (frame_bytes (ts, el, len, Some b))) (hc_added base st (frame_bytes (ts, el, len, Some b))) (hc_buf_add st1 b)"
        by (rule run_ok_mono) (use st1 in \<open>auto simp: hc_over_def hc_added_def\<close>)
      then show "run_ok (hc_over base st (frame_bytes (ts, el, len, Some b))) (hc_added base st (frame_bytes (ts, el, len, Some b)))
          (let len = len * of_nat el in case Some b of None \<Rightarrow> Inr st1 | Some b \<Rightarrow> rbind (read_mem (unat len) b) (hc_buf_add st1))"
        using l by (simp add: read_mem_def)
    qed
  qed
qed

interpretation hc: store_api hc_add "hc_out base" "\<lambda>st. hc_good base st" for base
proof
  fix st ts el len buf
  assume st: "hc_good base st" and fr: "frame_ok (ts, el, len, buf)"
  then have "hc_sound base st"
    by (simp add: hc_good_def)
  from hc_add_ok [OF this fr] st show "\<exists>st'. hc_add st ts el len buf = Inr st' \<and> hc_good base st' \<and>
      hc_out base st' = hc_out base st @ frame_bytes (ts, el, len, buf)"
    by (cases "hc_add st ts el len buf") (auto simp: hc_over_def hc_added_def)
qed

text \<open>The whole stream.\<close>

lemma hc_frames_ok:
  "hc_sound base st \<Longrightarrow> list_all frame_ok frs \<Longrightarrow>
    run_ok (hc_over base st (concat (map frame_bytes frs))) (hc_added base st (concat (map frame_bytes frs))) (foldr_m (emit_frame hc_add) st frs)"
proof (induction frs arbitrary: st)
  case (Cons fr frs)
  let ?bs = "concat (map frame_bytes frs)"
  have "run_ok (hc_over base st (frame_bytes fr @ ?bs)) (hc_added base st (frame_bytes fr)) (emit_frame hc_add st fr)"
    using Cons.prems by (intro run_ok_mono [OF hc_add_ok]) (auto simp: hc_over_def)
  then have "run_ok (hc_over base st (frame_bytes fr @ ?bs)) (hc_added base st (frame_bytes fr @ ?bs))
    (rbind (emit_frame hc_add st fr) (\<lambda>st. foldr_m (emit_frame hc_add) st frs))"
  proof (rule run_ok_rbind)
    fix st1 assume st1: "hc_added base st (frame_bytes fr) st1"
    then have "run_ok (hc_over base st1 ?bs) (hc_added base st1 ?bs) (foldr_m (emit_frame hc_add) st1 frs)"
      using Cons.prems by (intro Cons.IH) (auto simp: hc_added_def)
    then show "run_ok (hc_over base st (frame_bytes fr @ ?bs)) (hc_added base st (frame_bytes fr @ ?bs)) (foldr_m (emit_frame hc_add) st1 frs)"
      by (rule run_ok_mono) (use st1 in \<open>auto simp: hc_over_def hc_added_def\<close>)
  qed
  then show ?case
    by simp
qed (simp add: hc_added_def)

lemma hc_store_ok:
  assumes "hc_sound base st" "wf_sexp x"
  shows "run_ok (hc_over base st (wire x)) (hc_added base st (wire x)) (sfs_store hc_add st x)"
  using hc_frames_ok [OF assms(1) frames_ok [OF assms(2)]] by (simp add: store_frames [OF assms(2)] wire_def)

text \<open>The end of \<open>http_store\<close>: the last flush and the terminating chunk.\<close>

lemma hc_end:
  assumes st: "hc_sound base st"
  shows "\<exists>s' sent. rbind (if res st = 0 \<and> pos st \<noteq> 0 then
       rbind (read_cells (unat (pos st)) (hbuf st)) (\<lambda>bs.
         let (r, c) = http_send_chunk bs (conn st) in Inr (st\<lparr>conn := c, res := r\<rparr>))
     else Inr st) (\<lambda>st. if res st = 0 then Inr (http_send_chunk [] (conn st)) else Inr (res st, conn st)) = Inr (0, s') \<and>
    tx s' = base @ sent \<and> dechunk sent = (hc_out base st, last_chunk)"
proof -
  have r: "res st = 0"
    using st by (simp add: hc_sound_def)
  obtain st1 where st1: "hc_sound base st1" "hc_pending st1 = []" "hc_out base st1 = hc_out base st"
    "(if res st = 0 \<and> pos st \<noteq> 0 then
       rbind (read_cells (unat (pos st)) (hbuf st)) (\<lambda>bs.
         let (r, c) = http_send_chunk bs (conn st) in Inr (st\<lparr>conn := c, res := r\<rparr>))
      else Inr st) = Inr (st1\<lparr>pos := pos st\<rparr>)"
  proof (cases "pos st = 0")
    case True
    then show ?thesis using that [of st] st by (simp add: hc_pending_def)
  next
    case False
    obtain st' where st': "hc_flush st = Inr st'" "hc_sound base st'" "pos st' = 0" "hc_out base st' = hc_out base st"
      using hc_flush_ok [OF st False] by auto
    obtain r c where rc: "http_send_chunk (hc_pending st) (conn st) = (r, c)"
      by (cases "http_send_chunk (hc_pending st) (conn st)")
    have "st' = st\<lparr>conn := c, res := 0, pos := 0\<rparr>" "r = 0"
      using st'(1,2) hc_pending_read [OF st] rc by (auto simp: hc_flush_def hc_sound_def split: if_splits)
    then show ?thesis
      using that [of st'] st' hc_pending_read [OF st] rc False r by (auto simp: hc_pending_def)
  qed
  obtain sent where sent: "tx (conn st1) = base @ sent" "dechunk sent = (hc_out base st, [])"
    using st1(1-3) by (auto simp: hc_sound_def hc_out_def prod_eq_iff)
  obtain s' where s': "http_send_chunk [] (conn st1) = (0, s')" "tx s' = tx (conn st1) @ last_chunk"
    using http_send_chunk_accepts [of "conn st1" "[]"] st1(1) by (auto simp: hc_sound_def)
  have "res st1 = 0"
    using st1(1) by (simp add: hc_sound_def)
  moreover have "dechunk (sent @ last_chunk) = (hc_out base st, last_chunk)"
    using dechunk_append [OF sent(2), of last_chunk] dechunk_last by simp
  ultimately show ?thesis
    unfolding st1(4) using s' sent(1) by (intro exI [of _ s'] exI [of _ "sent @ last_chunk"]) simp
qed

subsection \<open>With a position that is not zero\<close>

text \<open>The faults of \<open>http_store\<close>.\<close>

definition mem_fault :: "fault \<Rightarrow> bool" where
  "mem_fault f \<longleftrightarrow> f = Undefined OutOfBounds \<or> f = Undefined UninitRead"

lemma mem_fault_simps [simp]: "mem_fault (Undefined u) = (u = OutOfBounds \<or> u = UninitRead)" "\<not> mem_fault (RError e)" "\<not> mem_fault OutOfFuel"
  by (auto simp: mem_fault_def)

lemma read_mem_faults [simp]: "run_ok mem_fault (\<lambda>_. True) (read_cells n m)" "run_ok mem_fault (\<lambda>_. True) (read_mem n b)"
  by (simp_all add: read_cells_def read_mem_def)

text \<open>The first byte of the buffer is then never written, and reading it is a fault.\<close>

definition hc_hole :: "hc_store \<Rightarrow> bool" where
  "hc_hole st \<longleftrightarrow> res st = 0 \<and> pos st \<noteq> 0 \<and> length (hbuf st) = HC_CAP \<and> hd (hbuf st) = None"

lemma hc_hole_read:
  assumes "hc_hole st"
  shows "\<exists>f. read_cells (unat (pos st)) (hbuf st) = Inl f \<and> mem_fault f"
proof -
  have "None \<in> set (take (unat (pos st)) (hbuf st))"
    using assms by (cases "hbuf st"; cases "unat (pos st)") (auto simp: hc_hole_def HC_CAP_def unat_eq_0)
  then show ?thesis
    by (auto simp: read_cells_def)
qed

lemma hc_hole_buf_add:
  assumes st: "hc_hole st" and len: "length what < 2 ^ 64"
  shows "run_ok mem_fault hc_hole (hc_buf_add st what)"
proof -
  have r: "res st = 0" "pos st \<noteq> 0"
    using st by (simp_all add: hc_hole_def)
  obtain f where f: "read_cells (unat (pos st)) (hbuf st) = Inl f" "mem_fault f"
    using hc_hole_read [OF st] by blast
  have "hc_hole (st\<lparr>hbuf := overwrite (unat (pos st)) (map Some what) (hbuf st), pos := pos st + of_nat (length what)\<rparr>)"
    if fits: "\<not> HC_CAP < unat (pos st) + length what"
  proof -
    have l: "unat (of_nat (length what) :: 64 word) = length what"
      using len by (simp add: unat_of_nat take_bit_nat_eq_self_iff)
    have "unat (pos st + of_nat (length what)) = unat (pos st) + length what"
      using fits l by (subst unat_add_lem [THEN iffD1]) (simp_all add: HC_CAP_def MAX_CHUNK_SIZE_def)
    then have "pos st + of_nat (length what) \<noteq> 0"
      using r(2) by (auto simp: word_neq_0_unat)
    moreover have "hd (overwrite (unat (pos st)) (map Some what) (hbuf st)) = None"
      using st fits r(2) by (cases "hbuf st"; cases "unat (pos st)") (auto simp: hc_hole_def overwrite_def HC_CAP_def unat_eq_0)
    ultimately show ?thesis
      using st fits by (simp add: hc_hole_def)
  qed
  then show ?thesis
    using r f by (simp add: hc_buf_add_place [OF r(1) len] hc_flush_def hc_place_def st)
qed

lemma hc_hole_frame:
  assumes st: "hc_hole st" and fr: "frame_ok fr"
  shows "run_ok mem_fault hc_hole (emit_frame hc_add st fr)"
proof -
  obtain ts el len buf where f: "fr = (ts, el, len, buf)"
    by (cases fr)
  have "length b < 2 ^ 64" "unat (len * of_nat el) = length b" if "buf = Some b" for b
    using frame_len [of ts el len b] fr f that unsigned_less [of "len * of_nat el", where ?'a = nat] by simp_all
  then show ?thesis
    unfolding f emit_frame_eq hc_add_def
    by (intro run_ok_rbind [OF hc_hole_buf_add [OF st]]) (auto simp: read_mem_def hc_hole_buf_add split: option.split)
qed

text \<open>Invariants of a back end on the frames of a value.\<close>

lemma frames_keep:
  assumes "\<And>st fr. I st \<Longrightarrow> frame_ok fr \<Longrightarrow> run_ok bad I (emit_frame api st fr)"
  shows "I st \<Longrightarrow> list_all frame_ok frs \<Longrightarrow> run_ok bad I (foldr_m (emit_frame api) st frs)"
  by (induction frs arbitrary: st) (auto intro!: run_ok_rbind [OF assms])

lemma store_keeps_wf:
  assumes "\<And>st fr. I st \<Longrightarrow> frame_ok fr \<Longrightarrow> run_ok bad I (emit_frame api st fr)" "I st" "wf_sexp x"
  shows "run_ok bad I (sfs_store api st x)"
  using frames_keep [of I bad api, OF assms(1,2) frames_ok [OF assms(3)]] by (simp add: store_frames [OF assms(3)])

text \<open>All together: whatever is in the fields at the start, the result is the stream, or a fault.\<close>

text \<open>How \<open>http_store\<close> can fail: with a position other than zero, or with a length other than the size
  of the buffer and a stream that does not fit it, it touches bytes that were not written or that
  are not there.\<close>

definition chunk_fault :: "64 word \<Rightarrow> 64 word \<Rightarrow> sexp \<Rightarrow> fault \<Rightarrow> bool" where
  "chunk_fault len0 pos0 x f \<longleftrightarrow>
     mem_fault f \<and> (pos0 \<noteq> 0 \<or> len0 \<noteq> of_nat MAX_CHUNK_SIZE \<and> MAX_CHUNK_SIZE < length (wire x))"

lemma http_store_any:
  assumes s: "accepts 1 s" and x: "wf_sexp x"
  shows "run_ok (chunk_fault len0 pos0 x)
    (\<lambda>(r, s'). pos0 = 0 \<and> r = 0 \<and> (\<exists>sent. tx s' = tx s @ sent \<and> dechunk sent = (wire x, last_chunk))) (http_store True len0 pos0 s x)"
proof -
  let ?st0 = "\<lparr>conn = s, res = 0, hlen = len0, pos = pos0, hbuf = uninit HC_CAP\<rparr>"
  show ?thesis
  proof (cases "pos0 = 0")
    case True
    have init: "hc_sound (tx s) ?st0" "hc_out (tx s) ?st0 = []" "len0 = of_nat MAX_CHUNK_SIZE \<Longrightarrow> hc_good (tx s) ?st0"
      using s True by (auto simp: hc_sound_def hc_good_def hc_out_def hc_pending_def)
    show ?thesis
      unfolding http_store_def not_True_eq_False if_False
    proof (rule run_ok_rbind [OF run_ok_mono [OF hc_store_ok [OF init(1) x]]])
      fix f assume "hc_over (tx s) ?st0 (wire x) f"
      then show "chunk_fault len0 pos0 x f"
        using init True by (auto simp: chunk_fault_def hc_over_def)
    next
      fix st assume "hc_added (tx s) ?st0 (wire x) st"
      then have "hc_sound (tx s) st" "hc_out (tx s) st = wire x"
        using init(2) by (simp_all add: hc_added_def)
      from hc_end [OF this(1)] this(2) True show "run_ok (chunk_fault len0 pos0 x)
        (\<lambda>(r, s'). pos0 = 0 \<and> r = 0 \<and> (\<exists>sent. tx s' = tx s @ sent \<and> dechunk sent = (wire x, last_chunk)))
        (rbind (if res st = 0 \<and> pos st \<noteq> 0 then rbind (read_cells (unat (pos st)) (hbuf st)) (\<lambda>bs.
           let (r, c) = http_send_chunk bs (conn st) in Inr (st\<lparr>conn := c, res := r\<rparr>)) else Inr st)
          (\<lambda>st. if res st = 0 then Inr (http_send_chunk [] (conn st)) else Inr (res st, conn st)))"
        by (elim exE conjE) (simp only: run_ok_simps, auto)
    qed simp
  next
    case False
    have "hc_hole ?st0"
      using False by (simp add: hc_hole_def HC_CAP_def uninit_def MAX_CHUNK_SIZE_def)
    from store_keeps_wf [of hc_hole mem_fault hc_add, OF hc_hole_frame this x]
    have run: "run_ok mem_fault hc_hole (sfs_store hc_add ?st0 x)" .
    show ?thesis
      unfolding http_store_def not_True_eq_False if_False
    proof (rule run_ok_rbind [OF run_ok_mono [OF run]])
      fix st assume st: "hc_hole st"
      then obtain f where "read_cells (unat (pos st)) (hbuf st) = Inl f" "mem_fault f"
        using hc_hole_read by blast
      with st False show "run_ok (chunk_fault len0 pos0 x)
        (\<lambda>(r, s'). pos0 = 0 \<and> r = 0 \<and> (\<exists>sent. tx s' = tx s @ sent \<and> dechunk sent = (wire x, last_chunk)))
        (rbind (if res st = 0 \<and> pos st \<noteq> 0 then rbind (read_cells (unat (pos st)) (hbuf st)) (\<lambda>bs.
           let (r, c) = http_send_chunk bs (conn st) in Inr (st\<lparr>conn := c, res := r\<rparr>)) else Inr st)
          (\<lambda>st. if res st = 0 then Inr (http_send_chunk [] (conn st)) else Inr (res st, conn st)))"
        by (simp add: hc_hole_def chunk_fault_def)
    qed (use False in \<open>simp_all add: chunk_fault_def\<close>)
  qed
qed

subsection \<open>With the fields as the allocator left them\<close>

lemma hc_plain_copy:
  assumes "res st = 0" "\<not> hlen st - pos st < of_nat (length what)"
    "\<not> (pos st = 0 \<and> of_nat MIN_INPLACE_SIZE \<le> (of_nat (length what) :: 64 word))"
  shows "hc_buf_add st what =
    (if HC_CAP < unat (pos st) + length what then Inl (Undefined OutOfBounds)
     else Inr (st\<lparr>hbuf := overwrite (unat (pos st)) (map Some what) (hbuf st), pos := pos st + of_nat (length what)\<rparr>))"
  using assms unfolding hc_buf_add_def Let_def by auto

lemma uninit_overflow:
  assumes len: "MAX_CHUNK_SIZE < length bs" "len_ok (length bs)"
  shows "http_store True 0 0 s (Sxp R_NilValue False (RawV bs)) = Inl (Undefined OutOfBounds)"
proof -
  let ?st = "\<lparr>conn = s, res = 0, hlen = 0, pos = 0, hbuf = uninit HC_CAP\<rparr>"
  let ?h = "bytes64 (hdr_word RAWSXP (of_nat (length bs)))"
  have l: "unat (of_nat (length bs) :: 64 word) = length bs"
    by (rule unat_len_ok [OF len(2)])
  have room: "\<not> hlen ?st - pos ?st < of_nat (length ?h) \<or> \<not> (of_nat MIN_INPLACE_SIZE \<le> pos ?st \<or> of_nat MIN_INPLACE_SIZE \<le> (of_nat (length ?h) :: 64 word))"
    by (simp add: MIN_INPLACE_SIZE_def)
  have h: "hc_buf_add ?st ?h = Inr (?st\<lparr>hbuf := overwrite 0 (map Some ?h) (uninit HC_CAP), pos := 8\<rparr>)"
    unfolding hc_buf_add_def Let_def by (simp add: MIN_INPLACE_SIZE_def HC_CAP_def MAX_CHUNK_SIZE_def)
  let ?st1 = "?st\<lparr>hbuf := overwrite 0 (map Some ?h) (uninit HC_CAP), pos := 8\<rparr>"
  have "\<not> hlen ?st1 - pos ?st1 < of_nat (length bs)"
    using len(2) l by (simp add: word_less_nat_alt len_ok_def)
  then have "hc_buf_add ?st1 bs = Inl (Undefined OutOfBounds)"
    using len(1) by (subst hc_plain_copy) (simp_all add: HC_CAP_def)
  then have "hc_add ?st RAWSXP 1 (of_nat (length bs)) (Some bs) = Inl (Undefined OutOfBounds)"
    using h l by (simp add: hc_add_def read_mem_def)
  then show ?thesis
    by (simp add: http_store_def sfs_store_def)
qed

subsection \<open>With any writes\<close>

text \<open>An invariant of the back end is kept by \<open>store\<close>; its own faults are undefined behaviour.\<close>

definition api_keeps :: "(fault \<Rightarrow> bool) \<Rightarrow> ('s \<Rightarrow> bool) \<Rightarrow> 's store_fn \<Rightarrow> bool" where
  "api_keeps bad I api \<longleftrightarrow> (\<forall>st ts el len buf. I st \<longrightarrow> run_ok bad I (api st ts el len buf))"

lemma api_keepsD: "api_keeps bad I api \<Longrightarrow> I st \<Longrightarrow> run_ok bad I (api st ts el len buf)"
  by (simp add: api_keeps_def)

lemma store_strings_keep: "api_keeps bad I api \<Longrightarrow> I st \<Longrightarrow> run_ok bad I (foldr_m (store_string api) st cs)"
  by (induction cs arbitrary: st) (auto simp: store_string_def Let_def api_keepsD intro!: run_ok_rbind [where R = I])

lemma store_keeps:
  assumes bad: "\<And>u. bad (Undefined u)"
  shows "api_keeps bad I api \<Longrightarrow> I st \<Longrightarrow> run_ok bad I (store api st x)"
    and "api_keeps bad I api \<Longrightarrow> I st \<Longrightarrow> run_ok bad I (store_body api st b)"
    and "api_keeps bad I api \<Longrightarrow> I st \<Longrightarrow> run_ok bad I (store_elts api st xs)"
    and "api_keeps bad I api \<Longrightarrow> I st \<Longrightarrow> run_ok bad I (store_cells api st c)"
  by (induction api st x and api st b and api st xs and api st c rule: store_store_body_store_elts_store_cells.induct)
    (auto intro!: run_ok_rbind_eq [where R = I] store_strings_keep simp: bad api_keepsD split: option.split)

lemma hc_add_input:
  assumes "same_input s (conn st)"
  shows "run_ok mem_fault (\<lambda>st. same_input s (conn st)) (hc_add st ts el len buf)"
proof -
  have chunk: "same_input s (snd (http_send_chunk c k))" if "same_input s k" for c k
    using that http_send_chunk_input [of c k] by (cases "http_send_chunk c k") (auto intro: same_input_trans)
  have flush: "run_ok mem_fault (\<lambda>st. same_input s (conn st)) (hc_flush st)" if "same_input s (conn st)" for st
    unfolding hc_flush_def
    by (rule run_ok_rbind [OF read_mem_faults(1)]) (use that chunk in \<open>auto simp: case_prod_beta' Let_def\<close>)
  have add: "run_ok mem_fault (\<lambda>st. same_input s (conn st)) (hc_buf_add st what)" if "same_input s (conn st)" for st what
    unfolding hc_buf_add_def Let_def
    using that by (auto simp: case_prod_beta' chunk intro!: run_ok_rbind [where R = "\<lambda>st. same_input s (conn st)"] flush)
  show ?thesis
    unfolding hc_add_def Let_def
    by (rule run_ok_rbind [OF add [OF assms]])
      (auto split: option.split intro!: run_ok_rbind [OF read_mem_faults(2)] add)
qed

text \<open>Whatever happens to the writes, \<open>http_store\<close> leaves what is to be received alone; with a
  well-formed value its faults are those of the buffer.\<close>

lemma http_store_after:
  assumes "\<And>st. same_input s (conn st) \<Longrightarrow> run_ok bad (\<lambda>st. same_input s (conn st)) (sfs_store hc_add st x)" "\<And>f. mem_fault f \<Longrightarrow> bad f"
  shows "run_ok bad (\<lambda>(r, s'). same_input s s') (http_store a len0 pos0 s x)"
proof -
  have chunk: "same_input s (snd (http_send_chunk c k))" if "same_input s k" for c k
    using that http_send_chunk_input [of c k] by (cases "http_send_chunk c k") (auto intro: same_input_trans)
  have read: "run_ok bad (\<lambda>_. True) (read_cells n m)" for n m
    by (rule run_ok_mono [OF read_mem_faults(1) assms(2)])
  show ?thesis
    unfolding http_store_def
    by (auto intro!: run_ok_rbind [where R = "\<lambda>st. same_input s (conn st)"] assms(1)
        run_ok_rbind [OF read] simp: chunk case_prod_beta' Let_def)
qed

lemma http_store_input: "run_ok any_fault (\<lambda>(r, s'). same_input s s') (http_store a len0 pos0 s x)"
proof (rule http_store_after)
  have "any_fault f" if "mem_fault f" for f
    using that by (auto simp: mem_fault_def)
  then show "mem_fault f \<Longrightarrow> any_fault f" for f .
  then have "api_keeps any_fault (\<lambda>st. same_input s (conn st)) hc_add"
    unfolding api_keeps_def by (blast intro: run_ok_mono [OF hc_add_input])
  then show "same_input s (conn st) \<Longrightarrow> run_ok any_fault (\<lambda>st. same_input s (conn st)) (sfs_store hc_add st x)" for st
    unfolding sfs_store_def by (intro store_keeps(1)) simp_all
qed

lemma http_store_input_wf: "wf_sexp x \<Longrightarrow> run_ok mem_fault (\<lambda>(r, s'). same_input s s') (http_store a len0 pos0 s x)"
  by (intro http_store_after store_keeps_wf) (auto simp: emit_frame_def intro: hc_add_input)

subsection \<open>Properties\<close>

text \<open>C13: \<open>http_store\<close> never sets the length and position of the structure it allocates. Whatever
  values they have, and however the peer cuts the writes, a result without undefined behaviour is
  right: a chunked body that decodes to exactly the wire form of the value and ends with the
  terminating chunk; buffering and the in-place path for large vectors do not show. The result is
  that body when the position happens to be zero and the length is the size of the buffer or the
  stream fits it; with any other position \<open>http_store\<close> reads bytes that were never written or runs
  over the end of the buffer.\<close>

theorem http_store_stream:
  assumes "accepts 1 s" "wf_sexp x"
  shows "case http_store True len0 pos0 s x of
      Inl f \<Rightarrow> chunk_fault len0 pos0 x f
    | Inr (r, s') \<Rightarrow> pos0 = 0 \<and> r = 0 \<and> (\<exists>sent. tx s' = tx s @ sent \<and> dechunk sent = (wire x, last_chunk))"
  using http_store_any [OF assms, of len0 pos0] by (simp only: run_ok_def)

theorem http_store_stream_witness:
  "\<exists>s' sent. http_store True 0 0 \<lparr>rx = [], tx = ''HTTP'', plan = [1, 2], errno = 0, is_open = True\<rparr>
      (Sxp R_NilValue False (IntV [1, 2, 3])) = Inr (0, s') \<and>
    tx s' = ''HTTP'' @ sent \<and> dechunk sent = (wire (Sxp R_NilValue False (IntV [1, 2, 3])), last_chunk)"
proof -
  let ?s = "\<lparr>rx = [], tx = ''HTTP'', plan = [1, 2], errno = 0, is_open = True\<rparr>" and ?x = "Sxp R_NilValue False (IntV [1, 2, 3])"
  have "accepts 1 ?s" "wf_sexp ?x" "length (wire ?x) \<le> MAX_CHUNK_SIZE"
    by (simp_all add: accepts_def len_ok_def wire_def MAX_CHUNK_SIZE_def)
  with http_store_stream [of ?s ?x 0 0] show ?thesis
    by (cases "http_store True 0 0 ?s ?x") (auto simp: chunk_fault_def)
qed

text \<open>\<open>http_store\<close> never sets the length and position fields of the structure it
  allocates. When the allocator hands out zeroed memory, any vector of more than 16 Mb is
  copied beyond the end of the buffer.\<close>

theorem http_store_uninit_overflow:
  assumes "MAX_CHUNK_SIZE < length bs" "len_ok (length bs)"
  shows "http_store True 0 0 s (Sxp R_NilValue False (RawV bs)) = Inl (Undefined OutOfBounds)"
  using assms by (rule uninit_overflow)

theorem http_store_uninit_overflow_witness:
  "http_store True 0 0 \<lparr>rx = [], tx = [], plan = [], errno = 0, is_open = True\<rparr>
    (Sxp R_NilValue False (RawV (replicate (Suc MAX_CHUNK_SIZE) nul))) = Inl (Undefined OutOfBounds)"
proof (rule http_store_uninit_overflow)
  show "MAX_CHUNK_SIZE < length (replicate (Suc MAX_CHUNK_SIZE) nul)"
    by (simp only: length_replicate lessI)
  show "len_ok (length (replicate (Suc MAX_CHUNK_SIZE) nul))"
    by (simp only: length_replicate) (simp add: len_ok_def MAX_CHUNK_SIZE_def)
qed

end
