(* ===== verification/EvQueue.thy ===== *)
theory EvQueue
  imports Heap
begin

text \<open>
  The event queue, src/evqueue.c, and its R interface, src/revq.c: a doubly linked list of
  entries owned by the queue, with removal at the head and insertion at either end.

  The functions run under the queue's mutex, so each is one step on the queue; the argument
  \<open>lock\<close> is whether \<open>pthread_mutex_lock\<close> succeeds.
\<close>

subsection \<open>Entries and the queue\<close>

text \<open>\<open>e->data\<close> is null, points to the storage inside the entry (from the field \<open>res\<close> on), or
  to a block of its own. \<open>e_store\<close> is that storage.\<close>

datatype ev_data = NoData | InStruct | Block nat

datatype ev_free_fn = EvFreeData | CustomFree nat

record ev_entry =
  e_data :: ev_data
  e_len :: "64 word"
  e_prev :: ptr
  e_next :: ptr
  e_free :: "ev_free_fn option"
  e_store :: "cell list"

record ev_mem =
  ents :: "ev_entry heap"
  blocks :: "string heap"

record ev_queue =
  qhead :: ptr
  qtail :: ptr
  qfd :: int

definition ev_queue_create :: "bool \<Rightarrow> bool \<Rightarrow> ev_queue option" where
  "ev_queue_create calloc_ok init_ok =
     (if \<not> calloc_ok then None
      else if \<not> init_ok then None
      else Some \<lparr>qhead = NULL, qtail = NULL, qfd = - 1\<rparr>)"

definition ev_queue_notify_fd :: "ev_queue option \<Rightarrow> int \<Rightarrow> int \<times> ev_queue option" where
  "ev_queue_notify_fd queue fd =
     (case queue of None \<Rightarrow> (- 1, None)
      | Some q \<Rightarrow> if qfd q = - 1 \<or> qfd q = fd then (0, Some (q\<lparr>qfd := fd\<rparr>)) else (1, Some q))"

subsection \<open>Operations\<close>

text \<open>The entry structure takes 48 bytes on LP64, the last 8 of them the field \<open>res\<close>; the
  size passed to \<open>calloc\<close> is a 64-bit sum.\<close>

definition SIZEOF_EV_ENTRY :: "64 word" where "SIZEOF_EV_ENTRY = 48"

definition ev_create :: "(nat \<Rightarrow> bool) \<Rightarrow> ev_data \<Rightarrow> 64 word \<Rightarrow> ev_free_fn option \<Rightarrow> ev_mem \<Rightarrow> ptr \<times> ev_mem" where
  "ev_create mok data len free_fn m =
     (let sz = SIZEOF_EV_ENTRY + (if data \<noteq> NoData \<or> len < 3 then 0 else len) in
      if \<not> mok (unat sz) then (NULL, m)
      else
        (let e = \<lparr>e_data = (if data = NoData \<and> 0 < len then InStruct else data), e_len = len,
                  e_prev = NULL, e_next = NULL, e_free = free_fn,
                  e_store = replicate (unat sz - 40) (Some nul)\<rparr>;
             (a, h) = new_rec e (ents m) in
         (Some a, m\<lparr>ents := h\<rparr>)))"

text \<open>\<open>ev_push\<close> returns the entry, the queue and the descriptors that got the one byte.\<close>

definition ev_push :: "bool \<Rightarrow> ev_queue \<Rightarrow> ptr \<Rightarrow> bool \<Rightarrow> ev_mem \<Rightarrow> fault + ptr \<times> int list \<times> ev_queue \<times> ev_mem" where
  "ev_push lock queue e front m =
     (if e = NULL then Inr (NULL, [], queue, m)
      else if \<not> lock then Inr (NULL, [], queue, m)
      else
        rbind
          (if qhead queue = NULL then Inr (queue\<lparr>qhead := e, qtail := e\<rparr>, m)
           else if front then
             rbind (assign (ents m) e (\<lambda>v. v\<lparr>e_next := qhead queue\<rparr>)) (\<lambda>h.
             rbind (assign h (qhead queue) (\<lambda>v. v\<lparr>e_prev := e\<rparr>)) (\<lambda>h.
             Inr (queue\<lparr>qhead := e\<rparr>, m\<lparr>ents := h\<rparr>)))
           else
             rbind (assign (ents m) e (\<lambda>v. v\<lparr>e_prev := qtail queue\<rparr>)) (\<lambda>h.
             rbind (assign h (qtail queue) (\<lambda>v. v\<lparr>e_next := e\<rparr>)) (\<lambda>h.
             Inr (queue\<lparr>qtail := e\<rparr>, m\<lparr>ents := h\<rparr>))))
          (\<lambda>(queue, m). Inr (e, (if qfd queue \<noteq> - 1 then [qfd queue] else []), queue, m)))"

definition ev_rm :: "ev_queue \<Rightarrow> ptr \<Rightarrow> ev_mem \<Rightarrow> fault + ev_queue \<times> ev_mem" where
  "ev_rm queue e m =
     rbind (deref (ents m) e) (\<lambda>v.
       let queue = (if e = qhead queue then queue\<lparr>qhead := e_next v\<rparr> else queue);
           queue = (if e = qtail queue then queue\<lparr>qtail := e_prev v\<rparr> else queue) in
       rbind (if e_next v \<noteq> NULL then assign (ents m) (e_next v) (\<lambda>w. w\<lparr>e_prev := e_prev v\<rparr>)
              else Inr (ents m)) (\<lambda>h.
       rbind (if e_prev v \<noteq> NULL then assign h (e_prev v) (\<lambda>w. w\<lparr>e_next := e_next v\<rparr>)
              else Inr h) (\<lambda>h.
       rbind (assign h e (\<lambda>w. w\<lparr>e_next := NULL, e_prev := NULL\<rparr>)) (\<lambda>h.
       Inr (queue, m\<lparr>ents := h\<rparr>)))))"

definition take_head :: "ev_queue \<Rightarrow> ev_mem \<Rightarrow> fault + ptr \<times> ev_queue \<times> ev_mem" where
  "take_head queue m =
     (if qhead queue \<noteq> NULL
      then rbind (ev_rm queue (qhead queue) m) (\<lambda>(q, m). Inr (qhead queue, q, m))
      else Inr (NULL, queue, m))"

definition ev_pop :: "bool \<Rightarrow> ev_queue \<Rightarrow> ev_mem \<Rightarrow> fault + ptr \<times> ev_queue \<times> ev_mem" where
  "ev_pop lock queue m = (if \<not> lock then Inr (NULL, queue, m) else take_head queue m)"

text \<open>
  \<open>ev_pop_wait\<close> gives the mutex up in \<open>pthread_cond_timedwait\<close>. Each wake carries what it
  finds on return: whether the wait timed out, and the queue and the entries as the other
  threads left them. When the script ends the clock runs out with nothing changed. The
  computation of the absolute time from a double is left out.
\<close>

type_synonym wake = "bool \<times> ev_queue \<times> ev_mem"

primrec wait_loop :: "wake list \<Rightarrow> ev_queue \<Rightarrow> ev_mem \<Rightarrow> ev_queue \<times> ev_mem" where
  "wait_loop [] q m = (q, m)"
| "wait_loop (w # ws) q m =
     (if qhead q \<noteq> NULL then (q, m)
      else (case w of (timedout, q, m) \<Rightarrow> if timedout then (q, m) else wait_loop ws q m))"

definition ev_pop_wait :: "bool \<Rightarrow> wake list \<Rightarrow> ev_queue \<Rightarrow> ev_mem \<Rightarrow> fault + ptr \<times> ev_queue \<times> ev_mem" where
  "ev_pop_wait lock ws queue m =
     (if \<not> lock then Inr (NULL, queue, m) else (let (q, m) = wait_loop ws queue m in take_head q m))"

definition ev_free_data :: "ptr \<Rightarrow> ev_mem \<Rightarrow> fault + ev_mem" where
  "ev_free_data e m =
     (if e = NULL then Inr m
      else rbind (deref (ents m) e) (\<lambda>v.
        case e_data v of
          NoData \<Rightarrow> Inr m
        | InStruct \<Rightarrow> Inl (Undefined UseAfterFree)
        | Block b \<Rightarrow> rbind (free_rec (Some b) (blocks m)) (\<lambda>bl. Inr (m\<lparr>blocks := bl\<rparr>))))"

text \<open>A free function other than \<open>ev_free_data\<close> belongs to the client: \<open>custom\<close>.\<close>

definition ev_free :: "(nat \<Rightarrow> ptr \<Rightarrow> ev_mem \<Rightarrow> fault + ev_mem) \<Rightarrow> ptr \<Rightarrow> ev_mem \<Rightarrow> fault + ev_mem" where
  "ev_free custom e m =
     rbind (deref (ents m) e) (\<lambda>v.
     rbind (if e_data v \<noteq> NoData \<and> e_data v \<noteq> InStruct then
              (case e_free v of None \<Rightarrow> Inr m
               | Some EvFreeData \<Rightarrow> ev_free_data e m
               | Some (CustomFree i) \<Rightarrow> custom i e m)
            else Inr m) (\<lambda>m.
     rbind (free_rec e (ents m)) (\<lambda>h. Inr (m\<lparr>ents := h\<rparr>))))"

text \<open>Writing to and reading \<open>n\<close> bytes at \<open>e->data\<close>.\<close>

definition write_data :: "ptr \<Rightarrow> string \<Rightarrow> ev_mem \<Rightarrow> fault + ev_mem" where
  "write_data e bs m =
     rbind (deref (ents m) e) (\<lambda>v.
       case e_data v of
         NoData \<Rightarrow> if bs = [] then Inr m else Inl (Undefined NullDeref)
       | InStruct \<Rightarrow>
           if length (e_store v) < length bs then Inl (Undefined OutOfBounds)
           else rbind (assign (ents m) e (\<lambda>v. v\<lparr>e_store := overwrite 0 (map Some bs) (e_store v)\<rparr>))
             (\<lambda>h. Inr (m\<lparr>ents := h\<rparr>))
       | Block b \<Rightarrow>
           rbind (deref (blocks m) (Some b)) (\<lambda>c.
           if length c < length bs then Inl (Undefined OutOfBounds)
           else rbind (assign (blocks m) (Some b) (overwrite 0 bs)) (\<lambda>bl. Inr (m\<lparr>blocks := bl\<rparr>))))"

definition read_data :: "ptr \<Rightarrow> nat \<Rightarrow> ev_mem \<Rightarrow> fault + string" where
  "read_data e n m =
     rbind (deref (ents m) e) (\<lambda>v.
       case e_data v of
         NoData \<Rightarrow> if n = 0 then Inr [] else Inl (Undefined NullDeref)
       | InStruct \<Rightarrow> read_cells n (e_store v)
       | Block b \<Rightarrow> rbind (deref (blocks m) (Some b)) (read_mem n))"

subsection \<open>The R interface, src/revq.c\<close>

text \<open>A popped event is R's \<open>NULL\<close>, an external pointer to the entry, or a raw vector. The
  external pointer that guards the entry while its bytes are copied is emptied at the end;
  when R fails to allocate the vector the entry stays with that pointer and its finalizer.\<close>

datatype evq_value = EvNull | EvRef ptr | EvRaw string

datatype evq_arg = ArgRef ptr | ArgRaw string | ArgOther

definition eventry_R_free :: "(nat \<Rightarrow> ptr \<Rightarrow> ev_mem \<Rightarrow> fault + ev_mem) \<Rightarrow> ptr \<Rightarrow> ev_mem \<Rightarrow> fault + ptr \<times> ev_mem" where
  "eventry_R_free custom ref m =
     rbind (if ref \<noteq> NULL then ev_free custom ref m else Inr m) (\<lambda>m. Inr (NULL, m))"

definition C_evq_pop :: "(nat \<Rightarrow> bool) \<Rightarrow> (nat \<Rightarrow> ptr \<Rightarrow> ev_mem \<Rightarrow> fault + ev_mem) \<Rightarrow> bool \<Rightarrow> wake list option \<Rightarrow>
    bool \<Rightarrow> ev_queue \<Rightarrow> ev_mem \<Rightarrow> fault + evq_value \<times> ev_queue \<times> ev_mem" where
  "C_evq_pop alloc_raw custom lock timeout ref q m =
     rbind (case timeout of None \<Rightarrow> ev_pop lock q m | Some ws \<Rightarrow> ev_pop_wait lock ws q m) (\<lambda>(e, q, m).
       if e = NULL then Inr (EvNull, q, m)
       else if ref then Inr (EvRef e, q, m)
       else
         rbind (deref (ents m) e) (\<lambda>v.
         if \<not> alloc_raw (unat (e_len v)) then Inl (RError AllocFailed)
         else
           rbind (if e_data v \<noteq> NoData \<and> e_len v \<noteq> 0 then read_data e (unat (e_len v)) m
                  else if e_len v = 0 then Inr [] else Inl (Undefined UninitRead)) (\<lambda>bs.
           rbind (ev_free custom e m) (\<lambda>m.
           Inr (EvRaw bs, q, m)))))"

text \<open>\<open>C_evq_push\<close>: the result carries what the external pointer holds afterwards.\<close>

definition C_evq_push :: "(nat \<Rightarrow> bool) \<Rightarrow> (nat \<Rightarrow> ptr \<Rightarrow> ev_mem \<Rightarrow> fault + ev_mem) \<Rightarrow> bool \<Rightarrow> bool \<Rightarrow>
    evq_arg \<Rightarrow> ev_queue \<Rightarrow> ev_mem \<Rightarrow> fault + ptr \<times> int list \<times> ev_queue \<times> ev_mem" where
  "C_evq_push mok custom lock front what q m =
     (case what of
        ArgRef e \<Rightarrow>
          if e = NULL then Inl (RError InvalidArg)
          else rbind (ev_push lock q e front m) (\<lambda>(r, fds, q, m).
            if r = NULL then Inl (RError SendFailed) else Inr (NULL, fds, q, m))
      | ArgRaw bs \<Rightarrow>
          (let (e, m) = ev_create mok NoData (of_nat (length bs)) None m in
           if e = NULL then Inl (RError AllocFailed)
           else
             rbind (write_data e bs m) (\<lambda>m.
             rbind (ev_push lock q e front m) (\<lambda>(r, fds, q, m).
             if r = NULL then rbind (ev_free custom e m) (\<lambda>m. Inl (RError SendFailed))
             else Inr (NULL, fds, q, m))))
      | ArgOther \<Rightarrow> Inl (RError InvalidArg))"

subsection \<open>What a queue promises\<close>

text \<open>A queue, for its clients: \<open>rep st xs\<close> says the state holds the elements \<open>xs\<close> in order,
  \<open>ready st x\<close> that \<open>x\<close> may be put on it.\<close>

locale queue =
  fixes push :: "'st \<Rightarrow> 'x \<Rightarrow> fault + 'st"
    and pop :: "'st \<Rightarrow> fault + 'x option \<times> 'st"
    and rep :: "'st \<Rightarrow> 'x list \<Rightarrow> bool"
    and ready :: "'st \<Rightarrow> 'x \<Rightarrow> bool"
  assumes push_back: "rep st xs \<Longrightarrow> ready st x \<Longrightarrow> x \<notin> set xs \<Longrightarrow>
      \<exists>st'. push st x = Inr st' \<and> rep st' (xs @ [x]) \<and> (\<forall>y. y \<notin> set (x # xs) \<longrightarrow> ready st y \<longrightarrow> ready st' y)"
    and pop_empty: "rep st [] \<Longrightarrow> pop st = Inr (None, st)"
    and pop_first: "rep st (x # xs) \<Longrightarrow>
      \<exists>st'. pop st = Inr (Some x, st') \<and> rep st' xs \<and> ready st' x \<and> x \<notin> set xs \<and>
        (\<forall>y. y \<notin> set (x # xs) \<longrightarrow> ready st y \<longrightarrow> ready st' y)"
begin

lemma push_all:
  "rep st xs \<Longrightarrow> distinct ys \<Longrightarrow> set ys \<inter> set xs = {} \<Longrightarrow> (\<And>y. y \<in> set ys \<Longrightarrow> ready st y) \<Longrightarrow>
    \<exists>st'. foldr_m push st ys = Inr st' \<and> rep st' (xs @ ys)"
proof (induction ys arbitrary: st xs)
  case (Cons y ys)
  obtain st1 where st1: "push st y = Inr st1" "rep st1 (xs @ [y])"
      "\<forall>z. z \<notin> set (y # xs) \<longrightarrow> ready st z \<longrightarrow> ready st1 z"
    using push_back [of st xs y] Cons.prems by auto
  have "\<exists>st'. foldr_m push st1 ys = Inr st' \<and> rep st' ((xs @ [y]) @ ys)"
  proof (rule Cons.IH [OF st1(2)])
    show "distinct ys" "set ys \<inter> set (xs @ [y]) = {}"
      using Cons.prems by auto
    show "ready st1 z" if "z \<in> set ys" for z
      using st1(3) Cons.prems that by (metis disjoint_iff distinct.simps(2) list.set_intros(2) set_ConsD)
  qed
  with st1(1) show ?case by simp
qed simp

lemma drain: "rep st xs \<Longrightarrow>
    \<exists>st'. repeat_m (length xs) pop st = Inr (map Some xs, st') \<and> rep st' []"
proof (induction xs arbitrary: st)
  case (Cons x xs)
  obtain st1 where st1: "pop st = Inr (Some x, st1)" "rep st1 xs"
    using pop_first [OF Cons.prems] by blast
  with Cons.IH [of st1] show ?case by auto
qed simp

lemma fifo:
  assumes "rep st []" "distinct ys" "\<And>y. y \<in> set ys \<Longrightarrow> ready st y"
  shows "\<exists>st' st''. foldr_m push st ys = Inr st' \<and> repeat_m (length ys) pop st' = Inr (map Some ys, st'') \<and>
    pop st'' = Inr (None, st'')"
proof -
  obtain st' where st': "foldr_m push st ys = Inr st'" "rep st' ys"
    using push_all [OF assms(1,2)] assms(3) by auto
  with drain [OF st'(2)] pop_empty show ?thesis by blast
qed

lemma rotate: "rep st (x # xs) \<Longrightarrow>
    \<exists>st' st''. pop st = Inr (Some x, st') \<and> push st' x = Inr st'' \<and> rep st'' (xs @ [x])"
  using pop_first [of st x xs] push_back by blast

end

locale deque = queue +
  fixes push_front :: "'st \<Rightarrow> 'x \<Rightarrow> fault + 'st"
  assumes push_front: "rep st xs \<Longrightarrow> ready st x \<Longrightarrow> x \<notin> set xs \<Longrightarrow>
      \<exists>st'. push_front st x = Inr st' \<and> rep st' (x # xs)"
begin

lemma urgent: "rep st xs \<Longrightarrow> ready st x \<Longrightarrow> x \<notin> set xs \<Longrightarrow>
    \<exists>st' st''. push_front st x = Inr st' \<and> pop st' = Inr (Some x, st'') \<and> rep st'' xs"
  using push_front [of st xs x] pop_first by blast

end

subsection \<open>The linked queue keeps the promise\<close>

definition ev_rep :: "ev_queue \<times> ev_mem \<Rightarrow> nat list \<Rightarrow> bool" where
  "ev_rep st xs \<longleftrightarrow> (case st of (q, m) \<Rightarrow>
     distinct xs \<and> qhead q = first_ptr xs NULL \<and> (xs = [] \<or> qtail q = Some (last xs)) \<and>
     dseg (mem (ents m)) e_prev e_next NULL xs NULL)"

definition ev_ready :: "ev_queue \<times> ev_mem \<Rightarrow> nat \<Rightarrow> bool" where
  "ev_ready st x \<longleftrightarrow> (\<exists>v. mem (ents (snd st)) x = Some v \<and> e_prev v = NULL \<and> e_next v = NULL)"

definition ev_push_st :: "bool \<Rightarrow> ev_queue \<times> ev_mem \<Rightarrow> nat \<Rightarrow> fault + ev_queue \<times> ev_mem" where
  "ev_push_st front st x =
     rbind (ev_push True (fst st) (Some x) front (snd st)) (\<lambda>(e, fds, st). Inr st)"

definition ev_pop_st :: "ev_queue \<times> ev_mem \<Rightarrow> fault + nat option \<times> ev_queue \<times> ev_mem" where
  "ev_pop_st st = ev_pop True (fst st) (snd st)"

lemma ev_push_back:
  assumes "ev_rep (q, m) xs" "ev_ready (q, m) x" "x \<notin> set xs"
  shows "\<exists>q' m'. ev_push True q (Some x) False m = Inr (Some x, (if qfd q \<noteq> - 1 then [qfd q] else []), q', m') \<and>
    ev_rep (q', m') (xs @ [x]) \<and> qfd q' = qfd q \<and> blocks m' = blocks m \<and>
    (\<forall>y. y \<notin> set (x # xs) \<longrightarrow> mem (ents m') y = mem (ents m) y) \<and> brk (ents m') = brk (ents m)"
proof (cases xs rule: rev_cases)
  case Nil
  with assms show ?thesis
    by (auto simp: ev_push_def ev_rep_def ev_ready_def)
next
  case (snoc ys t)
  then obtain v w where v: "mem (ents m) x = Some v" "e_prev v = NULL" "e_next v = NULL"
    and w: "mem (ents m) t = Some w" "e_next w = NULL"
    and seg: "dseg (mem (ents m)) e_prev e_next NULL ys (Some t)" "e_prev w = last_ptr NULL ys"
    and q: "qhead q = first_ptr xs NULL" "qtail q = Some t" "distinct (ys @ [t])" "x \<noteq> t" "x \<notin> set ys"
    using assms by (auto simp: ev_rep_def ev_ready_def dseg_append)
  have "qhead q \<noteq> NULL"
    using q(1) snoc by (cases ys) auto
  then show ?thesis
    using v w seg q snoc by (auto simp: ev_push_def ev_rep_def dseg_append)
qed

lemma ev_push_front:
  assumes "ev_rep (q, m) xs" "ev_ready (q, m) x" "x \<notin> set xs"
  shows "\<exists>q' m'. ev_push True q (Some x) True m = Inr (Some x, (if qfd q \<noteq> - 1 then [qfd q] else []), q', m') \<and>
    ev_rep (q', m') (x # xs) \<and> qfd q' = qfd q \<and> blocks m' = blocks m"
proof (cases xs)
  case Nil
  with assms show ?thesis
    by (auto simp: ev_push_def ev_rep_def ev_ready_def)
next
  case (Cons y ys)
  with assms show ?thesis
    by (auto simp: ev_push_def ev_rep_def ev_ready_def)
qed

lemma ev_pop_empty: "ev_rep (q, m) [] \<Longrightarrow> ev_pop True q m = Inr (NULL, q, m)"
  by (simp add: ev_pop_def take_head_def ev_rep_def)

lemma ev_pop_first:
  assumes "ev_rep (q, m) (x # xs)"
  shows "\<exists>q' m'. ev_pop True q m = Inr (Some x, q', m') \<and> ev_rep (q', m') xs \<and> ev_ready (q', m') x \<and>
    x \<notin> set xs \<and> qfd q' = qfd q \<and> blocks m' = blocks m \<and> brk (ents m') = brk (ents m) \<and>
    (\<forall>y. y \<notin> set (x # xs) \<longrightarrow> mem (ents m') y = mem (ents m) y) \<and>
    mem (ents m') x = map_option (\<lambda>v. v\<lparr>e_next := NULL, e_prev := NULL\<rparr>) (mem (ents m) x)"
proof (cases xs)
  case Nil
  with assms show ?thesis
    by (auto simp: ev_pop_def take_head_def ev_rm_def ev_rep_def ev_ready_def)
next
  case (Cons y ys)
  have "last (y # ys) \<in> set (y # ys)"
    by (rule last_in_set) simp
  then have "x \<noteq> last (y # ys)"
    using assms Cons unfolding ev_rep_def by (metis (mono_tags) case_prodD distinct.simps(2))
  with assms Cons show ?thesis
    by (auto simp: ev_pop_def take_head_def ev_rm_def ev_rep_def ev_ready_def Let_def)
qed

interpretation evq: deque "ev_push_st False" ev_pop_st ev_rep ev_ready "ev_push_st True"
proof
  fix st :: "ev_queue \<times> ev_mem" and xs x
  obtain q m where st: "st = (q, m)" by (cases st)
  show "ev_rep st [] \<Longrightarrow> ev_pop_st st = Inr (None, st)"
    using ev_pop_empty by (simp add: st ev_pop_st_def)
  show "ev_rep st xs \<Longrightarrow> ev_ready st x \<Longrightarrow> x \<notin> set xs \<Longrightarrow>
      \<exists>st'. ev_push_st False st x = Inr st' \<and> ev_rep st' (xs @ [x]) \<and>
        (\<forall>y. y \<notin> set (x # xs) \<longrightarrow> ev_ready st y \<longrightarrow> ev_ready st' y)"
    using ev_push_back [of q m xs x] by (auto simp: st ev_push_st_def ev_ready_def)
  show "ev_rep st xs \<Longrightarrow> ev_ready st x \<Longrightarrow> x \<notin> set xs \<Longrightarrow>
      \<exists>st'. ev_push_st True st x = Inr st' \<and> ev_rep st' (x # xs)"
    using ev_push_front [of q m xs x] by (auto simp: st ev_push_st_def)
  show "ev_rep st (x # xs) \<Longrightarrow> \<exists>st'. ev_pop_st st = Inr (Some x, st') \<and> ev_rep st' xs \<and> ev_ready st' x \<and>
      x \<notin> set xs \<and> (\<forall>y. y \<notin> set (x # xs) \<longrightarrow> ev_ready st y \<longrightarrow> ev_ready st' y)"
    using ev_pop_first [of q m x xs] by (auto simp: st ev_pop_st_def ev_ready_def)
qed

subsection \<open>Entries made by the queue\<close>

text \<open>Linking changes no payload.\<close>

lemma assign_links:
  assumes "assign h p f = Inr h'" "mem h a = Some v"
    "\<And>v. e_data (f v) = e_data v \<and> e_len (f v) = e_len v \<and> e_store (f v) = e_store v \<and> e_free (f v) = e_free v"
  shows "\<exists>w. mem h' a = Some w \<and> e_data w = e_data v \<and> e_len w = e_len v \<and> e_store w = e_store v \<and> e_free w = e_free v"
  using assms by (auto simp: assign_def rbind_iffs deref_Inr_iff)

lemma ev_push_entry:
  assumes "ev_push l q e front m = Inr (r, fds, q', m')" "mem (ents m) a = Some v"
  shows "\<exists>w. mem (ents m') a = Some w \<and> e_data w = e_data v \<and> e_len w = e_len v \<and> e_store w = e_store v \<and> e_free w = e_free v"
proof -
  have two: "\<exists>w. mem h2 a = Some w \<and> e_data w = e_data v \<and> e_len w = e_len v \<and> e_store w = e_store v \<and> e_free w = e_free v"
    if "assign (ents m) p f = Inr h1" "assign h1 p' g = Inr h2"
      "\<And>v. e_data (f v) = e_data v \<and> e_len (f v) = e_len v \<and> e_store (f v) = e_store v \<and> e_free (f v) = e_free v"
      "\<And>v. e_data (g v) = e_data v \<and> e_len (g v) = e_len v \<and> e_store (g v) = e_store v \<and> e_free (g v) = e_free v"
    for p p' f g h1 h2
    using assign_links [OF that(1) assms(2) that(3)] assign_links [OF that(2) _ that(4)] by metis
  show ?thesis
    using assms by (auto simp: ev_push_def rbind_iffs dest: two split: if_splits)
qed

text \<open>The operations on the links allocate and free nothing.\<close>

lemma assign_dom: "assign h p f = Inr h' \<Longrightarrow> dom (mem h') = dom (mem h)"
  by (auto simp: assign_def rbind_iffs deref_Inr_iff put_rec_def split: if_splits)

lemma ev_push_dom: "ev_push l q e front m = Inr (r, fds, q', m') \<Longrightarrow> dom (mem (ents m')) = dom (mem (ents m))"
  by (auto simp: ev_push_def rbind_iffs split: if_splits) (metis assign_dom domI domD)+

lemma ev_rm_dom: "ev_rm q e m = Inr (q', m') \<Longrightarrow> dom (mem (ents m')) = dom (mem (ents m))"
  by (auto simp: ev_rm_def Let_def rbind_iffs split: if_splits) (metis assign_dom domI domD)+

lemma ev_pop_dom: "ev_pop l q m = Inr (e, q', m') \<Longrightarrow> dom (mem (ents m')) = dom (mem (ents m))"
  by (auto simp: ev_pop_def take_head_def rbind_iffs split: if_splits) (metis ev_rm_dom domI domD)+

lemma ev_create_instruct:
  assumes "ev_create mok NoData len f m = (Some a, m')" "0 < len" "unat len < 2 ^ 64 - 48"
  shows "\<exists>v. mem (ents m') a = Some v \<and> e_data v = InStruct \<and> e_len v = len \<and>
    e_prev v = NULL \<and> e_next v = NULL \<and> e_free v = f \<and> unat len + 6 \<le> length (e_store v) \<and>
    None \<notin> set (e_store v)"
proof -
  let ?sz = "SIZEOF_EV_ENTRY + (if len < 3 then 0 else len)"
  have "unat ?sz = (if unat len < 3 then 48 else 48 + unat len)"
    using assms(3) by (auto simp: SIZEOF_EV_ENTRY_def word_less_nat_alt unat_add_lem [THEN iffD1])
  with assms show ?thesis
    by (auto simp: ev_create_def new_rec_def Let_def split: if_splits)
qed

lemma ev_create_frame:
  assumes "heap_ok (ents m)" "ev_create mok d len f m = (Some a, m')"
  shows "mem (ents m) a = None \<and> heap_ok (ents m') \<and> (\<forall>y. y \<noteq> a \<longrightarrow> mem (ents m') y = mem (ents m) y) \<and>
    blocks m' = blocks m \<and> ev_ready (q, m') a"
  using assms heap_ok_new [OF assms(1)]
  by (auto simp: ev_create_def Let_def ev_ready_def split: if_splits prod.splits)

lemma ev_create_null_data: "ev_create mok NoData 0 f m = (Some a, m') \<Longrightarrow>
    \<exists>v. mem (ents m') a = Some v \<and> e_data v = NoData \<and> e_len v = 0"
  by (auto simp: ev_create_def new_rec_def Let_def split: if_splits)

lemma ev_rep_frame:
  "ev_rep (q, m) xs \<Longrightarrow> (\<And>x. x \<in> set xs \<Longrightarrow> mem (ents m') x = mem (ents m) x) \<Longrightarrow> ev_rep (q, m') xs"
  using dseg_cong [of xs "mem (ents m')" "mem (ents m)"] by (auto simp: ev_rep_def)

lemma ev_rep_mem: "ev_rep (q, m) xs \<Longrightarrow> x \<in> set xs \<Longrightarrow> mem (ents m) x \<noteq> None"
  by (auto simp: ev_rep_def dest: dseg_mem)

lemma ev_push_back_ok:
  assumes "ev_rep (q, m) xs" "ev_ready (q, m) x" "x \<notin> set xs" "heap_ok (ents m)"
  shows "\<exists>q' m'. ev_push True q (Some x) False m = Inr (Some x, (if qfd q \<noteq> - 1 then [qfd q] else []), q', m') \<and>
    ev_rep (q', m') (xs @ [x]) \<and> heap_ok (ents m') \<and> blocks m' = blocks m \<and>
    (\<forall>y. y \<notin> set (x # xs) \<longrightarrow> mem (ents m') y = mem (ents m) y)"
proof -
  obtain q' m' where push: "ev_push True q (Some x) False m = Inr (Some x, (if qfd q \<noteq> - 1 then [qfd q] else []), q', m')"
      "ev_rep (q', m') (xs @ [x])" "blocks m' = blocks m" "brk (ents m') = brk (ents m)"
      "\<forall>y. y \<notin> set (x # xs) \<longrightarrow> mem (ents m') y = mem (ents m) y"
    using ev_push_back [OF assms(1-3)] by blast
  have "heap_ok (ents m')"
    unfolding heap_ok_def
  proof (intro allI impI)
    fix y w assume y: "mem (ents m') y = Some w"
    have "mem (ents m) y \<noteq> None"
      using push(5) y assms(2) ev_rep_mem [OF assms(1), of y] by (cases "y \<in> set (x # xs)") (auto simp: ev_ready_def)
    with assms(4) show "y < brk (ents m')"
      using push(4) by (auto simp: heap_ok_def)
  qed
  with push show ?thesis by blast
qed

text \<open>An entry for a block of its own.\<close>

lemma ev_create_block:
  assumes "ev_create mok (Block b) len f m = (Some a, m')" "heap_ok (ents m)"
  shows "mem (ents m') a = Some \<lparr>e_data = Block b, e_len = len, e_prev = NULL, e_next = NULL, e_free = f,
      e_store = replicate 8 (Some nul)\<rparr> \<and> mem (ents m) a = None \<and> blocks m' = blocks m \<and> heap_ok (ents m') \<and>
    (\<forall>y. y \<noteq> a \<longrightarrow> mem (ents m') y = mem (ents m) y)"
  using assms heap_ok_new [OF assms(2)]
  by (auto simp: ev_create_def Let_def SIZEOF_EV_ENTRY_def split: if_splits prod.splits)

text \<open>Bytes copied into a fresh entry of their length are there, and nothing else moved.\<close>

lemma raw_entry:
  assumes ok: "heap_ok (ents m)" and len: "length bs < 2 ^ 64 - 48"
    and a: "ev_create mok NoData (of_nat (length bs)) None m = (Some a, m1)"
  shows "\<exists>m2 v. write_data (Some a) bs m1 = Inr m2 \<and> mem (ents m2) a = Some v \<and>
    e_prev v = NULL \<and> e_next v = NULL \<and> unat (e_len v) = length bs \<and> e_data v \<in> {NoData, InStruct} \<and>
    (e_data v = NoData \<longrightarrow> bs = []) \<and> (e_data v = InStruct \<longrightarrow> take (length bs) (e_store v) = map Some bs) \<and>
    heap_ok (ents m2) \<and> blocks m2 = blocks m \<and> (\<forall>y. y \<noteq> a \<longrightarrow> mem (ents m2) y = mem (ents m) y)"
proof -
  let ?len = "of_nat (length bs) :: 64 word"
  have l: "unat ?len = length bs"
    using len by (simp add: unat_of_nat take_bit_nat_eq_self_iff)
  note fr = ev_create_frame [OF ok a]
  have ready: "\<exists>v. mem (ents m1) a = Some v \<and> e_prev v = NULL \<and> e_next v = NULL"
    using fr [of undefined] by (auto simp: ev_ready_def)
  show ?thesis
  proof (cases "bs = []")
    case True
    then obtain v where "mem (ents m1) a = Some v" "e_data v = NoData" "e_len v = 0"
      using ev_create_null_data [of mok None m a m1] a by auto
    with True ready fr show ?thesis
      by (auto simp: write_data_def)
  next
    case False
    then have "?len \<noteq> 0"
      using l by (metis length_0_conv unat_0)
    then have "0 < ?len"
      by (simp only: word_gt_0)
    with ev_create_instruct [OF a this] l len obtain v where v: "mem (ents m1) a = Some v"
        "e_data v = InStruct" "e_len v = ?len" "e_prev v = NULL" "e_next v = NULL"
        "length bs + 6 \<le> length (e_store v)"
      by auto
    let ?v = "v\<lparr>e_store := overwrite 0 (map Some bs) (e_store v)\<rparr>"
    have "write_data (Some a) bs m1 = Inr (m1\<lparr>ents := put_rec a ?v (ents m1)\<rparr>)"
      using v by (simp add: write_data_def)
    moreover have "take (length bs) (e_store ?v) = map Some bs"
      by (simp add: overwrite_def)
    moreover have "heap_ok (put_rec a ?v (ents m1))"
      using fr v(1) by simp
    ultimately show ?thesis
      using v l fr by (intro exI [of _ "m1\<lparr>ents := put_rec a ?v (ents m1)\<rparr>"] exI [of _ ?v]) simp
  qed
qed

lemma raw_entry_pop:
  assumes v: "mem (ents m) a = Some v" "unat (e_len v) = length bs" "e_data v \<in> {NoData, InStruct}"
    "e_data v = NoData \<longrightarrow> bs = []" "e_data v = InStruct \<longrightarrow> take (length bs) (e_store v) = map Some bs"
    and pop: "ev_pop True q m0 = Inr (Some a, q', m)" and alloc: "alloc_raw (length bs)"
  shows "C_evq_pop alloc_raw custom True None False q m0 =
    Inr (EvRaw bs, q', m\<lparr>ents := (ents m)\<lparr>mem := (mem (ents m))(a := None)\<rparr>\<rparr>)"
proof -
  have bs: "e_len v = 0 \<longleftrightarrow> bs = []"
    using v(2) by (metis length_0_conv unat_0 unat_eq_zero)
  have rd: "e_data v = InStruct \<Longrightarrow> read_data (Some a) (length bs) m = Inr bs"
    using v(1,5) by (simp add: read_data_def read_cells_Some)
  show ?thesis
    using v(1-4) bs rd by (auto simp: C_evq_pop_def pop alloc ev_free_def)
qed

lemma evq_raw_roundtrip:
  assumes rep: "ev_rep (q, m) xs" and ok: "heap_ok (ents m)" and pos: "front \<or> xs = []"
    and mok: "\<And>n. mok n" and alloc: "\<And>n. alloc_raw n" and len: "length bs < 2 ^ 64 - 48"
  shows "\<exists>q1 m1 q2 m2. C_evq_push mok custom True front (ArgRaw bs) q m =
      Inr (NULL, (if qfd q \<noteq> - 1 then [qfd q] else []), q1, m1) \<and>
    dom (mem (ents m1)) \<noteq> dom (mem (ents m)) \<and>
    C_evq_pop alloc_raw custom True None False q1 m1 = Inr (EvRaw bs, q2, m2) \<and> ev_rep (q2, m2) xs \<and>
    dom (mem (ents m2)) = dom (mem (ents m))"
proof -
  let ?len = "of_nat (length bs) :: 64 word"
  obtain a m1 where a: "ev_create mok NoData ?len None m = (Some a, m1)"
    using mok by (auto simp: ev_create_def Let_def new_rec_def)
  obtain m2 v where m2: "write_data (Some a) bs m1 = Inr m2" "mem (ents m2) a = Some v"
      "e_prev v = NULL" "e_next v = NULL" "unat (e_len v) = length bs" "e_data v \<in> {NoData, InStruct}"
      "e_data v = NoData \<longrightarrow> bs = []" "e_data v = InStruct \<longrightarrow> take (length bs) (e_store v) = map Some bs"
      "heap_ok (ents m2)" "\<forall>y. y \<noteq> a \<longrightarrow> mem (ents m2) y = mem (ents m) y"
    using raw_entry [OF ok len a] by blast
  have fresh: "mem (ents m) a = None"
    using ev_create_frame [OF ok a] by metis
  then have a_notin: "a \<notin> set xs"
    using ev_rep_mem [OF rep] by metis
  have rep2: "ev_rep (q, m2) xs"
    using ev_rep_frame [OF rep, of m2] m2(10) a_notin by metis
  have ready: "ev_ready (q, m2) a"
    using m2 by (simp add: ev_ready_def)
  obtain q3 m3 where push: "ev_push True q (Some a) front m2 =
        Inr (Some a, (if qfd q \<noteq> - 1 then [qfd q] else []), q3, m3)" "ev_rep (q3, m3) (a # xs)"
    using ev_push_back [OF rep2 ready a_notin] ev_push_front [OF rep2 ready a_notin] pos
    by (cases front) auto
  obtain q4 m4 where pop: "ev_pop True q3 m3 = Inr (Some a, q4, m4)" "ev_rep (q4, m4) xs"
      "mem (ents m4) a = map_option (\<lambda>v. v\<lparr>e_next := NULL, e_prev := NULL\<rparr>) (mem (ents m3) a)"
    using ev_pop_first [OF push(2)] by blast
  obtain w where w: "mem (ents m3) a = Some w" "e_data w = e_data v" "e_len w = e_len v" "e_store w = e_store v"
    using ev_push_entry [OF push(1) m2(2)] by blast
  have "C_evq_push mok custom True front (ArgRaw bs) q m =
      Inr (NULL, (if qfd q \<noteq> - 1 then [qfd q] else []), q3, m3)"
    using a m2(1) push(1) by (simp add: C_evq_push_def)
  moreover have "C_evq_pop alloc_raw custom True None False q3 m3 =
      Inr (EvRaw bs, q4, m4\<lparr>ents := (ents m4)\<lparr>mem := (mem (ents m4))(a := None)\<rparr>\<rparr>)"
    using m2 w pop alloc by (intro raw_entry_pop [where v = "w\<lparr>e_next := NULL, e_prev := NULL\<rparr>"]) simp_all
  moreover have "ev_rep (q4, m4\<lparr>ents := (ents m4)\<lparr>mem := (mem (ents m4))(a := None)\<rparr>\<rparr>) xs"
    by (rule ev_rep_frame [OF pop(2)]) (use a_notin in auto)
  moreover have "dom (mem (ents m3)) = insert a (dom (mem (ents m)))"
    unfolding ev_push_dom [OF push(1)] using m2(2,10) by (auto simp: dom_def)
  moreover from this have "dom ((mem (ents m4))(a := None)) = dom (mem (ents m))"
    using ev_pop_dom [OF pop(1)] fresh by auto
  moreover have "a \<notin> dom (mem (ents m))"
    using fresh by auto
  ultimately show ?thesis
    by (intro exI [of _ q3] exI [of _ m3] exI [of _ q4] exI [of _ "m4\<lparr>ents := (ents m4)\<lparr>mem := (mem (ents m4))(a := None)\<rparr>\<rparr>"] conjI)
      (auto simp del: dom_fun_upd)
qed

subsection \<open>Waiting and passing events on\<close>

lemma wait_loop_rep:
  "ev_rep (q, m) xs \<Longrightarrow> list_all (\<lambda>(t, st). \<exists>ys. ev_rep st ys) ws \<Longrightarrow> \<exists>ys. ev_rep (wait_loop ws q m) ys"
  by (induction ws arbitrary: q m xs) (auto split: prod.splits)

lemma take_head_rep:
  assumes "ev_rep (q, m) xs"
  shows "\<exists>e q' m'. take_head q m = Inr (e, q', m') \<and>
    (case xs of [] \<Rightarrow> e = NULL \<and> ev_rep (q', m') []
     | x # ys \<Rightarrow> e = Some x \<and> ev_rep (q', m') ys \<and> ev_ready (q', m') x \<and> x \<notin> set ys)"
proof (cases xs)
  case Nil
  with assms show ?thesis by (simp add: take_head_def ev_rep_def)
next
  case (Cons x ys)
  with ev_pop_first [of q m x ys] assms show ?thesis
    by (auto simp: ev_pop_def)
qed

lemma pop_wait_safe:
  assumes "ev_rep (q, m) xs" "list_all (\<lambda>(t, st). \<exists>ys. ev_rep st ys) ws"
  shows "\<exists>e q' m' zs. ev_pop_wait True ws q m = Inr (e, q', m') \<and> ev_rep (q', m') zs \<and>
    (case e of NULL \<Rightarrow> zs = [] | Some x \<Rightarrow> ev_ready (q', m') x \<and> x \<notin> set zs)"
proof -
  obtain ys where "ev_rep (wait_loop ws q m) ys"
    using wait_loop_rep [OF assms] by blast
  then show ?thesis
    using take_head_rep [of "fst (wait_loop ws q m)" "snd (wait_loop ws q m)" ys]
    by (cases ys) (auto simp: ev_pop_wait_def split: prod.splits)
qed

lemma transfer:
  assumes q1: "ev_rep (q1, m) (x # xs)" and q2: "ev_rep (q2, m) ys" and dis: "set (x # xs) \<inter> set ys = {}"
  shows "\<exists>q1' m1 fds q2' m2. ev_pop True q1 m = Inr (Some x, q1', m1) \<and>
    ev_push True q2 (Some x) False m1 = Inr (Some x, fds, q2', m2) \<and>
    ev_rep (q1', m2) xs \<and> ev_rep (q2', m2) (ys @ [x])"
proof -
  obtain q1' m1 where pop: "ev_pop True q1 m = Inr (Some x, q1', m1)" "ev_rep (q1', m1) xs"
      "ev_ready (q1', m1) x" "x \<notin> set xs" "\<forall>y. y \<notin> set (x # xs) \<longrightarrow> mem (ents m1) y = mem (ents m) y"
    using ev_pop_first [OF q1] by blast
  have "ev_rep (q2, m1) ys"
    by (rule ev_rep_frame [OF q2]) (use pop(5) dis in auto)
  moreover have "ev_ready (q2, m1) x"
    using pop(3) by (simp add: ev_ready_def)
  ultimately obtain q2' m2 where push: "ev_push True q2 (Some x) False m1 =
        Inr (Some x, (if qfd q2 \<noteq> - 1 then [qfd q2] else []), q2', m2)" "ev_rep (q2', m2) (ys @ [x])"
      "\<forall>y. y \<notin> set (x # ys) \<longrightarrow> mem (ents m2) y = mem (ents m1) y"
    using ev_push_back [of q2 m1 ys x] dis by auto
  have "ev_rep (q1', m2) xs"
    by (rule ev_rep_frame [OF pop(2)]) (use push(3) pop(4) dis in auto)
  with pop(1) push(1,2) show ?thesis by blast
qed

subsection \<open>Properties\<close>

text \<open>C20: The event queue is first in, first out: events pushed at the back of an empty queue
  are popped in the order they were pushed, and the next pop finds nothing. The queue is the
  linked structure of evqueue.c, with its head, tail, prev and next pointers.\<close>

theorem evq_fifo:
  assumes "ev_rep (q, m) []" "distinct ys" "\<forall>y\<in>set ys. ev_ready (q, m) y"
  shows "\<exists>st' st''. foldr_m (ev_push_st False) (q, m) ys = Inr st' \<and>
    repeat_m (length ys) ev_pop_st st' = Inr (map Some ys, st'') \<and> ev_pop_st st'' = Inr (NULL, st'')"
  using evq.fifo [OF assms(1,2)] assms(3) by blast

text \<open>A queue just created, and entries just created: the concrete inputs of the witnesses.\<close>

definition demo_queue :: ev_queue where
  "demo_queue = the (ev_queue_create True True)"

primrec demo_mem :: "nat \<Rightarrow> ev_mem" where
  "demo_mem 0 = \<lparr>ents = empty_heap, blocks = empty_heap\<rparr>"
| "demo_mem (Suc n) = snd (ev_create (\<lambda>_. True) NoData 4 None (demo_mem n))"

lemma demo_rep: "ev_rep (demo_queue, m) []"
  by (simp add: ev_rep_def demo_queue_def ev_queue_create_def)

lemma demo_heap: "heap_ok (ents (demo_mem n))"
  by (induction n) (auto simp: ev_create_def new_rec_def heap_ok_def less_Suc_eq empty_heap_def)

lemma brk_demo_mem: "brk (ents (demo_mem n)) = n"
  by (induction n) (auto simp: ev_create_def new_rec_def empty_heap_def)

lemma demo_ready: "i < n \<Longrightarrow> ev_ready (q, demo_mem n) i"
  by (induction n) (auto simp: ev_create_def new_rec_def ev_ready_def brk_demo_mem less_Suc_eq)

theorem evq_fifo_witness:
  "\<exists>st' st''. foldr_m (ev_push_st False) (demo_queue, demo_mem 3) [1, 0, 2] = Inr st' \<and>
    repeat_m (length [1, 0, 2::nat]) ev_pop_st st' = Inr (map Some [1, 0, 2], st'') \<and>
    ev_pop_st st'' = Inr (NULL, st'')"
  by (rule evq_fifo) (simp_all add: demo_rep demo_ready)

text \<open>An event pushed at the front overtakes the queue: the next pop returns it and
  leaves the queue as it was.\<close>

theorem evq_urgent:
  assumes "ev_rep (q, m) xs" "ev_ready (q, m) x" "x \<notin> set xs"
  shows "\<exists>st' st''. ev_push_st True (q, m) x = Inr st' \<and> ev_pop_st st' = Inr (Some x, st'') \<and> ev_rep st'' xs"
  using assms by (rule evq.urgent)

theorem evq_urgent_witness:
  "\<exists>st' st''. ev_push_st True (demo_queue, demo_mem 3) 2 = Inr st' \<and> ev_pop_st st' = Inr (Some 2, st'') \<and>
    ev_rep st'' []"
  by (rule evq_urgent) (simp_all add: demo_rep demo_ready)

text \<open>Events may pass between queues: what is popped from one queue can be pushed on
  another that shares no entries with it; afterwards both linked structures represent the
  expected lists.\<close>

theorem evq_transfer:
  assumes "ev_rep (q1, m) (x # xs)" "ev_rep (q2, m) ys" "set (x # xs) \<inter> set ys = {}"
  shows "\<exists>q1' m1 fds q2' m2. ev_pop True q1 m = Inr (Some x, q1', m1) \<and>
    ev_push True q2 (Some x) False m1 = Inr (Some x, fds, q2', m2) \<and>
    ev_rep (q1', m2) xs \<and> ev_rep (q2', m2) (ys @ [x])"
  using assms by (rule transfer)

theorem evq_transfer_witness:
  "\<exists>q1' m1 fds q2' m2. ev_pop True \<lparr>qhead = Some 1, qtail = Some 1, qfd = - 1\<rparr> (demo_mem 2) = Inr (Some 1, q1', m1) \<and>
    ev_push True \<lparr>qhead = Some 0, qtail = Some 0, qfd = 5\<rparr> (Some 1) False m1 = Inr (Some 1, fds, q2', m2) \<and>
    ev_rep (q1', m2) [] \<and> ev_rep (q2', m2) ([0] @ [1])"
proof (rule evq_transfer)
  show "ev_rep (\<lparr>qhead = Some 1, qtail = Some 1, qfd = - 1\<rparr>, demo_mem 2) [1]"
    using demo_ready [of 1 2] by (simp add: ev_rep_def ev_ready_def)
  show "ev_rep (\<lparr>qhead = Some 0, qtail = Some 0, qfd = 5\<rparr>, demo_mem 2) [0]"
    using demo_ready [of 0 2] by (simp add: ev_rep_def ev_ready_def)
qed simp

text \<open>C31: A waiting pop, whatever the other threads do to the queue while it sleeps (as long as
  they leave a well-formed queue), never touches a freed or null entry, leaves a well-formed
  queue, and returns nothing only if the queue was empty when it gave up.\<close>

theorem evq_wait_safe:
  assumes "ev_rep (q, m) xs" "list_all (\<lambda>(t, st). \<exists>ys. ev_rep st ys) ws"
  shows "\<exists>e q' m' zs. ev_pop_wait True ws q m = Inr (e, q', m') \<and> ev_rep (q', m') zs \<and>
    (case e of NULL \<Rightarrow> zs = [] | Some x \<Rightarrow> ev_ready (q', m') x \<and> x \<notin> set zs)"
  using assms by (rule pop_wait_safe)

theorem evq_wait_safe_witness:
  "\<exists>e q' m' zs. ev_pop_wait True [(False, demo_queue, demo_mem 1),
        (False, \<lparr>qhead = Some 0, qtail = Some 0, qfd = - 1\<rparr>, demo_mem 1)] demo_queue (demo_mem 1) = Inr (e, q', m') \<and>
    ev_rep (q', m') zs \<and> (case e of NULL \<Rightarrow> zs = [] | Some x \<Rightarrow> ev_ready (q', m') x \<and> x \<notin> set zs)"
proof (rule evq_wait_safe)
  show "ev_rep (demo_queue, demo_mem 1) []"
    by (rule demo_rep)
  have "ev_rep (\<lparr>qhead = Some 0, qtail = Some 0, qfd = - 1\<rparr>, demo_mem 1) [0]"
    using demo_ready [of 0 1] by (simp add: ev_rep_def ev_ready_def)
  then show "list_all (\<lambda>(t, st). \<exists>ys. ev_rep st ys) [(False, demo_queue, demo_mem 1),
        (False, \<lparr>qhead = Some 0, qtail = Some 0, qfd = - 1\<rparr>, demo_mem 1)]"
    using demo_rep by auto
qed

text \<open>C10: Raw data put on a queue from R comes back byte for byte: after a push at the front,
  or on an empty queue at either end, the next pop returns those bytes, the entry that the push
  allocated is freed (the live entries are those from before the push) and the queue is what it
  was. Allocations are assumed to succeed and the length to be below the point where the size of
  the entry wraps around.\<close>

theorem evq_push_pop_raw:
  assumes "ev_rep (q, m) xs" "heap_ok (ents m)" "front \<or> xs = []"
    "\<And>n. mok n" "\<And>n. alloc_raw n" "length bs < 2 ^ 64 - 48"
  shows "\<exists>q1 m1 q2 m2. C_evq_push mok custom True front (ArgRaw bs) q m =
      Inr (NULL, (if qfd q \<noteq> - 1 then [qfd q] else []), q1, m1) \<and>
    dom (mem (ents m1)) \<noteq> dom (mem (ents m)) \<and>
    C_evq_pop alloc_raw custom True None False q1 m1 = Inr (EvRaw bs, q2, m2) \<and> ev_rep (q2, m2) xs \<and>
    dom (mem (ents m2)) = dom (mem (ents m))"
  using assms by (rule evq_raw_roundtrip)

theorem evq_push_pop_raw_witness:
  "\<exists>q1 m1 q2 m2. C_evq_push (\<lambda>_. True) (\<lambda>_ _ m. Inr m) True False (ArgRaw ''ab'') demo_queue (demo_mem 0) =
      Inr (NULL, (if qfd demo_queue \<noteq> - 1 then [qfd demo_queue] else []), q1, m1) \<and>
    dom (mem (ents m1)) \<noteq> dom (mem (ents (demo_mem 0))) \<and>
    C_evq_pop (\<lambda>_. True) (\<lambda>_ _ m. Inr m) True None False q1 m1 = Inr (EvRaw ''ab'', q2, m2) \<and> ev_rep (q2, m2) [] \<and>
    dom (mem (ents m2)) = dom (mem (ents (demo_mem 0)))"
  by (rule evq_push_pop_raw) (simp_all add: demo_rep demo_heap del: demo_mem.simps)

text \<open>C33: An entry with in-structure storage has room for its length and at least six guard
  bytes, all of it initialised, unless the length is within 48 bytes of the 64-bit limit (where
  the size of the allocation wraps around).\<close>

theorem ev_create_capacity:
  assumes "ev_create mok NoData len f m = (Some a, m')" "0 < len" "unat len < 2 ^ 64 - 48"
  shows "\<exists>v. mem (ents m') a = Some v \<and> e_data v = InStruct \<and> e_len v = len \<and>
    e_prev v = NULL \<and> e_next v = NULL \<and> e_free v = f \<and> unat len + 6 \<le> length (e_store v) \<and>
    None \<notin> set (e_store v)"
  using assms by (rule ev_create_instruct)

theorem ev_create_capacity_witness:
  "\<exists>v. mem (ents (snd (ev_create (\<lambda>_. True) NoData 2 None (demo_mem 0)))) 0 = Some v \<and> e_data v = InStruct \<and>
    e_len v = 2 \<and> e_prev v = NULL \<and> e_next v = NULL \<and> e_free v = None \<and>
    unat (2 :: 64 word) + 6 \<le> length (e_store v) \<and> None \<notin> set (e_store v)"
  by (rule ev_create_capacity [where mok = "\<lambda>_. True" and m = "demo_mem 0"])
    (simp_all add: ev_create_def new_rec_def empty_heap_def)

end
