(* ===== verification/Revq.thy ===== *)
theory Revq
  imports EvQueue
begin

text \<open>
  Queues as R sees them, src/revq.c: an external pointer of class \<open>evqueue\<close> that leads to the
  queue. \<open>C_evq_pop\<close> and \<open>C_evq_push\<close> of EvQueue work on the queue that \<open>R2evq\<close> finds.
\<close>

subsection \<open>External pointers\<close>

text \<open>A value of R as far as it matters here: its class, and the address if it is an external pointer.
  A pointer that was saved and read in again is null.\<close>

datatype rhandle = ExtPtr "string list" ptr | NoExtPtr "string list"

primrec Rf_inherits :: "rhandle \<Rightarrow> string \<Rightarrow> bool" where
  "Rf_inherits (ExtPtr cls p) c = (c \<in> set cls)"
| "Rf_inherits (NoExtPtr cls) c = (c \<in> set cls)"

definition evq2R :: "ptr \<Rightarrow> rhandle" where
  "evq2R q = ExtPtr [''evqueue''] q"

definition entry2R :: "ptr \<Rightarrow> rhandle" where
  "entry2R e = ExtPtr [''eventry''] e"

definition R2evq :: "rhandle \<Rightarrow> fault + ptr" where
  "R2evq sQ =
     (if \<not> Rf_inherits sQ ''evqueue'' then Inl (RError InvalidArg)
      else
        (case sQ of
           NoExtPtr cls \<Rightarrow> Inl (RError InvalidArg)
         | ExtPtr cls q \<Rightarrow> if q = NULL then Inl (RError InvalidArg) else Inr q))"

definition C_evq_new :: "bool \<Rightarrow> bool \<Rightarrow> ev_queue heap \<Rightarrow> fault + rhandle \<times> ev_queue heap" where
  "C_evq_new calloc_ok init_ok qs =
     (case ev_queue_create calloc_ok init_ok of
        None \<Rightarrow> Inl (RError AllocFailed)
      | Some q \<Rightarrow> (let (a, qs) = new_rec q qs in Inr (evq2R (Some a), qs)))"

definition ev_queue_destroy :: "ptr \<Rightarrow> ev_queue heap \<Rightarrow> fault + ev_queue heap" where
  "ev_queue_destroy q qs = free_rec q qs"

text \<open>A call of the R interface on a queue that is given by its handle.\<close>

definition on_queue :: "rhandle \<Rightarrow> (ev_queue \<Rightarrow> fault + 'a \<times> ev_queue \<times> 'm) \<Rightarrow> ev_queue heap \<Rightarrow> fault + 'a \<times> ev_queue heap \<times> 'm" where
  "on_queue sQ f qs =
     rbind (R2evq sQ) (\<lambda>p.
     rbind (deref qs p) (\<lambda>q.
     rbind (f q) (\<lambda>(r, q, m).
     rbind (assign qs p (\<lambda>_. q)) (\<lambda>qs. Inr (r, qs, m)))))"

subsection \<open>Handles lead to their queues\<close>

lemma R2evq_evq2R [simp]: "R2evq (evq2R (Some a)) = Inr (Some a)"
  by (simp add: R2evq_def evq2R_def)

lemma R2evq_entry: "R2evq (entry2R e) = Inl (RError InvalidArg)"
  by (simp add: R2evq_def entry2R_def)

lemma new_queue:
  assumes "heap_ok qs"
  shows "\<exists>a qs'. C_evq_new True True qs = Inr (evq2R (Some a), qs') \<and> mem qs a = None \<and>
    mem qs' = (mem qs)(a \<mapsto> \<lparr>qhead = NULL, qtail = NULL, qfd = - 1\<rparr>) \<and> heap_ok qs'"
proof -
  obtain a h where new: "new_rec \<lparr>qhead = NULL, qtail = NULL, qfd = - 1\<rparr> qs = (a, h)"
    by (cases "new_rec \<lparr>qhead = NULL, qtail = NULL, qfd = - 1 :: int\<rparr> qs")
  from heap_ok_new [OF assms new] new show ?thesis
    by (intro exI [of _ a] exI [of _ h]) (simp add: C_evq_new_def ev_queue_create_def)
qed

text \<open>Work on one queue leaves the others alone, and on an empty queue there is nothing to pop.\<close>

lemma on_queue_frame:
  assumes "on_queue (evq2R (Some a)) f qs = Inr (r, qs', m)" "b \<noteq> a"
  shows "mem qs' b = mem qs b"
  using assms by (auto simp: on_queue_def assign_def rbind_iffs deref_Inr_iff)

lemma pop_new_queue:
  assumes "C_evq_new True True qs = Inr (sQ, qs')" "heap_ok qs"
  shows "\<exists>qs2. on_queue sQ (\<lambda>q. C_evq_pop alloc custom True None ref q m) qs' = Inr (EvNull, qs2, m)"
  using new_queue [OF assms(2)] assms(1)
  by (auto simp: on_queue_def C_evq_pop_def ev_pop_def take_head_def)

end
