(* ===== verification/Deps.thy ===== *)
theory Deps
  imports EvQueue
begin

text \<open>
  Dependency tracking, src/deps.c: a list of entries, each waiting for a set of keys, and the
  queue on which completed entries are announced. \<open>deps_add\<close>, which asks the object store,
  follows in the theory DepsAdd.
\<close>

subsection \<open>State\<close>

text \<open>The arrays \<open>keys\<close> and \<open>status\<close>, both of length \<open>nreq\<close>, are one list of pairs.\<close>

record depent =
  d_next :: ptr
  d_msg :: "32 word"
  d_reqs :: "(string \<times> bool) list"
  d_name :: string

record deps =
  dheap :: "depent heap"
  dhead :: ptr
  dtail :: ptr
  dep_queue :: "ev_queue option"
  dmem :: ev_mem
  notified :: "int list"

text \<open>The static variables at program start, and \<open>dep_init\<close> (the flag is \<open>init\<close>).\<close>

definition deps_start :: deps where
  "deps_start = \<lparr>dheap = empty_heap, dhead = NULL, dtail = NULL, dep_queue = None,
     dmem = \<lparr>ents = empty_heap, blocks = empty_heap\<rparr>, notified = []\<rparr>"

definition dep_init :: "bool \<Rightarrow> bool \<times> deps \<Rightarrow> bool \<times> deps" where
  "dep_init calloc_ok st =
     (case st of (init, d) \<Rightarrow>
        if init then (init, d)
        else (True, if dep_queue d = None then d\<lparr>dep_queue := ev_queue_create calloc_ok True\<rparr> else d))"

subsection \<open>Completing\<close>

text \<open>The event of a completed entry: an \<open>ev_resolved_t\<close>, that is \<open>msg\<close> followed by the name.
  When the event cannot be allocated the completion is dropped. A null queue is dereferenced.\<close>

definition deps_notify :: "(nat \<Rightarrow> bool) \<Rightarrow> string \<Rightarrow> 32 word \<Rightarrow> deps \<Rightarrow> fault + deps" where
  "deps_notify mok name msg d =
     (let (ev, m) = ev_create mok NoData (of_nat (strlen name + 4 + 4)) None (dmem d) in
      if ev = NULL then Inr (d\<lparr>dmem := m\<rparr>)
      else
        rbind (write_data ev (bytes32 msg @ cstr name @ [nul]) m) (\<lambda>m.
        case dep_queue d of
          None \<Rightarrow> Inl (Undefined NullDeref)
        | Some q \<Rightarrow>
            rbind (ev_push True q ev False m) (\<lambda>(r, fds, q, m).
            Inr (d\<lparr>dep_queue := Some q, dmem := m, notified := notified d @ fds\<rparr>))))"

definition mark :: "string option \<Rightarrow> (string \<times> bool) list \<Rightarrow> (string \<times> bool) list" where
  "mark key reqs = map (\<lambda>(k, s). (k, s \<or> (case key of None \<Rightarrow> False | Some c \<Rightarrow> same_str c k))) reqs"

definition satisfied :: "(string \<times> bool) list \<Rightarrow> bool" where
  "satisfied reqs \<longleftrightarrow> list_all snd reqs"

text \<open>The loop of \<open>deps_complete\<close>. Unlinking an entry adjusts \<open>head\<close> and the predecessor, but
  not \<open>tail\<close>.\<close>

primrec complete_loop :: "nat \<Rightarrow> (nat \<Rightarrow> bool) \<Rightarrow> string option \<Rightarrow> ptr \<Rightarrow> ptr \<Rightarrow> deps \<Rightarrow> fault + deps" where
  "complete_loop 0 mok key prev e d = Inl OutOfFuel"
| "complete_loop (Suc n) mok key prev e d =
     (if e = NULL then Inr d
      else
        rbind (deref (dheap d) e) (\<lambda>v.
        rbind (assign (dheap d) e (\<lambda>v. v\<lparr>d_reqs := mark key (d_reqs v)\<rparr>)) (\<lambda>h.
        if satisfied (mark key (d_reqs v)) then
          (let d = d\<lparr>dheap := h, dhead := (if dhead d = e then d_next v else dhead d)\<rparr> in
           rbind (if prev \<noteq> NULL then assign (dheap d) prev (\<lambda>w. w\<lparr>d_next := d_next v\<rparr>) else Inr (dheap d)) (\<lambda>h.
           rbind (deps_notify mok (d_name v) (d_msg v) (d\<lparr>dheap := h\<rparr>)) (\<lambda>d.
           rbind (free_rec e (dheap d)) (\<lambda>h.
           complete_loop n mok key prev (d_next v) (d\<lparr>dheap := h\<rparr>)))))
        else complete_loop n mok key e (d_next v) (d\<lparr>dheap := h\<rparr>))))"

text \<open>A list of distinct addresses below \<open>brk\<close> has at most \<open>brk\<close> elements: the fuel is enough
  for every list the heap can hold (\<open>complete_spec\<close>).\<close>

definition deps_complete :: "(nat \<Rightarrow> bool) \<Rightarrow> string option \<Rightarrow> deps \<Rightarrow> fault + deps" where
  "deps_complete mok key d = complete_loop (Suc (brk (dheap d))) mok key NULL (dhead d) d"

subsection \<open>What a completion does\<close>

type_synonym dep = "string \<times> 32 word \<times> (string \<times> bool) list"

definition dep_of :: "depent \<Rightarrow> dep" where
  "dep_of v = (d_name v, d_msg v, d_reqs v)"

text \<open>The pending entries, in list order.\<close>

definition dep_chain :: "deps \<Rightarrow> nat list \<Rightarrow> dep list \<Rightarrow> bool" where
  "dep_chain d xs ds \<longleftrightarrow> seg (mem (dheap d)) d_next (dhead d) xs NULL \<and> distinct xs \<and> heap_ok (dheap d) \<and>
     map (\<lambda>x. map_option dep_of (mem (dheap d) x)) xs = map Some ds"

definition dep_rep :: "deps \<Rightarrow> dep list \<Rightarrow> bool" where
  "dep_rep d ds \<longleftrightarrow> (\<exists>xs. dep_chain d xs ds)"

text \<open>The announced completions, oldest first.\<close>

definition dep_event :: "dep \<Rightarrow> cell list" where
  "dep_event dp = (case dp of (name, msg, reqs) \<Rightarrow> map Some (bytes32 msg @ cstr name @ replicate 4 nul))"

definition ev_payload :: "ev_mem \<Rightarrow> nat \<Rightarrow> cell list" where
  "ev_payload m a = (case mem (ents m) a of None \<Rightarrow> []
     | Some v \<Rightarrow> if e_data v = InStruct \<and> unat (e_len v) \<le> length (e_store v) then take (unat (e_len v)) (e_store v) else [])"

definition queue_rep :: "deps \<Rightarrow> cell list list \<Rightarrow> bool" where
  "queue_rep d evs \<longleftrightarrow> (\<exists>q xs. dep_queue d = Some q \<and> ev_rep (q, dmem d) xs \<and> heap_ok (ents (dmem d)) \<and>
     map (ev_payload (dmem d)) xs = evs)"

text \<open>The abstract step: entries are marked, the satisfied ones leave and are announced.\<close>

definition mark_dep :: "string option \<Rightarrow> dep \<Rightarrow> dep" where
  "mark_dep key dp = (case dp of (name, msg, reqs) \<Rightarrow> (name, msg, mark key reqs))"

definition ready_dep :: "dep \<Rightarrow> bool" where
  "ready_dep dp = (case dp of (name, msg, reqs) \<Rightarrow> satisfied reqs)"

text \<open>The addresses of the entries that stay.\<close>

definition kept :: "string option \<Rightarrow> nat list \<Rightarrow> dep list \<Rightarrow> nat list" where
  "kept key xs ds = map fst (filter (\<lambda>(x, dp). \<not> ready_dep dp) (zip xs (map (mark_dep key) ds)))"

lemma set_kept: "set (kept key xs ds) \<subseteq> set xs"
  by (auto simp: kept_def dest: set_zip_leftD)

subsection \<open>Announcing\<close>

lemma ev_create_payload:
  assumes "ev_create mok NoData len f m = (Some a, m')" "0 < len" "unat len < 2 ^ 64 - 48"
  shows "\<exists>v. mem (ents m') a = Some v \<and> e_data v = InStruct \<and> e_len v = len \<and>
    e_prev v = NULL \<and> e_next v = NULL \<and> unat len + 6 \<le> length (e_store v) \<and>
    e_store v = replicate (length (e_store v)) (Some nul)"
proof -
  obtain v where "mem (ents m') a = Some v" "e_data v = InStruct" "e_len v = len" "e_prev v = NULL"
    "e_next v = NULL" "unat len + 6 \<le> length (e_store v)"
    using ev_create_instruct [OF assms] by blast
  moreover have "\<exists>n. e_store v = replicate n (Some nul)"
    using assms(1) calculation(1)
    by (auto simp: ev_create_def new_rec_def Let_def split: if_splits)
  ultimately show ?thesis by auto
qed

lemma ev_push_payload:
  "ev_push l q e front m = Inr (r, fds, q', m') \<Longrightarrow> mem (ents m) a \<noteq> None \<Longrightarrow> ev_payload m' a = ev_payload m a"
  using ev_push_entry [of l q e front m r fds q' m' a] by (auto simp: ev_payload_def)

lemma deps_notify_spec:
  assumes mok: "\<And>n. mok n" and q: "queue_rep d evs" and name: "strlen name < 2 ^ 63"
  shows "\<exists>q m fds. deps_notify mok name msg d =
      Inr (d\<lparr>dep_queue := Some q, dmem := m, notified := notified d @ fds\<rparr>) \<and>
    queue_rep (d\<lparr>dep_queue := Some q, dmem := m, notified := notified d @ fds\<rparr>)
      (evs @ [dep_event (name, msg, reqs)])"
proof -
  let ?len = "of_nat (strlen name + 4 + 4) :: 64 word"
  let ?bs = "bytes32 msg @ cstr name @ [nul]"
  obtain q xs where q: "dep_queue d = Some q" "ev_rep (q, dmem d) xs" "heap_ok (ents (dmem d))"
      "map (ev_payload (dmem d)) xs = evs"
    using q by (auto simp: queue_rep_def)
  have len: "unat ?len = strlen name + 8"
    using name by (simp only: unat_of_nat) (simp add: take_bit_nat_eq_self_iff)
  then have pos: "0 < ?len"
    by (metis add_gr_0 unat_0 unat_gt_0 word_gt_0 zero_less_numeral)
  obtain a m1 where a: "ev_create mok NoData ?len None (dmem d) = (Some a, m1)"
    using mok by (auto simp: ev_create_def Let_def new_rec_def)
  note fr = ev_create_frame [OF q(3) a]
  obtain v where v: "mem (ents m1) a = Some v" "e_data v = InStruct" "e_len v = ?len" "e_prev v = NULL"
      "e_next v = NULL" "strlen name + 14 \<le> length (e_store v)"
      "e_store v = replicate (length (e_store v)) (Some nul)"
    using ev_create_payload [OF a pos] len name by auto
  let ?v = "v\<lparr>e_store := overwrite 0 (map Some ?bs) (e_store v)\<rparr>"
  let ?m = "m1\<lparr>ents := put_rec a ?v (ents m1)\<rparr>"
  have wr: "write_data (Some a) ?bs m1 = Inr ?m"
    using v by (simp add: write_data_def strlen_def)
  have "drop (strlen name + 5) (e_store v) = replicate (length (e_store v) - (strlen name + 5)) (Some nul)"
    by (subst v(7)) simp
  then have pay: "ev_payload ?m a = dep_event (name, msg, reqs)"
    using v len
    by (simp add: ev_payload_def dep_event_def overwrite_def strlen_def eval_nat_numeral)
  have a_notin: "a \<notin> set xs"
    using ev_rep_mem [OF q(2)] fr by metis
  have rep: "ev_rep (q, ?m) xs"
    using fr a_notin by (intro ev_rep_frame [OF q(2)]) auto
  have "ev_ready (q, ?m) a"
    using v by (simp add: ev_ready_def)
  then obtain q' m' where push: "ev_push True q (Some a) False ?m =
        Inr (Some a, (if qfd q \<noteq> - 1 then [qfd q] else []), q', m')" "ev_rep (q', m') (xs @ [a])"
      and ok: "heap_ok (ents m')"
    using ev_push_back_ok [OF rep _ a_notin] fr v(1) by fastforce
  have keep: "ev_payload m' y = ev_payload (dmem d) y" if "y \<in> set xs" for y
  proof -
    have "ev_payload m' y = ev_payload ?m y"
      using ev_push_payload [OF push(1)] ev_rep_mem [OF rep that] by simp
    also have "\<dots> = ev_payload (dmem d) y"
      using fr that a_notin by (auto simp: ev_payload_def)
    finally show ?thesis .
  qed
  have "deps_notify mok name msg d =
      Inr (d\<lparr>dep_queue := Some q', dmem := m',
        notified := notified d @ (if qfd q \<noteq> - 1 then [qfd q] else [])\<rparr>)"
    using a wr push(1) q(1) by (simp add: deps_notify_def)
  moreover have "map (ev_payload m') (xs @ [a]) = evs @ [dep_event (name, msg, reqs)]"
    using keep q(4) pay ev_push_payload [OF push(1), of a] by auto
  ultimately show ?thesis
    using push(2) ok unfolding queue_rep_def
    by (intro exI [of _ q'] exI [of _ m'] exI [of _ "if qfd q \<noteq> - 1 then [qfd q] else []"]) auto
qed

subsection \<open>The loop implements the abstract step\<close>

lemma mem_other: "x \<notin> set xs \<Longrightarrow> map (\<lambda>y. map_option f ((m(x := v)) y)) xs = map (\<lambda>y. map_option f (m y)) xs"
  by (intro map_cong) auto

lemma queue_rep_upd: "queue_rep (d\<lparr>dhead := p\<rparr>) evs = queue_rep d evs"
    "queue_rep (d\<lparr>dheap := h\<rparr>) evs = queue_rep d evs"
  by (simp_all add: queue_rep_def)

text \<open>The loop at an entry that is complete: it is taken out, announced and freed.\<close>

lemma complete_ready:
  assumes sg: "seg (mem (dheap d)) d_next (dhead d) (ps @ x # xs) NULL" "distinct (ps @ x # xs)" "heap_ok (dheap d)"
    and v: "mem (dheap d) x = Some v" "satisfied (mark key (d_reqs v))" "strlen (d_name v) < 2 ^ 63"
    and q: "queue_rep d evs" and mok: "\<And>n. mok n"
  shows "\<exists>d2. complete_loop (Suc fuel) mok key (last_ptr NULL ps) (Some x) d = complete_loop fuel mok key (last_ptr NULL ps) (d_next v) d2 \<and>
    seg (mem (dheap d2)) d_next (dhead d2) (ps @ xs) NULL \<and> heap_ok (dheap d2) \<and>
    (\<forall>y. y \<noteq> x \<longrightarrow> map_option dep_of (mem (dheap d2) y) = map_option dep_of (mem (dheap d) y)) \<and>
    (\<forall>y. y \<notin> set ps \<longrightarrow> mem (dheap d2) y = (if y = x then None else mem (dheap d) y)) \<and>
    queue_rep d2 (evs @ [dep_event (d_name v, d_msg v, mark key (d_reqs v))]) \<and> dtail d2 = dtail d"
proof -
  let ?h = "put_rec x (v\<lparr>d_reqs := mark key (d_reqs v)\<rparr>) (dheap d)" and ?f = "\<lambda>w. w\<lparr>d_next := d_next v\<rparr>"
  have dis: "x \<notin> set ps" "distinct ps" "x \<notin> set xs" "set ps \<inter> set xs = {}"
    using sg(2) by auto
  have parts: "seg (mem (dheap d)) d_next (dhead d) ps (Some x)" "seg (mem (dheap d)) d_next (d_next v) xs NULL"
    using sg(1) v(1) by (auto simp: seg_append)
  obtain h1 where h1: "(if last_ptr NULL ps \<noteq> NULL then assign ?h (last_ptr NULL ps) ?f else Inr ?h) = Inr h1"
      "seg (mem h1) d_next (if ps = [] then d_next v else dhead d) ps (d_next v)" "heap_ok h1"
      "\<forall>y. y \<notin> set ps \<longrightarrow> mem h1 y = mem ?h y" "\<forall>y. mem h1 y = mem ?h y \<or> (\<exists>w. mem ?h y = Some w \<and> mem h1 y = Some (?f w))"
    using seg_unlink [of ?h d_next "dhead d" ps "Some x" ?f "d_next v"] parts(1) dis v(1) sg(3) by auto
  let ?d1 = "d\<lparr>dhead := (if dhead d = Some x then d_next v else dhead d), dheap := h1\<rparr>"
  have "queue_rep ?d1 evs"
    using q by (simp add: queue_rep_upd)
  from deps_notify_spec [of mok, OF mok this v(3)] obtain q m fds where
    ntf: "deps_notify mok (d_name v) (d_msg v) ?d1 = Inr (?d1\<lparr>dep_queue := Some q, dmem := m, notified := notified ?d1 @ fds\<rparr>)"
      "queue_rep (?d1\<lparr>dep_queue := Some q, dmem := m, notified := notified ?d1 @ fds\<rparr>)
        (evs @ [dep_event (d_name v, d_msg v, mark key (d_reqs v))])"
    by blast
  let ?d2 = "?d1\<lparr>dep_queue := Some q, dmem := m, notified := notified ?d1 @ fds, dheap := h1\<lparr>mem := (mem h1)(x := None)\<rparr>\<rparr>"
  have x: "mem h1 x = Some (v\<lparr>d_reqs := mark key (d_reqs v)\<rparr>)"
    using h1(4) dis(1) by simp
  have "complete_loop (Suc fuel) mok key (last_ptr NULL ps) (Some x) d = complete_loop fuel mok key (last_ptr NULL ps) (d_next v) ?d2"
    using v h1(1) ntf(1) x by (simp add: Let_def del: not_None_eq split del: if_split cong: if_cong)
  moreover have "seg (mem h1) d_next (d_next v) xs NULL"
    using h1(4) dis parts(2) by (subst seg_cong [of xs _ "mem (dheap d)"]) auto
  then have "seg (mem (dheap ?d2)) d_next (dhead ?d2) (ps @ xs) NULL"
    using h1(2) dis seg_first [OF sg(1,2)] by (auto simp: seg_append)
  moreover have "map_option dep_of (mem (dheap ?d2) y) = map_option dep_of (mem (dheap d) y)" if "y \<noteq> x" for y
    using unlink_image [OF h1(5), of dep_of y] that by (simp add: dep_of_def)
  moreover have "queue_rep ?d2 (evs @ [dep_event (d_name v, d_msg v, mark key (d_reqs v))])"
    using ntf(2) by (simp add: queue_rep_def)
  ultimately show ?thesis
    using h1(3,4) dis(1) by (intro exI [of _ ?d2]) auto
qed

lemma complete_loop_spec:
  "seg (mem (dheap d)) d_next (dhead d) (ps @ xs) NULL \<Longrightarrow> distinct (ps @ xs) \<Longrightarrow> heap_ok (dheap d) \<Longrightarrow>
   map (\<lambda>x. map_option dep_of (mem (dheap d) x)) xs = map Some ds \<Longrightarrow>
   map (\<lambda>x. map_option dep_of (mem (dheap d) x)) ps = map Some dp \<Longrightarrow>
   queue_rep d evs \<Longrightarrow> list_all (\<lambda>(name, msg, reqs). strlen name < 2 ^ 63) ds \<Longrightarrow>
   (\<And>n. mok n) \<Longrightarrow> length xs < fuel \<Longrightarrow>
   \<exists>d'. complete_loop fuel mok key (last_ptr NULL ps) (first_ptr xs NULL) d = Inr d' \<and>
     dep_chain d' (ps @ kept key xs ds) (dp @ filter (\<lambda>x. \<not> ready_dep x) (map (mark_dep key) ds)) \<and>
     queue_rep d' (evs @ map dep_event (filter ready_dep (map (mark_dep key) ds))) \<and> dtail d' = dtail d \<and>
     (\<forall>y. y \<notin> set ps \<longrightarrow> y \<notin> set (kept key xs ds) \<longrightarrow> mem (dheap d') y = (if y \<in> set xs then None else mem (dheap d) y))"
proof (induction xs arbitrary: fuel d ps ds dp evs)
  case Nil
  then show ?case
    by (cases fuel) (auto simp: dep_chain_def kept_def)
next
  case (Cons x xs)
  obtain fuel' where fuel: "fuel = Suc fuel'"
    using Cons.prems(9) by (cases fuel) auto
  obtain v where v: "mem (dheap d) x = Some v" and sg: "seg (mem (dheap d)) d_next (dhead d) ps (Some x)"
      "seg (mem (dheap d)) d_next (d_next v) xs NULL"
    using Cons.prems(1) by (auto simp: seg_append)
  obtain ds' where ds: "ds = dep_of v # ds'"
      "map (\<lambda>y. map_option dep_of (mem (dheap d) y)) xs = map Some ds'"
    using Cons.prems(4) v by (cases ds) auto
  have dis: "x \<notin> set ps" "x \<notin> set xs" "distinct ps" "distinct xs" "set ps \<inter> set xs = {}"
    using Cons.prems(2) by auto
  have nx: "d_next v = first_ptr xs NULL"
    using seg_start [OF sg(2)] by (simp add: first_ptr_def)
  have md: "mark_dep key (dep_of v) = (d_name v, d_msg v, mark key (d_reqs v))"
    by (simp add: mark_dep_def dep_of_def)
  then have rd: "ready_dep (mark_dep key (dep_of v)) = satisfied (mark key (d_reqs v))"
    by (simp add: ready_dep_def)
  show ?case
  proof (cases "satisfied (mark key (d_reqs v))")
    case False
    let ?v = "v\<lparr>d_reqs := mark key (d_reqs v)\<rparr>"
    let ?d = "d\<lparr>dheap := put_rec x ?v (dheap d)\<rparr>"
    have step: "complete_loop fuel mok key (last_ptr NULL ps) (first_ptr (x # xs) NULL) d =
        complete_loop fuel' mok key (last_ptr NULL (ps @ [x])) (first_ptr xs NULL) ?d"
      using v False nx by (simp add: fuel)
    have "\<exists>d'. complete_loop fuel' mok key (last_ptr NULL (ps @ [x])) (first_ptr xs NULL) ?d = Inr d' \<and>
      dep_chain d' ((ps @ [x]) @ kept key xs ds') ((dp @ [dep_of ?v]) @ filter (\<lambda>x. \<not> ready_dep x) (map (mark_dep key) ds')) \<and>
      queue_rep d' (evs @ map dep_event (filter ready_dep (map (mark_dep key) ds'))) \<and> dtail d' = dtail ?d \<and>
      (\<forall>y. y \<notin> set (ps @ [x]) \<longrightarrow> y \<notin> set (kept key xs ds') \<longrightarrow>
        mem (dheap d') y = (if y \<in> set xs then None else mem (dheap ?d) y))"
    proof (rule Cons.IH)
      show "map (\<lambda>y. map_option dep_of (mem (dheap ?d) y)) xs = map Some ds'"
        using ds(2) by (simp add: mem_other [OF dis(2)] del: fun_upd_apply)
      show "map (\<lambda>y. map_option dep_of (mem (dheap ?d) y)) (ps @ [x]) = map Some (dp @ [dep_of ?v])"
        using Cons.prems(5) by (simp add: mem_other [OF dis(1)] del: fun_upd_apply) simp
      show "seg (mem (dheap ?d)) d_next (dhead ?d) ((ps @ [x]) @ xs) NULL"
        using sg dis nx by (auto simp: seg_append)
    qed (use Cons.prems sg v dis ds nx fuel in \<open>simp_all add: queue_rep_upd\<close>)
    moreover have "kept key (x # xs) ds = x # kept key xs ds'" "dep_of ?v = mark_dep key (dep_of v)"
      using False rd by (simp_all add: kept_def ds(1) md) (simp add: dep_of_def)
    ultimately show ?thesis
      using False step rd by (auto simp: ds(1))
  next
    case True
    have name: "strlen (d_name v) < 2 ^ 63"
      using Cons.prems(7) by (simp add: ds(1) dep_of_def)
    obtain d2 where d2: "complete_loop fuel mok key (last_ptr NULL ps) (first_ptr (x # xs) NULL) d =
        complete_loop fuel' mok key (last_ptr NULL ps) (first_ptr xs NULL) d2"
        "seg (mem (dheap d2)) d_next (dhead d2) (ps @ xs) NULL" "heap_ok (dheap d2)"
        "\<forall>y. y \<noteq> x \<longrightarrow> map_option dep_of (mem (dheap d2) y) = map_option dep_of (mem (dheap d) y)"
        "\<forall>y. y \<notin> set ps \<longrightarrow> mem (dheap d2) y = (if y = x then None else mem (dheap d) y)"
        "queue_rep d2 (evs @ [dep_event (mark_dep key (dep_of v))])" "dtail d2 = dtail d"
      using complete_ready [of _ _ _ _ _ _ _ mok, OF Cons.prems(1-3) v True name Cons.prems(6,8), of fuel'] by (auto simp: fuel nx md)
    have same: "map (\<lambda>y. map_option dep_of (mem (dheap d2) y)) zs = map (\<lambda>y. map_option dep_of (mem (dheap d) y)) zs" if "x \<notin> set zs" for zs
      using that d2(4) by (intro map_cong) auto
    have "\<exists>d'. complete_loop fuel' mok key (last_ptr NULL ps) (first_ptr xs NULL) d2 = Inr d' \<and>
      dep_chain d' (ps @ kept key xs ds') (dp @ filter (\<lambda>x. \<not> ready_dep x) (map (mark_dep key) ds')) \<and>
      queue_rep d' ((evs @ [dep_event (mark_dep key (dep_of v))]) @ map dep_event (filter ready_dep (map (mark_dep key) ds'))) \<and>
      dtail d' = dtail d2 \<and>
      (\<forall>y. y \<notin> set ps \<longrightarrow> y \<notin> set (kept key xs ds') \<longrightarrow>
        mem (dheap d') y = (if y \<in> set xs then None else mem (dheap d2) y))"
      using Cons.prems(2,5,7,9) d2(2,3,6) ds same [OF dis(1)] same [OF dis(2)] fuel
      by (intro Cons.IH [OF _ _ _ _ _ _ _ Cons.prems(8)]) simp_all
    moreover have "kept key (x # xs) ds = kept key xs ds'"
      using True rd by (simp add: kept_def ds(1))
    ultimately show ?thesis
      using True d2(1,5,7) rd by (auto simp: ds(1))
  qed
qed

lemma chain_fuel: "seg (mem h) nx p xs q \<Longrightarrow> distinct xs \<Longrightarrow> heap_ok h \<Longrightarrow> length xs \<le> brk h"
  by (intro heap_fuel) (auto dest: seg_mem)

lemma complete_chain:
  assumes c: "dep_chain d xs ds" and q: "queue_rep d evs"
    and names: "list_all (\<lambda>(name, msg, reqs). strlen name < 2 ^ 63) ds" and mok: "\<And>n. mok n"
  shows "\<exists>d'. deps_complete mok key d = Inr d' \<and>
     dep_chain d' (kept key xs ds) (filter (\<lambda>x. \<not> ready_dep x) (map (mark_dep key) ds)) \<and>
     queue_rep d' (evs @ map dep_event (filter ready_dep (map (mark_dep key) ds))) \<and> dtail d' = dtail d \<and>
     (\<forall>y. y \<notin> set (kept key xs ds) \<longrightarrow> mem (dheap d') y = (if y \<in> set xs then None else mem (dheap d) y))"
proof -
  have xs: "seg (mem (dheap d)) d_next (dhead d) xs NULL" "distinct xs" "heap_ok (dheap d)"
      "map (\<lambda>x. map_option dep_of (mem (dheap d) x)) xs = map Some ds"
    using c by (auto simp: dep_chain_def)
  have "dhead d = first_ptr xs NULL"
    using seg_start [OF xs(1)] by (simp add: first_ptr_def)
  then show ?thesis
    using complete_loop_spec [of d "[]" xs ds "[]" evs mok "Suc (brk (dheap d))" key]
      xs q names mok chain_fuel [OF xs(1-3)] by (simp add: deps_complete_def del: complete_loop.simps)
qed

lemma complete_spec:
  assumes "dep_rep d ds" "queue_rep d evs" "list_all (\<lambda>(name, msg, reqs). strlen name < 2 ^ 63) ds" "\<And>n. mok n"
  shows "\<exists>d'. deps_complete mok key d = Inr d' \<and>
     dep_rep d' (filter (\<lambda>x. \<not> ready_dep x) (map (mark_dep key) ds)) \<and>
     queue_rep d' (evs @ map dep_event (filter ready_dep (map (mark_dep key) ds)))"
proof -
  obtain xs where "dep_chain d xs ds"
    using assms(1) by (auto simp: dep_rep_def)
  from complete_chain [of _ _ _ _ mok, OF this assms(2-4)] show ?thesis
    unfolding dep_rep_def by blast
qed

subsection \<open>Popping an announcement\<close>

lemma ev_pop_payload:
  assumes "ev_pop True q m = Inr (e, q', m')" "mem (ents m) a \<noteq> None"
  shows "ev_payload m' a = ev_payload m a"
proof -
  obtain v where v: "mem (ents m) a = Some v"
    using assms(2) by blast
  note keep = assign_links [where a = a]
  have "\<exists>w. mem (ents m') a = Some w \<and> e_data w = e_data v \<and> e_len w = e_len v \<and> e_store w = e_store v \<and> e_free w = e_free v"
  proof (cases "qhead q = NULL")
    case True
    with assms(1) v show ?thesis
      by (simp add: ev_pop_def take_head_def)
  next
    case False
    then obtain u h1 h2 h3 where h: "deref (ents m) (qhead q) = Inr u"
        "(if e_next u \<noteq> NULL then assign (ents m) (e_next u) (\<lambda>w. w\<lparr>e_prev := e_prev u\<rparr>) else Inr (ents m)) = Inr h1"
        "(if e_prev u \<noteq> NULL then assign h1 (e_prev u) (\<lambda>w. w\<lparr>e_next := e_next u\<rparr>) else Inr h1) = Inr h2"
        "assign h2 (qhead q) (\<lambda>w. w\<lparr>e_next := NULL, e_prev := NULL\<rparr>) = Inr h3" "m' = m\<lparr>ents := h3\<rparr>"
      using assms(1) by (auto simp: ev_pop_def take_head_def ev_rm_def rbind_iffs Let_def)
    obtain v1 where v1: "mem h1 a = Some v1" "e_data v1 = e_data v" "e_len v1 = e_len v" "e_store v1 = e_store v" "e_free v1 = e_free v"
      using h(2) v keep [of "ents m" "e_next u" "\<lambda>w. w\<lparr>e_prev := e_prev u\<rparr>" h1 v] by (auto split: if_splits)
    obtain v2 where v2: "mem h2 a = Some v2" "e_data v2 = e_data v" "e_len v2 = e_len v" "e_store v2 = e_store v" "e_free v2 = e_free v"
      using h(3) v1 keep [of h1 "e_prev u" "\<lambda>w. w\<lparr>e_next := e_next u\<rparr>" h2 v1] by (auto split: if_splits)
    show ?thesis
      using keep [OF h(4) v2(1)] v2 h(5) by auto
  qed
  with v show ?thesis
    by (auto simp: ev_payload_def)
qed

text \<open>R pops the oldest announcement, and the others are left.\<close>

lemma announced_pop:
  assumes "queue_rep d (map Some bs # evs)" "bs \<noteq> []" "\<And>n. alloc n"
  shows "\<exists>q q' m'. dep_queue d = Some q \<and> C_evq_pop alloc custom True None False q (dmem d) = Inr (EvRaw bs, q', m') \<and>
    queue_rep (d\<lparr>dep_queue := Some q', dmem := m'\<rparr>) evs"
proof -
  obtain q x xs where q: "dep_queue d = Some q" "ev_rep (q, dmem d) (x # xs)" "heap_ok (ents (dmem d))"
      "ev_payload (dmem d) x = map Some bs" "map (ev_payload (dmem d)) xs = evs"
    using assms(1) by (auto simp: queue_rep_def map_eq_Cons_conv)
  obtain v where v: "mem (ents (dmem d)) x = Some v" "e_data v = InStruct" "take (unat (e_len v)) (e_store v) = map Some bs" "unat (e_len v) \<le> length (e_store v)"
    using q(4) assms(2) by (auto simp: ev_payload_def split: option.splits if_splits)
  obtain q' m where pop: "ev_pop True q (dmem d) = Inr (Some x, q', m)" "ev_rep (q', m) xs" "x \<notin> set xs"
      "brk (ents m) = brk (ents (dmem d))" "\<forall>y. y \<notin> set (x # xs) \<longrightarrow> mem (ents m) y = mem (ents (dmem d)) y"
      "mem (ents m) x = Some (v\<lparr>e_next := NULL, e_prev := NULL\<rparr>)"
    using ev_pop_first [OF q(2)] v(1) by auto
  let ?m = "m\<lparr>ents := (ents m)\<lparr>mem := (mem (ents m))(x := None)\<rparr>\<rparr>"
  have "length bs = unat (e_len v)"
    using arg_cong [OF v(3), of length] v(4) by simp
  then have len: "e_len v \<noteq> 0" "read_cells (unat (e_len v)) (e_store v) = Inr bs"
    using assms(2) read_cells_Some [OF v(3)] by auto
  then have "C_evq_pop alloc custom True None False q (dmem d) = Inr (EvRaw bs, q', ?m)"
    using pop(1,6) v(2) assms(3) by (simp add: C_evq_pop_def read_data_def ev_free_def)
  moreover have "ev_rep (q', ?m) xs"
    using pop(3) by (intro ev_rep_frame [OF pop(2)]) auto
  moreover have "map (ev_payload ?m) xs = evs"
  proof -
    have "ev_payload ?m y = ev_payload (dmem d) y" if "y \<in> set xs" for y
      using that pop(3) ev_pop_payload [OF pop(1), of y] ev_rep_mem [OF q(2), of y] by (auto simp: ev_payload_def)
    with q(5) show ?thesis
      by (auto intro: map_cong)
  qed
  moreover have "heap_ok (ents ?m)"
    unfolding heap_ok_def
  proof (intro allI impI)
    fix y w assume y: "mem (ents ?m) y = Some w"
    then have "mem (ents (dmem d)) y \<noteq> None"
      using pop(5) ev_rep_mem [OF q(2), of y] by (cases "y \<in> set (x # xs)") (auto split: if_splits)
    with q(3) show "y < brk (ents ?m)"
      using pop(4) by (auto simp: heap_ok_def)
  qed
  ultimately show ?thesis
    using q(1) unfolding queue_rep_def by (intro exI [of _ q] exI [of _ q'] exI [of _ ?m]) auto
qed

end
