(* ===== verification/Obj.thy ===== *)
theory Obj
  imports Deps Sfs
begin

text \<open>
  The object store, src/obj.c: a chain of entries searched by key, and a pool of entries that
  were removed and wait for \<open>obj_gc\<close>, the only place where R objects may be released.
\<close>

subsection \<open>State\<close>

text \<open>
  \<open>o_obj\<close> is the data pointer with the bytes it leads to: the code never writes to a block
  after it was added and never frees it. \<open>preserved\<close> is R's list of preserved objects.
\<close>

record obj_entry =
  o_len :: "64 word"
  o_obj :: "string option"
  o_sWhat :: "sexp option"
  o_next :: ptr
  o_key :: string

record store =
  oheap :: "obj_entry heap"
  obj_root :: ptr
  obj_gc_pool :: ptr
  preserved :: "sexp list"
  odeps :: deps

definition store_start :: store where
  "store_start = \<lparr>oheap = empty_heap, obj_root = NULL, obj_gc_pool = NULL, preserved = [], odeps = deps_start\<rparr>"

text \<open>\<open>obj_init\<close>: \<open>init\<close> is the pair of the static flags of obj.c and deps.c.\<close>

definition obj_init :: "bool \<Rightarrow> bool \<times> bool \<Rightarrow> store \<Rightarrow> (bool \<times> bool) \<times> store" where
  "obj_init calloc_ok init w =
     (if fst init then (init, w)
      else (let (i, d) = dep_init calloc_ok (snd init, odeps w) in ((True, i), w\<lparr>odeps := d\<rparr>)))"

definition R_PreserveObject :: "sexp \<Rightarrow> store \<Rightarrow> store" where
  "R_PreserveObject x w = w\<lparr>preserved := x # preserved w\<rparr>"

definition R_ReleaseObject :: "sexp \<Rightarrow> store \<Rightarrow> store" where
  "R_ReleaseObject x w = w\<lparr>preserved := remove1 x (preserved w)\<rparr>"

subsection \<open>Operations\<close>

text \<open>The result of \<open>calloc\<close> is not checked before the key is copied into it.\<close>

definition obj_add :: "(nat \<Rightarrow> bool) \<Rightarrow> string \<Rightarrow> sexp option \<Rightarrow> string option \<Rightarrow> 64 word \<Rightarrow> store \<Rightarrow> fault + store" where
  "obj_add mok key sWhat data len w =
     (if \<not> mok (40 + strlen key) then Inl (Undefined NullDeref)
      else
        (let (a, h) = new_rec \<lparr>o_len = len, o_obj = data, o_sWhat = sWhat, o_next = obj_root w, o_key = cstr key\<rparr> (oheap w);
             w = (case sWhat of None \<Rightarrow> w | Some x \<Rightarrow> R_PreserveObject x w);
             w = w\<lparr>oheap := h, obj_root := Some a\<rparr> in
         rbind (deps_complete mok (Some key) (odeps w)) (\<lambda>d. Inr (w\<lparr>odeps := d\<rparr>))))"

primrec gc_loop :: "nat \<Rightarrow> store \<Rightarrow> fault + store" where
  "gc_loop 0 w = Inl OutOfFuel"
| "gc_loop (Suc n) w =
     (if obj_gc_pool w = NULL then Inr w
      else
        (let c = obj_gc_pool w in
         rbind (deref (oheap w) c) (\<lambda>v.
           let w = (case o_sWhat v of None \<Rightarrow> w | Some x \<Rightarrow> R_ReleaseObject x w) in
           rbind (free_rec c (oheap w)) (\<lambda>h.
           gc_loop n (w\<lparr>obj_gc_pool := o_next v, oheap := h\<rparr>)))))"

definition obj_gc :: "store \<Rightarrow> fault + store" where
  "obj_gc w = gc_loop (Suc (brk (oheap w))) w"

primrec find_loop :: "nat \<Rightarrow> string \<Rightarrow> bool \<Rightarrow> ptr \<Rightarrow> ptr \<Rightarrow> store \<Rightarrow> fault + ptr \<times> store" where
  "find_loop 0 key rm prev e w = Inl OutOfFuel"
| "find_loop (Suc n) key rm prev e w =
     (if e = NULL then Inr (NULL, w)
      else
        rbind (deref (oheap w) e) (\<lambda>v.
        if same_str key (o_key v) then
          (if rm then
             rbind (if prev \<noteq> NULL
                    then rbind (assign (oheap w) prev (\<lambda>p. p\<lparr>o_next := o_next v\<rparr>)) (\<lambda>h. Inr (w\<lparr>oheap := h\<rparr>))
                    else Inr (w\<lparr>obj_root := o_next v\<rparr>)) (\<lambda>w.
             rbind (assign (oheap w) e (\<lambda>v. v\<lparr>o_next := obj_gc_pool w\<rparr>)) (\<lambda>h.
             Inr (e, w\<lparr>oheap := h, obj_gc_pool := e\<rparr>)))
           else Inr (e, w))
        else find_loop n key rm e (o_next v) w))"

definition obj_get :: "string \<Rightarrow> bool \<Rightarrow> store \<Rightarrow> fault + ptr \<times> store" where
  "obj_get key rm w = find_loop (Suc (brk (oheap w))) key rm NULL (obj_root w) w"

subsection \<open>What a keyed store promises\<close>

text \<open>The store as its clients see it: a stack of bindings, the newest first.\<close>

fun drop_key :: "string \<Rightarrow> (string \<times> 'v) list \<Rightarrow> (string \<times> 'v) list" where
  "drop_key k [] = []"
| "drop_key k ((c, v) # kvs) = (if c = k then kvs else (c, v) # drop_key k kvs)"

locale keyed_store =
  fixes add :: "'st \<Rightarrow> string \<Rightarrow> 'v \<Rightarrow> fault + 'st"
    and get :: "'st \<Rightarrow> string \<Rightarrow> fault + 'v option"
    and remove :: "'st \<Rightarrow> string \<Rightarrow> fault + 'v option \<times> 'st"
    and rep :: "'st \<Rightarrow> (string \<times> 'v) list \<Rightarrow> bool"
  assumes add: "rep st kvs \<Longrightarrow> \<exists>st'. add st k v = Inr st' \<and> rep st' ((cstr k, v) # kvs)"
    and get: "rep st kvs \<Longrightarrow> get st k = Inr (map_of kvs (cstr k))"
    and remove: "rep st kvs \<Longrightarrow> \<exists>st'. remove st k = Inr (map_of kvs (cstr k), st') \<and> rep st' (drop_key (cstr k) kvs)"
begin

lemma last_put_wins: "rep st kvs \<Longrightarrow> \<exists>st'. add st k v = Inr st' \<and> get st' k = Inr (Some v)"
  using add [of st kvs k v] get by fastforce

lemma other_keys_keep: "rep st kvs \<Longrightarrow> cstr k' \<noteq> cstr k \<Longrightarrow> \<exists>st'. add st k v = Inr st' \<and> get st' k' = get st k'"
  using add [of st kvs k v] get by fastforce

text \<open>Removing undoes the latest addition, and only that.\<close>

lemma remove_reveals: "rep st kvs \<Longrightarrow>
    \<exists>st' st''. add st k v = Inr st' \<and> remove st' k = Inr (Some v, st'') \<and> get st'' k' = get st k'"
proof -
  assume r: "rep st kvs"
  obtain st' where st': "add st k v = Inr st'" "rep st' ((cstr k, v) # kvs)"
    using add [OF r] by blast
  obtain st'' where "remove st' k = Inr (Some v, st'')" "rep st'' kvs"
    using remove [OF st'(2), of k] by auto
  with st'(1) get r show ?thesis by metis
qed

lemma adds: "rep st kvs \<Longrightarrow>
    \<exists>st'. foldr_m (\<lambda>st (k, v). add st k v) st ps = Inr st' \<and> rep st' (rev (map (\<lambda>(k, v). (cstr k, v)) ps) @ kvs)"
proof (induction ps arbitrary: st kvs)
  case (Cons p ps)
  obtain k v where p: "p = (k, v)" by (cases p)
  obtain st1 where "add st k v = Inr st1" "rep st1 ((cstr k, v) # kvs)"
    using add [OF Cons.prems] by blast
  with Cons.IH [of st1] p show ?case by force
qed simp

end

subsection \<open>The chain and the pool\<close>

type_synonym obj_val = "64 word \<times> string option \<times> sexp option"

definition binding :: "obj_entry \<Rightarrow> string \<times> obj_val" where
  "binding v = (o_key v, o_len v, o_obj v, o_sWhat v)"

text \<open>The chains \<open>xs\<close> and \<open>ys\<close> are disjoint and account for every entry of the heap, and what R
  preserves is what the entries refer to (\<open>R_NilValue\<close>, which needs no protection, aside).\<close>

definition whats_of :: "obj_entry option \<Rightarrow> sexp list" where
  "whats_of r = (case r of None \<Rightarrow> [] | Some v \<Rightarrow> (case o_sWhat v of None \<Rightarrow> [] | Some x \<Rightarrow> [x]))"

definition whats :: "store \<Rightarrow> nat list \<Rightarrow> sexp list" where
  "whats w xs = concat (map (\<lambda>a. whats_of (mem (oheap w) a)) xs)"

definition chains :: "store \<Rightarrow> nat list \<Rightarrow> nat list \<Rightarrow> bool" where
  "chains w xs ys \<longleftrightarrow>
     seg (mem (oheap w)) o_next (obj_root w) xs NULL \<and> seg (mem (oheap w)) o_next (obj_gc_pool w) ys NULL \<and>
     distinct (xs @ ys) \<and> heap_ok (oheap w) \<and> dom (mem (oheap w)) = set (xs @ ys) \<and>
     (\<forall>x. x \<noteq> R_NilValue \<longrightarrow> count_list (preserved w) x = count_list (whats w (xs @ ys)) x)"

text \<open>The same while threads hold entries \<open>zs\<close> that they have filled and not yet linked.\<close>

definition chains_with :: "store \<Rightarrow> nat list \<Rightarrow> nat list \<Rightarrow> nat list \<Rightarrow> bool" where
  "chains_with w xs ys zs \<longleftrightarrow>
     seg (mem (oheap w)) o_next (obj_root w) xs NULL \<and> seg (mem (oheap w)) o_next (obj_gc_pool w) ys NULL \<and>
     distinct (xs @ ys @ zs) \<and> heap_ok (oheap w) \<and> dom (mem (oheap w)) = set (xs @ ys @ zs) \<and>
     (\<forall>x. x \<noteq> R_NilValue \<longrightarrow> count_list (preserved w) x = count_list (whats w (xs @ ys @ zs)) x)"

lemma chains_with_Nil: "chains_with w xs ys [] = chains w xs ys"
  by (simp add: chains_with_def chains_def)

definition bindings :: "store \<Rightarrow> nat list \<Rightarrow> (string \<times> obj_val) list \<Rightarrow> bool" where
  "bindings w xs kvs \<longleftrightarrow> map (\<lambda>a. map_option binding (mem (oheap w) a)) xs = map Some kvs \<and>
     list_all (\<lambda>(k, v). nul \<notin> set k) kvs"

definition obj_rep :: "store \<Rightarrow> (string \<times> obj_val) list \<Rightarrow> bool" where
  "obj_rep w kvs \<longleftrightarrow> (\<exists>xs ys. chains w xs ys \<and> bindings w xs kvs)"

definition deps_good :: "store \<Rightarrow> bool" where
  "deps_good w \<longleftrightarrow> (\<exists>ds evs. dep_rep (odeps w) ds \<and> queue_rep (odeps w) evs \<and>
     list_all (\<lambda>(name, msg, reqs). strlen name < 2 ^ 63) ds)"

lemma whats_append [simp]: "whats w (xs @ ys) = whats w xs @ whats w ys"
  by (simp add: whats_def)

lemma whats_Cons: "whats w (x # xs) = whats_of (mem (oheap w) x) @ whats w xs"
  by (simp add: whats_def)

lemma whats_cong: "(\<And>a. a \<in> set xs \<Longrightarrow> whats_of (mem (oheap w) a) = whats_of (mem (oheap w') a)) \<Longrightarrow> whats w xs = whats w' xs"
  unfolding whats_def by (intro arg_cong [where f = concat] map_cong) auto

lemma bindings_cong: "(\<And>a. a \<in> set xs \<Longrightarrow> map_option binding (mem (oheap w) a) = map_option binding (mem (oheap w') a)) \<Longrightarrow>
    bindings w xs kvs = bindings w' xs kvs"
  unfolding bindings_def by (metis (mono_tags, lifting) map_eq_conv)

lemma bindings_Cons: "bindings w (x # xs) kvs \<longleftrightarrow> (\<exists>v kvs'. mem (oheap w) x = Some v \<and> kvs = binding v # kvs' \<and>
    nul \<notin> set (o_key v) \<and> bindings w xs kvs')"
  by (cases kvs) (auto simp: bindings_def binding_def)

lemma bindings_append: "bindings w xs kvs \<Longrightarrow> bindings w ys kvs' \<Longrightarrow> bindings w (xs @ ys) (kvs @ kvs')"
  by (simp add: bindings_def)

lemma count_remove1: "count_list (remove1 x xs) y = (if x = y then count_list xs y - 1 else count_list xs y)"
  by (induction xs) (auto simp: count_list_0_iff)

lemma whats_of_Some [simp]: "whats_of (Some v) = (case o_sWhat v of None \<Rightarrow> [] | Some x \<Rightarrow> [x])"
  by (simp add: whats_of_def)

subsubsection \<open>Adding\<close>

lemma deps_complete_good:
  assumes "deps_good w" "\<And>n. mok n"
  shows "\<exists>d'. deps_complete mok (Some key) (odeps w) = Inr d' \<and> (\<forall>w0. deps_good (w0\<lparr>odeps := d'\<rparr>))"
proof -
  obtain ds evs where ds: "dep_rep (odeps w) ds" "queue_rep (odeps w) evs"
      "list_all (\<lambda>(name, msg, reqs). strlen name < 2 ^ 63) ds"
    using assms(1) by (auto simp: deps_good_def)
  obtain d' where d': "deps_complete mok (Some key) (odeps w) = Inr d'"
      "dep_rep d' (filter (\<lambda>x. \<not> ready_dep x) (map (mark_dep (Some key)) ds))"
      "queue_rep d' (evs @ map dep_event (filter ready_dep (map (mark_dep (Some key)) ds)))"
    using complete_spec [of _ _ _ mok, OF ds assms(2)] by blast
  have "list_all (\<lambda>(name, msg, reqs). strlen name < 2 ^ 63) (filter (\<lambda>x. \<not> ready_dep x) (map (mark_dep (Some key)) ds))"
    using ds(3) by (auto simp: list_all_iff mark_dep_def)
  then show ?thesis
    using d' by (auto simp: deps_good_def)
qed

lemma obj_add_chains:
  assumes c: "chains w xs ys" and b: "bindings w xs kvs" and d: "deps_good w" and mok: "\<And>n. mok n"
  shows "\<exists>w' a. obj_add mok key sWhat data len w = Inr w' \<and> chains w' (a # xs) ys \<and>
    bindings w' (a # xs) ((cstr key, len, data, sWhat) # kvs) \<and> deps_good w' \<and> a \<notin> dom (mem (oheap w)) \<and>
    (\<forall>x. x \<noteq> a \<longrightarrow> mem (oheap w') x = mem (oheap w) x) \<and>
    (\<exists>d'. deps_complete mok (Some key) (odeps w) = Inr d' \<and> odeps w' = d')"
proof -
  let ?v = "\<lparr>o_len = len, o_obj = data, o_sWhat = sWhat, o_next = obj_root w, o_key = cstr key\<rparr>"
  obtain a h where new: "new_rec ?v (oheap w) = (a, h)"
    by (cases "new_rec ?v (oheap w)")
  have h: "heap_ok h" "mem (oheap w) a = None" "mem h = (mem (oheap w))(a \<mapsto> ?v)"
    using heap_ok_new [OF _ new] c by (auto simp: chains_def)
  obtain d' where d': "deps_complete mok (Some key) (odeps w) = Inr d'" "\<forall>w0. deps_good (w0\<lparr>odeps := d'\<rparr>)"
    using deps_complete_good [of w mok, OF d mok] by blast
  have a: "a \<notin> set xs" "a \<notin> set ys"
    using c h(2) by (auto simp: chains_def dest!: equalityD2)
  let ?w = "(case sWhat of None \<Rightarrow> w | Some x \<Rightarrow> R_PreserveObject x w)\<lparr>oheap := h, obj_root := Some a, odeps := d'\<rparr>"
  have "obj_add mok key sWhat data len w = Inr ?w"
    using mok d' new by (simp add: obj_add_def Let_def R_PreserveObject_def split: option.splits)
  moreover have "whats ?w zs = whats w zs" if "a \<notin> set zs" for zs
    using that h(3) by (intro whats_cong) auto
  then have "chains ?w (a # xs) ys"
    using c h a by (auto simp: chains_def R_PreserveObject_def whats_def split: option.splits)
  moreover have "bindings ?w xs kvs = bindings w xs kvs"
    using a h(3) by (intro bindings_cong) auto
  then have "bindings ?w (a # xs) ((cstr key, len, data, sWhat) # kvs)"
    using b h(3) by (auto simp: bindings_Cons binding_def)
  ultimately show ?thesis
    using d'(2) [THEN spec, of "(case sWhat of None \<Rightarrow> w | Some x \<Rightarrow> R_PreserveObject x w)\<lparr>oheap := h, obj_root := Some a\<rparr>"] h(2,3) d'(1)
    by (intro exI [of _ ?w] exI [of _ a]) auto
qed

subsubsection \<open>Finding\<close>

lemma find_loop_get:
  "seg (mem (oheap w)) o_next e xs NULL \<Longrightarrow> bindings w xs kvs \<Longrightarrow> length xs < fuel \<Longrightarrow>
    \<exists>r. find_loop fuel key False prev e w = Inr (r, w) \<and>
      (case map_of kvs (cstr key) of None \<Rightarrow> r = NULL
       | Some v \<Rightarrow> \<exists>a en. a \<in> set xs \<and> r = Some a \<and> mem (oheap w) a = Some en \<and> binding en = (cstr key, v) \<and>
           (\<exists>as bs. xs = as @ a # bs \<and> cstr key \<notin> fst ` set (take (length as) kvs)))"
proof (induction xs arbitrary: fuel prev e kvs)
  case Nil
  then show ?case by (cases fuel) (auto simp: bindings_def)
next
  case (Cons x xs)
  obtain fuel' where fuel: "fuel = Suc fuel'"
    using Cons.prems(3) by (cases fuel) auto
  obtain v kvs' where v: "e = Some x" "mem (oheap w) x = Some v" "seg (mem (oheap w)) o_next (o_next v) xs NULL"
      "kvs = binding v # kvs'" "nul \<notin> set (o_key v)" "bindings w xs kvs'"
    using Cons.prems(1,2) by (auto simp: bindings_Cons)
  have k: "same_str key (o_key v) \<longleftrightarrow> o_key v = cstr key"
    using v(5) by (auto simp: same_str_def cstr_id)
  obtain r where "find_loop fuel' key False e (o_next v) w = Inr (r, w)"
      "case map_of kvs' (cstr key) of None \<Rightarrow> r = NULL
       | Some v \<Rightarrow> \<exists>a en. a \<in> set xs \<and> r = Some a \<and> mem (oheap w) a = Some en \<and> binding en = (cstr key, v) \<and>
           (\<exists>as bs. xs = as @ a # bs \<and> cstr key \<notin> fst ` set (take (length as) kvs'))"
    using Cons.IH [OF v(3,6), of fuel' e] Cons.prems(3) fuel by auto
  note r = this
  show ?case
  proof (cases "o_key v = cstr key")
    case True
    have "\<exists>as bs. x # xs = as @ x # bs \<and> cstr key \<notin> fst ` set (take (length as) kvs)"
      by (intro exI [of _ "[]"] exI [of _ xs]) simp
    with v k True show ?thesis
      by (simp add: fuel binding_def)
  next
    case False
    have m: "map_of kvs (cstr key) = map_of kvs' (cstr key)"
      using v(4) False by (simp add: binding_def)
    have f: "find_loop fuel key False prev e w = Inr (r, w)"
      using r(1) v k False by (simp add: fuel)
    show ?thesis
    proof (cases "map_of kvs' (cstr key)")
      case None
      with r(2) m f show ?thesis by simp
    next
      case (Some val)
      obtain a en as bs where a: "a \<in> set xs" "r = Some a" "mem (oheap w) a = Some en" "binding en = (cstr key, val)"
          "xs = as @ a # bs" "cstr key \<notin> fst ` set (take (length as) kvs')"
        using r(2) Some by auto
      have "x # xs = (x # as) @ a # bs \<and> cstr key \<notin> fst ` set (take (length (x # as)) kvs)"
        using a(5,6) v(4) False by (simp add: binding_def)
      with a f m Some show ?thesis
        by simp (intro exI [of _ "x # as"] conjI exI [of _ bs]; simp)
    qed
  qed
qed

text \<open>The loop at the entry that is looked for: it is taken out of the chain and put on the pool.\<close>

lemma find_match_with:
  assumes c: "chains_with w (ps @ x # xs) ys zs" and v: "mem (oheap w) x = Some v" "same_str key (o_key v)"
  shows "\<exists>w2. find_loop (Suc fuel) key True (last_ptr NULL ps) (Some x) w = Inr (Some x, w2) \<and> odeps w2 = odeps w \<and>
    chains_with w2 (ps @ xs) (x # ys) zs \<and> (\<forall>y. map_option binding (mem (oheap w2) y) = map_option binding (mem (oheap w) y))"
proof -
  let ?f = "\<lambda>p. p\<lparr>o_next := o_next v\<rparr>" and ?v = "v\<lparr>o_next := obj_gc_pool w\<rparr>"
  have sg: "seg (mem (oheap w)) o_next (obj_root w) (ps @ x # xs) NULL" "distinct (ps @ x # xs)" "heap_ok (oheap w)"
      "x \<notin> set ps" "x \<notin> set xs" "x \<notin> set ys" "distinct ps" "set ps \<inter> set ys = {}" "set ps \<inter> set xs = {}"
    using c by (auto simp: chains_with_def)
  have parts: "seg (mem (oheap w)) o_next (obj_root w) ps (Some x)" "seg (mem (oheap w)) o_next (o_next v) xs NULL"
    using sg(1) v(1) by (auto simp: seg_append)
  obtain h where h: "(if last_ptr NULL ps \<noteq> NULL then assign (oheap w) (last_ptr NULL ps) ?f else Inr (oheap w)) = Inr h"
      "seg (mem h) o_next (if ps = [] then o_next v else obj_root w) ps (o_next v)" "heap_ok h"
      "\<forall>y. y \<notin> set ps \<longrightarrow> mem h y = mem (oheap w) y"
      "\<forall>y. mem h y = mem (oheap w) y \<or> (\<exists>u. mem (oheap w) y = Some u \<and> mem h y = Some (?f u))"
    using seg_unlink [of "oheap w" o_next "obj_root w" ps "Some x" ?f "o_next v"] parts(1) sg(3,7) by auto
  let ?w1 = "w\<lparr>oheap := h, obj_root := (if ps = [] then o_next v else obj_root w)\<rparr>"
  let ?w2 = "?w1\<lparr>oheap := put_rec x ?v h, obj_gc_pool := Some x\<rparr>"
  have x: "mem h x = Some v"
    using h(4) sg(4) v(1) by simp
  have "(if last_ptr NULL ps \<noteq> NULL then rbind (assign (oheap w) (last_ptr NULL ps) ?f) (\<lambda>h. Inr (w\<lparr>oheap := h\<rparr>))
      else Inr (w\<lparr>obj_root := o_next v\<rparr>)) = Inr ?w1"
    using h(1) by (cases "ps = []") (auto simp: last_ptr_def)
  then have "find_loop (Suc fuel) key True (last_ptr NULL ps) (Some x) w = Inr (Some x, ?w2)"
    using v x by (simp del: not_None_eq split del: if_split)
  moreover have same: "map_option binding (mem (oheap ?w2) y) = map_option binding (mem (oheap w) y)" for y
    using unlink_image [OF h(5), of binding y] v(1) by (auto simp: binding_def)
  moreover have "chains_with ?w2 (ps @ xs) (x # ys) zs"
    unfolding chains_with_def
  proof (intro conjI allI impI)
    have "seg (mem h) o_next (o_next v) xs NULL"
      using parts(2) h(4) sg(9) by (subst seg_cong [of xs _ "mem (oheap w)"]) auto
    then show "seg (mem (oheap ?w2)) o_next (obj_root ?w2) (ps @ xs) NULL"
      using h(2) sg(4,5) by (auto simp: seg_append)
    have "seg (mem h) o_next (obj_gc_pool w) ys NULL"
      using c h(4) sg(8) by (subst seg_cong [of ys _ "mem (oheap w)"]) (auto simp: chains_with_def)
    then show "seg (mem (oheap ?w2)) o_next (obj_gc_pool ?w2) (x # ys) NULL"
      using sg(6) by simp
    have "mem (oheap ?w2) y = None \<longleftrightarrow> mem (oheap w) y = None" for y
      using same [of y] by (cases "mem (oheap ?w2) y"; cases "mem (oheap w) y") auto
    then show "dom (mem (oheap ?w2)) = set ((ps @ xs) @ (x # ys) @ zs)"
      using c by (auto simp: chains_with_def dom_def)
    have "whats_of (mem (oheap ?w2) y) = whats_of (mem (oheap w) y)" for y
      using same [of y] by (cases "mem (oheap ?w2) y"; cases "mem (oheap w) y") (auto simp: binding_def)
    then have "whats ?w2 us = whats w us" for us
      by (rule whats_cong)
    then show "count_list (preserved ?w2) y = count_list (whats ?w2 ((ps @ xs) @ (x # ys) @ zs)) y" if "y \<noteq> R_NilValue" for y
      using c that v(1) by (simp add: chains_with_def whats_Cons del: whats_of_Some) (simp add: v(1))
  qed (use c h(3) x in \<open>auto simp: chains_with_def\<close>)
  ultimately show ?thesis
    by (intro exI [of _ ?w2]) auto
qed

lemmas find_match = find_match_with [where zs = "[]", unfolded chains_with_Nil]

lemma find_loop_rm:
  "chains w (ps @ xs) ys \<Longrightarrow> bindings w ps kp \<Longrightarrow> bindings w xs kvs \<Longrightarrow> length xs < fuel \<Longrightarrow>
    \<exists>r w'. find_loop fuel key True (last_ptr NULL ps) (first_ptr xs NULL) w = Inr (r, w') \<and> odeps w' = odeps w \<and>
      (case map_of kvs (cstr key) of None \<Rightarrow> r = NULL \<and> w' = w
       | Some v \<Rightarrow> \<exists>a en xs'. r = Some a \<and> mem (oheap w') a = Some en \<and> binding en = (cstr key, v) \<and>
           chains w' (ps @ xs') (a # ys) \<and> bindings w' (ps @ xs') (kp @ drop_key (cstr key) kvs))"
proof (induction xs arbitrary: fuel ps kp kvs)
  case Nil
  then show ?case by (cases fuel) (auto simp: bindings_def)
next
  case (Cons x xs)
  obtain fuel' where fuel: "fuel = Suc fuel'"
    using Cons.prems(4) by (cases fuel) auto
  obtain v kvs' where v: "mem (oheap w) x = Some v" "seg (mem (oheap w)) o_next (o_next v) xs NULL"
      "kvs = binding v # kvs'" "nul \<notin> set (o_key v)" "bindings w xs kvs'"
    using Cons.prems(1,3) by (auto simp: bindings_Cons chains_def seg_append)
  have k: "same_str key (o_key v) \<longleftrightarrow> o_key v = cstr key"
    using v(4) by (auto simp: same_str_def cstr_id)
  have nx: "o_next v = first_ptr xs NULL"
    using seg_start [OF v(2)] by (simp add: first_ptr_def)
  show ?case
  proof (cases "o_key v = cstr key")
    case False
    have "bindings w (ps @ [x]) (kp @ [binding v])"
      using v(1,4) by (intro bindings_append [OF Cons.prems(2)]) (simp add: bindings_Cons, simp add: bindings_def)
    from Cons.IH [of "ps @ [x]", OF _ this v(5), of fuel'] Cons.prems(1,4) fuel show ?thesis
      using v(1,3) k nx False
      by (auto simp: fuel binding_def split: option.splits) (intro exI conjI; assumption)
  next
    case True
    obtain w2 where w2: "find_loop fuel key True (last_ptr NULL ps) (first_ptr (x # xs) NULL) w = Inr (Some x, w2)" "odeps w2 = odeps w"
        "chains w2 (ps @ xs) (x # ys)" "\<forall>y. map_option binding (mem (oheap w2) y) = map_option binding (mem (oheap w) y)"
      using find_match [OF Cons.prems(1) v(1), of key fuel'] True k by (auto simp: fuel)
    have "bindings w2 (ps @ xs) (kp @ kvs') = bindings w (ps @ xs) (kp @ kvs')"
      by (rule bindings_cong) (use w2(4) in blast)
    then have "bindings w2 (ps @ xs) (kp @ kvs')"
      using bindings_append [OF Cons.prems(2) v(5)] by simp
    moreover obtain en where "mem (oheap w2) x = Some en" "binding en = binding v"
      using w2(4) v(1) by (metis map_option_eq_Some option.simps(9))
    ultimately show ?thesis
      using w2(1-3) v(3) True by (auto simp: binding_def)
  qed
qed

subsubsection \<open>Emptying the pool\<close>

text \<open>One round of the loop of \<open>obj_gc\<close>.\<close>

definition gc_round :: "store \<Rightarrow> fault + store" where
  "gc_round w =
     rbind (deref (oheap w) (obj_gc_pool w)) (\<lambda>v.
       let w' = (case o_sWhat v of None \<Rightarrow> w | Some x \<Rightarrow> R_ReleaseObject x w) in
       rbind (free_rec (obj_gc_pool w) (oheap w)) (\<lambda>h. Inr (w'\<lparr>obj_gc_pool := o_next v, oheap := h\<rparr>)))"

lemma gc_loop_rounds: "gc_loop (Suc n) w = (if obj_gc_pool w = NULL then Inr w else rbind (gc_round w) (gc_loop n))"
  by (cases "deref (oheap w) (obj_gc_pool w)"; cases "free_rec (obj_gc_pool w) (oheap w)")
    (simp_all add: gc_round_def Let_def R_ReleaseObject_def split: option.split)

text \<open>The loop at the first entry of the pool: its object is released and it is freed.\<close>

lemma gc_step_with:
  assumes c: "chains_with w xs (y # ys) zs"
  shows "\<exists>w2. gc_round w = Inr w2 \<and> chains_with w2 xs ys zs \<and> obj_root w2 = obj_root w \<and>
    odeps w2 = odeps w \<and> mem (oheap w2) = (mem (oheap w))(y := None)"
proof -
  obtain v where v: "obj_gc_pool w = Some y" "mem (oheap w) y = Some v"
      "seg (mem (oheap w)) o_next (o_next v) ys NULL"
    using c by (auto simp: chains_with_def)
  have y: "y \<notin> set xs" "y \<notin> set ys" "y \<notin> set zs"
    using c by (auto simp: chains_with_def)
  let ?w1 = "case o_sWhat v of None \<Rightarrow> w | Some x \<Rightarrow> R_ReleaseObject x w"
  let ?w2 = "?w1\<lparr>obj_gc_pool := o_next v, oheap := (oheap w)\<lparr>mem := (mem (oheap w))(y := None)\<rparr>\<rparr>"
  have keep: "whats ?w2 us = whats w us" if "y \<notin> set us" for us
    using that by (intro whats_cong) auto
  have "chains_with ?w2 xs ys zs"
    unfolding chains_with_def
  proof (intro conjI allI impI)
    show "seg (mem (oheap ?w2)) o_next (obj_root ?w2) xs NULL" "heap_ok (oheap ?w2)" "distinct (xs @ ys @ zs)"
      using c y by (auto simp: chains_with_def R_ReleaseObject_def split: option.splits)
    show "seg (mem (oheap ?w2)) o_next (obj_gc_pool ?w2) ys NULL"
      using v(3) y by simp
    show "dom (mem (oheap ?w2)) = set (xs @ ys @ zs)"
      using c y by (auto simp: chains_with_def)
    show "count_list (preserved ?w2) x = count_list (whats ?w2 (xs @ ys @ zs)) x" if "x \<noteq> R_NilValue" for x
    proof -
      have "count_list (preserved w) x = count_list (whats w xs) x + count_list (whats_of (Some v)) x + count_list (whats w (ys @ zs)) x"
        using c that v(2) by (simp add: chains_with_def whats_Cons)
      then show ?thesis
        using keep y by (auto simp: R_ReleaseObject_def count_remove1 split: option.splits)
    qed
  qed
  moreover have "gc_round w = Inr ?w2"
    using v by (simp add: gc_round_def)
  ultimately show ?thesis
    by (intro exI [of _ ?w2]) (auto simp: R_ReleaseObject_def split: option.splits)
qed

lemmas gc_step = gc_step_with [where zs = "[]", unfolded chains_with_Nil]

lemma gc_loop_spec:
  "chains w xs ys \<Longrightarrow> length ys < fuel \<Longrightarrow>
    \<exists>w'. gc_loop fuel w = Inr w' \<and> chains w' xs [] \<and> obj_root w' = obj_root w \<and> odeps w' = odeps w \<and>
      (\<forall>a. a \<in> set xs \<longrightarrow> mem (oheap w') a = mem (oheap w) a)"
proof (induction ys arbitrary: w fuel)
  case Nil
  then show ?case by (cases fuel) (auto simp: chains_def)
next
  case (Cons y ys)
  obtain fuel' where fuel: "fuel = Suc fuel'"
    using Cons.prems(2) by (cases fuel) auto
  have "y \<notin> set xs"
    using Cons.prems(1) by (auto simp: chains_def)
  moreover have "obj_gc_pool w \<noteq> NULL"
    using Cons.prems(1) by (auto simp: chains_def)
  ultimately show ?case
    using gc_step [OF Cons.prems(1)] Cons.IH [of _ fuel'] Cons.prems(2)
    unfolding fuel gc_loop_rounds by fastforce
qed

declare find_loop.simps [simp del] gc_loop.simps [simp del]

lemma bindings_Nil [simp]: "bindings w [] []"
  by (simp add: bindings_def)

lemma chains_fuel: "chains w xs ys \<Longrightarrow> length xs \<le> brk (oheap w) \<and> length ys \<le> brk (oheap w)"
  using chain_fuel [of "oheap w" o_next] by (auto simp: chains_def)

lemma chains_first: "chains w xs ys \<Longrightarrow> obj_root w = first_ptr xs NULL"
  by (auto simp: chains_def first_ptr_def dest!: seg_start)

lemma obj_get_spec:
  assumes c: "chains w xs ys" and b: "bindings w xs kvs"
  shows "\<exists>r. obj_get key False w = Inr (r, w) \<and>
      (case map_of kvs (cstr key) of None \<Rightarrow> r = NULL
       | Some v \<Rightarrow> \<exists>a en. a \<in> set xs \<and> r = Some a \<and> mem (oheap w) a = Some en \<and> binding en = (cstr key, v) \<and>
           (\<exists>as bs. xs = as @ a # bs \<and> cstr key \<notin> fst ` set (take (length as) kvs)))"
proof -
  have "seg (mem (oheap w)) o_next (obj_root w) xs NULL"
    using c by (simp add: chains_def)
  from find_loop_get [OF this b, of "Suc (brk (oheap w))" key NULL] chains_fuel [OF c] show ?thesis
    by (simp add: obj_get_def)
qed

lemma obj_remove_spec:
  assumes c: "chains w xs ys" and b: "bindings w xs kvs"
  shows "\<exists>r w'. obj_get key True w = Inr (r, w') \<and> odeps w' = odeps w \<and>
      (case map_of kvs (cstr key) of None \<Rightarrow> r = NULL \<and> w' = w
       | Some v \<Rightarrow> \<exists>a en xs'. r = Some a \<and> mem (oheap w') a = Some en \<and> binding en = (cstr key, v) \<and>
           chains w' xs' (a # ys) \<and> bindings w' xs' (drop_key (cstr key) kvs))"
  using find_loop_rm [of w "[]" xs ys "[]" kvs "Suc (brk (oheap w))" key] chains_fuel [OF c] c b chains_first [OF c]
  by (simp add: obj_get_def cong: option.case_cong)

lemma obj_gc_spec:
  assumes c: "chains w xs ys" and b: "bindings w xs kvs"
  shows "\<exists>w'. obj_gc w = Inr w' \<and> chains w' xs [] \<and> bindings w' xs kvs \<and> odeps w' = odeps w"
proof -
  obtain w' where w': "obj_gc w = Inr w'" "chains w' xs []" "odeps w' = odeps w"
      "\<forall>a. a \<in> set xs \<longrightarrow> mem (oheap w') a = mem (oheap w) a"
    using gc_loop_spec [OF c, of "Suc (brk (oheap w))"] chains_fuel [OF c] by (auto simp: obj_gc_def)
  have "bindings w' xs kvs = bindings w xs kvs"
    using w'(4) by (intro bindings_cong) auto
  with w' b show ?thesis by blast
qed

subsection \<open>The store keeps the promise\<close>

text \<open>The store's functions as its clients use them: the pointer that \<open>obj_get\<close> returns is
  followed at once.\<close>

definition follow :: "fault + ptr \<times> store \<Rightarrow> fault + obj_val option \<times> store" where
  "follow r = rbind r (\<lambda>(p, w). if p = NULL then Inr (None, w)
     else rbind (deref (oheap w) p) (\<lambda>en. Inr (Some (snd (binding en)), w)))"

definition store_add :: "store \<Rightarrow> string \<Rightarrow> obj_val \<Rightarrow> fault + store" where
  "store_add w k v = (case v of (len, data, sWhat) \<Rightarrow> obj_add (\<lambda>_. True) k sWhat data len w)"

definition store_get :: "store \<Rightarrow> string \<Rightarrow> fault + obj_val option" where
  "store_get w k = rbind (follow (obj_get k False w)) (\<lambda>(v, w). Inr v)"

definition store_remove :: "store \<Rightarrow> string \<Rightarrow> fault + obj_val option \<times> store" where
  "store_remove w k = follow (obj_get k True w)"

definition store_rep :: "store \<Rightarrow> (string \<times> obj_val) list \<Rightarrow> bool" where
  "store_rep w kvs \<longleftrightarrow> obj_rep w kvs \<and> deps_good w"

interpretation objs: keyed_store store_add store_get store_remove store_rep
proof
  fix st :: store and kvs k and v :: obj_val
  assume rep: "store_rep st kvs"
  then obtain xs ys where st: "chains st xs ys" "bindings st xs kvs" "deps_good st"
    by (auto simp: store_rep_def obj_rep_def)
  show "\<exists>st'. store_add st k v = Inr st' \<and> store_rep st' ((cstr k, v) # kvs)"
  proof (cases v)
    case (fields len data sWhat)
    obtain w' a where "obj_add (\<lambda>_. True) k sWhat data len st = Inr w'" "chains w' (a # xs) ys"
        "bindings w' (a # xs) ((cstr k, len, data, sWhat) # kvs)" "deps_good w'"
      using obj_add_chains [OF st, of "\<lambda>_. True" k sWhat data len] by blast
    then show ?thesis
      unfolding fields store_add_def store_rep_def obj_rep_def by auto
  qed
  show "store_get st k = Inr (map_of kvs (cstr k))"
    using obj_get_spec [OF st(1,2), of k]
    by (cases "map_of kvs (cstr k)") (auto simp: store_get_def follow_def)
  show "\<exists>st'. store_remove st k = Inr (map_of kvs (cstr k), st') \<and> store_rep st' (drop_key (cstr k) kvs)"
  proof (cases "map_of kvs (cstr k)")
    case None
    then have "drop_key (cstr k) kvs = kvs"
      by (induction kvs) (auto split: if_splits)
    with None obj_remove_spec [OF st(1,2), of k] rep show ?thesis
      by (auto simp: store_remove_def follow_def)
  next
    case (Some v)
    with obj_remove_spec [OF st(1,2), of k] st(3) show ?thesis
      unfolding store_remove_def follow_def store_rep_def obj_rep_def deps_good_def
      by fastforce
  qed
qed

lemma whats_bindings: "bindings w xs kvs \<Longrightarrow>
    whats w xs = concat (map (\<lambda>(k, len, data, sWhat). case sWhat of None \<Rightarrow> [] | Some x \<Rightarrow> [x]) kvs)"
  by (induction xs arbitrary: kvs) (auto simp: bindings_Cons whats_Cons whats_def binding_def bindings_def)

lemma gc_balance:
  assumes "obj_rep w kvs"
  shows "\<exists>w'. obj_gc w = Inr w' \<and> obj_rep w' kvs \<and> obj_gc_pool w' = NULL \<and>
    (\<forall>x. x \<noteq> R_NilValue \<longrightarrow> count_list (preserved w') x =
      count_list (concat (map (\<lambda>(k, len, data, sWhat). case sWhat of None \<Rightarrow> [] | Some x \<Rightarrow> [x]) kvs)) x)"
proof -
  obtain xs ys where "chains w xs ys" "bindings w xs kvs"
    using assms by (auto simp: obj_rep_def)
  from obj_gc_spec [OF this] obtain w' where w': "obj_gc w = Inr w'" "chains w' xs []" "bindings w' xs kvs"
    by blast
  then have "\<forall>x. x \<noteq> R_NilValue \<longrightarrow> count_list (preserved w') x = count_list (whats w' xs) x" "obj_gc_pool w' = NULL"
    by (simp_all add: chains_def)
  with w' show ?thesis
    unfolding obj_rep_def whats_bindings [OF w'(3)] by blast
qed

lemma removed_until_gc:
  assumes "obj_rep w kvs" "map_of kvs (cstr key) = Some v"
  shows "\<exists>a w1 w2. obj_get key True w = Inr (Some a, w1) \<and>
    (\<exists>en. deref (oheap w1) (Some a) = Inr en \<and> snd (binding en) = v) \<and>
    obj_gc w1 = Inr w2 \<and> deref (oheap w2) (Some a) = Inl (Undefined UseAfterFree)"
proof -
  obtain xs ys where w: "chains w xs ys" "bindings w xs kvs"
    using assms(1) by (auto simp: obj_rep_def)
  obtain a w1 en xs' where w1: "obj_get key True w = Inr (Some a, w1)" "mem (oheap w1) a = Some en"
      "binding en = (cstr key, v)" "chains w1 xs' (a # ys)" "bindings w1 xs' (drop_key (cstr key) kvs)"
    using obj_remove_spec [OF w, of key] assms(2) by auto
  obtain w2 where w2: "obj_gc w1 = Inr w2" "chains w2 xs' []"
    using obj_gc_spec [OF w1(4,5)] by blast
  have "mem (oheap w2) a = None"
    using w2(2) w1(4) by (auto simp: chains_def)
  with w1 w2(1) show ?thesis
    by (auto simp: deref_def)
qed

lemma kept_until_removed:
  assumes "obj_rep w kvs" "map_of kvs (cstr key) = Some v"
  shows "\<exists>a en w2. obj_get key False w = Inr (Some a, w) \<and> deref (oheap w) (Some a) = Inr en \<and> snd (binding en) = v \<and>
    obj_gc w = Inr w2 \<and> (\<exists>en2. deref (oheap w2) (Some a) = Inr en2 \<and> binding en2 = binding en)"
proof -
  obtain xs ys where w: "chains w xs ys" "bindings w xs kvs"
    using assms(1) by (auto simp: obj_rep_def)
  obtain a en where a: "obj_get key False w = Inr (Some a, w)" "a \<in> set xs" "mem (oheap w) a = Some en"
      "binding en = (cstr key, v)"
    using obj_get_spec [OF w, of key] assms(2) by auto
  obtain w2 where w2: "obj_gc w = Inr w2" "\<forall>b. b \<in> set xs \<longrightarrow> mem (oheap w2) b = mem (oheap w) b"
    using gc_loop_spec [OF w(1), of "Suc (brk (oheap w))"] chains_fuel [OF w(1)] by (auto simp: obj_gc_def)
  with a show ?thesis by auto
qed

text \<open>The R objects the entries refer to.\<close>

definition object_refs :: "(string \<times> obj_val) list \<Rightarrow> sexp list" where
  "object_refs kvs = concat (map (\<lambda>(k, len, data, sWhat). case sWhat of None \<Rightarrow> [] | Some x \<Rightarrow> [x]) kvs)"

subsection \<open>Properties\<close>

text \<open>The store after \<open>obj_init\<close>: the concrete input of the witnesses.\<close>

definition fresh_store :: store where
  "fresh_store = snd (obj_init True (False, False) store_start)"

lemma fresh_store_eq: "fresh_store = store_start\<lparr>odeps := deps_start\<lparr>dep_queue := ev_queue_create True True\<rparr>\<rparr>"
  by (simp add: fresh_store_def obj_init_def dep_init_def store_start_def deps_start_def)

lemma fresh_chains: "chains fresh_store [] []" "bindings fresh_store [] []"
  by (simp_all add: fresh_store_eq chains_def store_start_def whats_def) (simp_all add: empty_heap_def)

lemma fresh_deps: "dep_chain (odeps fresh_store) [] []" "queue_rep (odeps fresh_store) []"
  by (auto simp: fresh_store_eq dep_chain_def deps_start_def queue_rep_def ev_queue_create_def ev_rep_def)

lemma fresh_rep: "store_rep fresh_store []"
  using fresh_chains fresh_deps by (auto simp: store_rep_def obj_rep_def deps_good_def dep_rep_def)

lemma fresh_add: "\<exists>w. store_add fresh_store k v = Inr w \<and> store_rep w [(cstr k, v)]"
  by (rule objs.add [OF fresh_rep])

definition demo_store :: store where
  "demo_store = projr (store_add fresh_store ''k'' (3, Some ''abc'', None))"

lemma demo_store_rep: "store_rep demo_store [(''k'', 3, Some ''abc'', None)]"
  using fresh_add [of "''k''" "(3, Some ''abc'', None)"] by (auto simp: demo_store_def cstr_def)

text \<open>Storing a value under a key makes look-ups of that key return it and changes no other
  key, for every well-formed store and whatever dependencies wait for the key. Keys are
  compared as C strings.\<close>

theorem obj_add_get:
  assumes "store_rep w kvs"
  shows "\<exists>w'. store_add w k v = Inr w' \<and> store_rep w' ((cstr k, v) # kvs) \<and>
    store_get w' k' = (if cstr k' = cstr k then Inr (Some v) else store_get w k')"
  using objs.add [OF assms, of k v] objs.get [OF assms, of k'] by (auto simp: objs.get)

theorem obj_add_get_witness:
  "\<exists>w'. store_add fresh_store ''k'' (1, None, Some R_NilValue) = Inr w' \<and>
    store_rep w' ((cstr ''k'', 1, None, Some R_NilValue) # []) \<and>
    store_get w' ''k'' = (if cstr ''k'' = cstr ''k'' then Inr (Some (1, None, Some R_NilValue)) else store_get fresh_store ''k'')"
  by (rule obj_add_get) (rule fresh_rep)

text \<open>Bindings stack up: removing a key undoes its latest addition only, so an older value
  stored under the same key becomes visible again.\<close>

theorem obj_remove_reveals:
  assumes "store_rep w kvs"
  shows "\<exists>w' w''. store_add w k v = Inr w' \<and> store_remove w' k = Inr (Some v, w'') \<and> store_get w'' k' = store_get w k'"
  using assms by (rule objs.remove_reveals)

theorem obj_remove_reveals_witness:
  "\<exists>w' w''. store_add demo_store ''k'' (0, None, None) = Inr w' \<and> store_remove w' ''k'' = Inr (Some (0, None, None), w'') \<and>
    store_get w'' ''k'' = store_get demo_store ''k''"
  by (rule obj_remove_reveals) (rule demo_store_rep)

text \<open>What \<open>obj_get\<close> returns when it removes an entry can be used until the next \<open>obj_gc\<close> and
  not afterwards; what it returns without removing stays valid across \<open>obj_gc\<close>.\<close>

theorem obj_get_lifetime:
  assumes "obj_rep w kvs" "map_of kvs (cstr key) = Some v"
  shows "(\<exists>a w1 w2. obj_get key True w = Inr (Some a, w1) \<and>
      (\<exists>en. deref (oheap w1) (Some a) = Inr en \<and> snd (binding en) = v) \<and>
      obj_gc w1 = Inr w2 \<and> deref (oheap w2) (Some a) = Inl (Undefined UseAfterFree)) \<and>
    (\<exists>a en w2. obj_get key False w = Inr (Some a, w) \<and> deref (oheap w) (Some a) = Inr en \<and> snd (binding en) = v \<and>
      obj_gc w = Inr w2 \<and> (\<exists>en2. deref (oheap w2) (Some a) = Inr en2 \<and> binding en2 = binding en))"
  using removed_until_gc [OF assms] kept_until_removed [OF assms] by blast

theorem obj_get_lifetime_witness:
  "(\<exists>a w1 w2. obj_get ''k'' True demo_store = Inr (Some a, w1) \<and>
      (\<exists>en. deref (oheap w1) (Some a) = Inr en \<and> snd (binding en) = (3, Some ''abc'', None)) \<and>
      obj_gc w1 = Inr w2 \<and> deref (oheap w2) (Some a) = Inl (Undefined UseAfterFree)) \<and>
    (\<exists>a en w2. obj_get ''k'' False demo_store = Inr (Some a, demo_store) \<and> deref (oheap demo_store) (Some a) = Inr en \<and>
      snd (binding en) = (3, Some ''abc'', None) \<and> obj_gc demo_store = Inr w2 \<and>
      (\<exists>en2. deref (oheap w2) (Some a) = Inr en2 \<and> binding en2 = binding en))"
  by (rule obj_get_lifetime [where kvs = "[(''k'', 3, Some ''abc'', None)]"])
    (use demo_store_rep in \<open>simp_all add: store_rep_def cstr_def\<close>)

text \<open>C11: After \<open>obj_gc\<close> the pool is empty, the bindings are what they were, and every R object
  is preserved exactly as often as the remaining entries refer to it: nothing that is still
  reachable was released and nothing that was removed is kept.\<close>

theorem obj_gc_balance:
  assumes "obj_rep w kvs"
  shows "\<exists>w'. obj_gc w = Inr w' \<and> obj_rep w' kvs \<and> obj_gc_pool w' = NULL \<and>
    count_list (removeAll R_NilValue (preserved w')) = count_list (removeAll R_NilValue (object_refs kvs))"
proof -
  have r: "count_list (removeAll y xs) x = (if x = y then 0 else count_list xs x)" for xs :: "sexp list" and x y
    by (induction xs) auto
  show ?thesis
    using gc_balance [OF assms] unfolding object_refs_def fun_eq_iff r by metis
qed

theorem obj_gc_balance_witness:
  "\<exists>w'. obj_gc demo_store = Inr w' \<and> obj_rep w' [(''k'', 3, Some ''abc'', None)] \<and> obj_gc_pool w' = NULL \<and>
    count_list (removeAll R_NilValue (preserved w')) = count_list (removeAll R_NilValue (object_refs [(''k'', 3, Some ''abc'', None)]))"
  by (rule obj_gc_balance) (use demo_store_rep in \<open>simp add: store_rep_def\<close>)

end
