(* ===== verification/ObjSpec.thy ===== *)
theory ObjSpec
  imports Obj
begin

text \<open>
  The object store as an abstract machine: for each key a stack of values, and the operations of
  src/obj.c on it. The linked chain with its pool implements the machine for every sequence of
  operations, in the order in which the store's mutex lets them in.
\<close>

subsection \<open>The machine\<close>

datatype store_op = Add string obj_val | Get string | Remove string | Collect

type_synonym stacks = "string \<Rightarrow> obj_val list"

primrec spec_op :: "store_op \<Rightarrow> stacks \<Rightarrow> obj_val option \<times> stacks" where
  "spec_op (Add k v) m = (None, m(cstr k := v # m (cstr k)))"
| "spec_op (Get k) m = (case m (cstr k) of [] \<Rightarrow> None | v # vs \<Rightarrow> Some v, m)"
| "spec_op (Remove k) m = (case m (cstr k) of [] \<Rightarrow> (None, m) | v # vs \<Rightarrow> (Some v, m(cstr k := vs)))"
| "spec_op Collect m = (None, m)"

primrec spec_ops :: "store_op list \<Rightarrow> stacks \<Rightarrow> obj_val option list \<times> stacks" where
  "spec_ops [] m = ([], m)"
| "spec_ops (x # xs) m = (let (r, m) = spec_op x m; (rs, m) = spec_ops xs m in (r # rs, m))"

subsection \<open>The store\<close>

text \<open>What a client reads through the pointer that \<open>obj_get\<close> returns.\<close>

primrec run_op :: "store_op \<Rightarrow> store \<Rightarrow> fault + obj_val option \<times> store" where
  "run_op (Add k v) w = rbind (store_add w k v) (\<lambda>w. Inr (None, w))"
| "run_op (Get k) w = follow (obj_get k False w)"
| "run_op (Remove k) w = follow (obj_get k True w)"
| "run_op Collect w = rbind (obj_gc w) (\<lambda>w. Inr (None, w))"

primrec run_ops :: "store_op list \<Rightarrow> store \<Rightarrow> fault + obj_val option list \<times> store" where
  "run_ops [] w = Inr ([], w)"
| "run_ops (x # xs) w = rbind (run_op x w) (\<lambda>(r, w). rbind (run_ops xs w) (\<lambda>(rs, w). Inr (r # rs, w)))"

subsection \<open>Refinement\<close>

text \<open>The stack of a key is made of its bindings, the newest first.\<close>

definition stacks_of :: "(string \<times> obj_val) list \<Rightarrow> stacks" where
  "stacks_of kvs k = map snd (filter (\<lambda>(c, v). c = k) kvs)"

lemma stacks_of_Nil [simp]: "stacks_of [] = (\<lambda>_. [])"
  by (simp add: stacks_of_def fun_eq_iff)

lemma stacks_of_Cons: "stacks_of ((c, v) # kvs) = (stacks_of kvs)(c := v # stacks_of kvs c)"
  by (auto simp: stacks_of_def)

lemma map_of_stacks: "map_of kvs k = (case stacks_of kvs k of [] \<Rightarrow> None | v # vs \<Rightarrow> Some v)"
  by (induction kvs) (auto simp: stacks_of_Cons)

lemma drop_key_stacks: "stacks_of (drop_key k kvs) = (stacks_of kvs)(k := tl (stacks_of kvs k))"
proof (induction kvs)
  case (Cons p kvs)
  then show ?case
    by (cases p) (auto simp: stacks_of_Cons fun_eq_iff)
qed (simp add: fun_eq_iff)

lemma collect_rep:
  assumes "store_rep w kvs"
  shows "\<exists>w'. obj_gc w = Inr w' \<and> store_rep w' kvs"
proof -
  obtain xs ys where "chains w xs ys" "bindings w xs kvs"
    using assms by (auto simp: store_rep_def obj_rep_def)
  from obj_gc_spec [OF this] obtain w' where w': "obj_gc w = Inr w'" "obj_rep w' kvs" "odeps w' = odeps w"
    unfolding obj_rep_def by blast
  moreover have "deps_good w'"
    using assms w'(3) by (simp add: store_rep_def deps_good_def)
  ultimately show ?thesis
    by (auto simp: store_rep_def)
qed

lemma get_rep:
  assumes "store_rep w kvs"
  shows "follow (obj_get k False w) = Inr (map_of kvs (cstr k), w)"
proof -
  obtain xs ys where "chains w xs ys" "bindings w xs kvs"
    using assms by (auto simp: store_rep_def obj_rep_def)
  from obj_get_spec [OF this, of k] show ?thesis
    by (cases "map_of kvs (cstr k)") (auto simp: follow_def)
qed

lemma op_refines:
  assumes "store_rep w kvs"
  shows "\<exists>r w' kvs'. run_op x w = Inr (r, w') \<and> store_rep w' kvs' \<and> spec_op x (stacks_of kvs) = (r, stacks_of kvs')"
proof (cases x)
  case (Add k v)
  then show ?thesis
    using objs.add [OF assms, of k v] by (force simp: stacks_of_Cons)
next
  case (Get k)
  then show ?thesis
    using get_rep [OF assms, of k] assms by (auto simp: map_of_stacks)
next
  case (Remove k)
  obtain w' where "follow (obj_get k True w) = Inr (map_of kvs (cstr k), w')" "store_rep w' (drop_key (cstr k) kvs)"
    using objs.remove [OF assms, of k] by (auto simp: store_remove_def)
  with Remove show ?thesis
    by (intro exI [of _ "map_of kvs (cstr k)"] exI [of _ w'] exI [of _ "drop_key (cstr k) kvs"])
      (auto simp: drop_key_stacks map_of_stacks split: list.split)
next
  case Collect
  then show ?thesis
    using collect_rep [OF assms] by auto
qed

lemma ops_refine:
  assumes "store_rep w kvs"
  shows "\<exists>rs w' kvs'. run_ops xs w = Inr (rs, w') \<and> store_rep w' kvs' \<and> spec_ops xs (stacks_of kvs) = (rs, stacks_of kvs')"
  using assms
proof (induction xs arbitrary: w kvs)
  case (Cons x xs)
  obtain r w1 kvs1 where x: "run_op x w = Inr (r, w1)" "store_rep w1 kvs1" "spec_op x (stacks_of kvs) = (r, stacks_of kvs1)"
    using op_refines [OF Cons.prems] by blast
  with Cons.IH [OF x(2)] show ?case
    by auto
qed auto

text \<open>The store implements the machine of stacks: from \<open>obj_init\<close> on, every sequence of additions,
  look-ups, removals and collections, with any keys and values, runs without a fault and gives
  the answers of the machine. Keys are compared as C strings; collections are invisible.\<close>

theorem store_refines_stacks:
  "map_sum id fst (run_ops xs fresh_store) = Inr (fst (spec_ops xs (\<lambda>_. [])))"
  using ops_refine [OF fresh_rep, of xs] by auto

subsection \<open>A reader, a removal and a collection\<close>

lemma find_same: "find_loop n key False prev e w = Inr (r, w1) \<Longrightarrow> find_loop n key True prev e w = Inr (r2, w2) \<Longrightarrow> r = r2"
proof (induction n arbitrary: prev e)
  case 0
  then show ?case by (simp add: find_loop.simps)
next
  case (Suc n)
  show ?case
  proof (cases "deref (oheap w) e")
    case (Inr v)
    with Suc show ?thesis
      by (cases "e = NULL"; cases "same_str key (o_key v)") (auto simp: find_loop.simps rbind_iffs)
  qed (use Suc.prems in \<open>auto simp: find_loop.simps split: if_splits\<close>)
qed

text \<open>A pointer that one thread got from \<open>obj_get\<close> is freed when another client removes the key and R
  collects before the thread has read the entry.\<close>

theorem read_after_clean:
  assumes "obj_rep w kvs" "map_of kvs (cstr key) = Some v"
  shows "\<exists>p w1 w2. obj_get key False w = Inr (p, w) \<and> obj_get key True w = Inr (p, w1) \<and> obj_gc w1 = Inr w2 \<and>
    deref (oheap w2) p = Inl (Undefined UseAfterFree)"
proof -
  obtain a w1 w2 where "obj_get key True w = Inr (Some a, w1)" "obj_gc w1 = Inr w2" "deref (oheap w2) (Some a) = Inl (Undefined UseAfterFree)"
    using removed_until_gc [OF assms] by blast
  moreover obtain b where "obj_get key False w = Inr (Some b, w)"
    using kept_until_removed [OF assms] by blast
  moreover have "b = a"
    using find_same calculation(1,4) by (fastforce simp: obj_get_def)
  ultimately show ?thesis
    by blast
qed

theorem read_after_clean_witness:
  "\<exists>p w1 w2. obj_get ''k'' False demo_store = Inr (p, demo_store) \<and> obj_get ''k'' True demo_store = Inr (p, w1) \<and>
    obj_gc w1 = Inr w2 \<and> deref (oheap w2) p = Inl (Undefined UseAfterFree)"
  by (rule read_after_clean [where kvs = "[(''k'', 3, Some ''abc'', None)]"])
    (use demo_store_rep in \<open>simp_all add: store_rep_def cstr_def\<close>)

end
