(* ===== verification/DepsAdd.thy ===== *)
theory DepsAdd
  imports Obj "HOL-Library.Multiset"
begin

text \<open>
  \<open>deps_add\<close> of src/deps.c, which looks the keys up in the object store before it links the
  entry, and the R interface src/rdeps.c.
\<close>

subsection \<open>Adding a dependency\<close>

text \<open>The two halves of \<open>deps_add\<close>: the look-ups, done without the lock of deps.c, and the
  insertion under it. Other threads may run between them.\<close>

primrec deps_check :: "string list \<Rightarrow> store \<Rightarrow> fault + (string \<times> bool) list \<times> store" where
  "deps_check [] w = Inr ([], w)"
| "deps_check (k # ks) w =
     rbind (obj_get k False w) (\<lambda>(p, w).
     rbind (deps_check ks w) (\<lambda>(reqs, w). Inr ((cstr k, p \<noteq> NULL) # reqs, w)))"

definition deps_insert :: "string \<Rightarrow> 32 word \<Rightarrow> (string \<times> bool) list \<Rightarrow> deps \<Rightarrow> fault + deps" where
  "deps_insert name msg reqs d =
     (let (a, h) = new_rec \<lparr>d_next = NULL, d_msg = msg, d_reqs = reqs, d_name = cstr name\<rparr> (dheap d) in
      if dhead d = NULL then Inr (d\<lparr>dheap := h, dhead := Some a, dtail := Some a\<rparr>)
      else rbind (assign h (dtail d) (\<lambda>t. t\<lparr>d_next := Some a\<rparr>)) (\<lambda>h. Inr (d\<lparr>dheap := h, dtail := Some a\<rparr>)))"

definition deps_size :: "string \<Rightarrow> string list \<Rightarrow> nat" where
  "deps_size name keys = 40 + strlen name + 8 * (length keys + 1) + (length keys + 1) +
     sum_list (map (\<lambda>k. strlen k + 1) keys) + 1"

definition deps_add :: "(nat \<Rightarrow> bool) \<Rightarrow> string \<Rightarrow> string list \<Rightarrow> 32 word \<Rightarrow> store \<Rightarrow> fault + int \<times> store" where
  "deps_add mok name keys msg w =
     (if \<not> mok (deps_size name keys) then Inr (- 1, w)
      else
        rbind (deps_check keys w) (\<lambda>(reqs, w).
        rbind (deps_insert name msg reqs (odeps w)) (\<lambda>d.
        rbind (deps_complete mok None d) (\<lambda>d. Inr (0, w\<lparr>odeps := d\<rparr>)))))"

text \<open>\<open>C_dep_req\<close> on R values; the flag is the one of \<open>dep_init\<close>. Reading the first element
  of an empty name vector is out of bounds.\<close>

definition C_dep_req :: "(nat \<Rightarrow> bool) \<Rightarrow> sexp \<Rightarrow> sexp \<Rightarrow> 32 word \<Rightarrow> bool \<times> store \<Rightarrow> fault + int \<times> bool \<times> store" where
  "C_dep_req mok sName sKeys msg st =
     (case (sName, sKeys) of
        (Sxp a ob (StrV names), Sxp b oc (StrV keys)) \<Rightarrow>
          (let (i, d) = dep_init (mok 1) (fst st, odeps (snd st)) in
           case names of [] \<Rightarrow> Inl (Undefined OutOfBounds)
           | name # _ \<Rightarrow>
             rbind (deps_add mok (R_CHAR name) (map R_CHAR keys) msg ((snd st)\<lparr>odeps := d\<rparr>)) (\<lambda>(r, w). Inr (r, i, w)))
      | _ \<Rightarrow> Inl (RError InvalidArg))"

definition C_dep_queue :: "bool \<Rightarrow> bool \<times> store \<Rightarrow> ev_queue option \<times> bool \<times> store" where
  "C_dep_queue calloc_ok st =
     (let (i, d) = dep_init calloc_ok (fst st, odeps (snd st)) in (dep_queue d, i, (snd st)\<lparr>odeps := d\<rparr>))"

subsection \<open>Specification\<close>

lemma mark_None [simp]: "mark None reqs = reqs"
  by (induction reqs) (auto simp: mark_def)

lemma mark_dep_None [simp]: "mark_dep None dp = dp"
  by (simp add: mark_dep_def split: prod.splits)

definition tail_ok :: "deps \<Rightarrow> nat list \<Rightarrow> bool" where
  "tail_ok d zs \<longleftrightarrow> zs = [] \<or> dtail d = Some (last zs)"

lemma deps_check_spec:
  assumes "chains w xs ys" "bindings w xs kvs"
  shows "deps_check keys w = Inr (map (\<lambda>k. (cstr k, map_of kvs (cstr k) \<noteq> None)) keys, w)"
proof (induction keys)
  case (Cons k ks)
  obtain r where "obj_get k False w = Inr (r, w)" "r \<noteq> NULL \<longleftrightarrow> map_of kvs (cstr k) \<noteq> None"
    using obj_get_spec [OF assms, of k] by (cases "map_of kvs (cstr k)") auto
  with Cons show ?case by simp
qed simp

lemma deps_insert_spec:
  assumes c: "dep_chain d zs ds" and t: "tail_ok d zs" and q: "queue_rep d evs"
  shows "\<exists>d' a. deps_insert name msg reqs d = Inr d' \<and> dep_chain d' (zs @ [a]) (ds @ [(cstr name, msg, reqs)]) \<and>
    queue_rep d' evs \<and> dtail d' = Some a"
proof -
  let ?v = "\<lparr>d_next = NULL, d_msg = msg, d_reqs = reqs, d_name = cstr name\<rparr>"
  obtain a h where new: "new_rec ?v (dheap d) = (a, h)"
    by (cases "new_rec ?v (dheap d)")
  have h: "heap_ok h" "mem (dheap d) a = None" "mem h = (mem (dheap d))(a \<mapsto> ?v)"
    using heap_ok_new [OF _ new] c by (auto simp: dep_chain_def)
  have sg: "seg (mem (dheap d)) d_next (dhead d) zs NULL" "distinct zs"
      "map (\<lambda>x. map_option dep_of (mem (dheap d) x)) zs = map Some ds"
    using c by (auto simp: dep_chain_def)
  have a: "a \<notin> set zs"
    using seg_mem [OF sg(1)] h(2) by blast
  show ?thesis
  proof (cases zs rule: rev_cases)
    case Nil
    with sg h new q show ?thesis
      by (intro exI [of _ "d\<lparr>dheap := h, dhead := Some a, dtail := Some a\<rparr>"] exI [of _ a])
        (simp add: deps_insert_def dep_chain_def dep_of_def queue_rep_def)
  next
    case (snoc qs p)
    obtain u where u: "mem (dheap d) p = Some u"
      using sg(1) by (auto simp: snoc seg_append)
    have ne: "a \<noteq> p" "dhead d \<noteq> NULL"
      using a sg(1) by (auto simp: snoc) (cases qs; auto)
    let ?h = "put_rec p (u\<lparr>d_next := Some a\<rparr>) h"
    let ?d = "d\<lparr>dheap := ?h, dtail := Some a\<rparr>"
    have "deps_insert name msg reqs d = Inr ?d"
      using new ne t u h(3) by (auto simp: deps_insert_def tail_ok_def snoc)
    moreover have "seg ((mem (dheap d))(p \<mapsto> u\<lparr>d_next := Some a\<rparr>)) d_next (dhead d) (qs @ [p]) (Some a)"
      using sg(1,2) u by (intro seg_relink [where v = u]) (simp_all add: snoc)
    then have "seg ((mem (dheap d))(a \<mapsto> ?v, p \<mapsto> u\<lparr>d_next := Some a\<rparr>)) d_next (dhead d) (zs @ [a]) NULL"
      using a ne sg(2) by (auto simp: seg_append snoc)
    moreover have "map (\<lambda>x. map_option dep_of (((mem (dheap d))(a \<mapsto> ?v, p \<mapsto> u\<lparr>d_next := Some a\<rparr>)) x)) zs =
        map (\<lambda>x. map_option dep_of (mem (dheap d) x)) zs"
      using a u by (intro map_cong) (auto simp: dep_of_def)
    then have "map (\<lambda>x. map_option dep_of (((mem (dheap d))(a \<mapsto> ?v, p \<mapsto> u\<lparr>d_next := Some a\<rparr>)) x)) (zs @ [a]) =
        map Some (ds @ [(cstr name, msg, reqs)])"
      using ne sg(3) by (simp only: map_append) (simp add: dep_of_def)
    moreover have "heap_ok ?h"
      by (rule heap_ok_put_rec [where w = u]) (use h u ne in simp_all)
    ultimately show ?thesis
      using a sg(2) q h(3)
      by (intro exI [of _ ?d] exI [of _ a]) (simp only: dep_chain_def, simp add: queue_rep_def del: map_append)
  qed
qed

lemma deps_add_spec:
  fixes keys msg
  assumes o: "chains w xs ys" "bindings w xs kvs" and c: "dep_chain (odeps w) zs ds" and t: "tail_ok (odeps w) zs"
    and q: "queue_rep (odeps w) evs" and names: "list_all (\<lambda>(name, msg, reqs). strlen name < 2 ^ 63) ds"
    and name: "strlen name < 2 ^ 63" and mok: "\<And>n. mok n"
  defines "new \<equiv> (cstr name, msg, map (\<lambda>k. (cstr k, map_of kvs (cstr k) \<noteq> None)) keys)"
  shows "\<exists>d'. deps_add mok name keys msg w = Inr (0, w\<lparr>odeps := d'\<rparr>) \<and>
    dep_rep d' (filter (\<lambda>x. \<not> ready_dep x) (ds @ [new])) \<and>
    queue_rep d' (evs @ map dep_event (filter ready_dep (ds @ [new])))"
proof -
  obtain d1 a where d1: "deps_insert name msg (map (\<lambda>k. (cstr k, map_of kvs (cstr k) \<noteq> None)) keys) (odeps w) = Inr d1"
      "dep_chain d1 (zs @ [a]) (ds @ [new])" "queue_rep d1 evs"
    using deps_insert_spec [OF c t q] unfolding new_def by blast
  have nm: "list_all (\<lambda>(name, msg, reqs). strlen name < 2 ^ 63) (ds @ [new])"
    using names name by (simp add: new_def strlen_def)
  obtain d' where d': "deps_complete mok None d1 = Inr d'"
      "dep_chain d' (kept None (zs @ [a]) (ds @ [new])) (filter (\<lambda>x. \<not> ready_dep x) (map (mark_dep None) (ds @ [new])))"
      "queue_rep d' (evs @ map dep_event (filter ready_dep (map (mark_dep None) (ds @ [new]))))"
    using complete_chain [of _ _ _ _ mok None, OF d1(2,3) nm mok] by blast
  have eq: "map (mark_dep None) (ds @ [new]) = ds @ [new]"
    by (simp add: map_idI)
  with d' deps_check_spec [OF o, of keys] d1(1) mok
  have "deps_add mok name keys msg w = Inr (0, w\<lparr>odeps := d'\<rparr>)"
    by (simp add: deps_add_def)
  with d'(2,3) eq show ?thesis
    unfolding dep_rep_def by (intro exI [of _ d']) auto
qed

subsection \<open>Announcing every completion once\<close>

text \<open>Adding keys one after another, seen from the dependency list.\<close>

definition complete_all :: "(nat \<Rightarrow> bool) \<Rightarrow> string list \<Rightarrow> deps \<Rightarrow> fault + deps" where
  "complete_all mok ks d = foldr_m (\<lambda>d k. deps_complete mok (Some k) d) d ks"

definition marks :: "string list \<Rightarrow> dep \<Rightarrow> dep" where
  "marks ks dp = fold (\<lambda>k. mark_dep (Some k)) ks dp"

lemma mark_ready: "ready_dep dp \<Longrightarrow> ready_dep (mark_dep key dp)"
  by (auto simp: ready_dep_def mark_dep_def satisfied_def mark_def list_all_iff split: prod.splits)

lemma marks_ready: "ready_dep dp \<Longrightarrow> ready_dep (marks ks dp)"
  by (induction ks arbitrary: dp) (auto simp: marks_def mark_ready)

lemma marks_event: "dep_event (marks ks dp) = dep_event dp"
  by (induction ks arbitrary: dp) (auto simp: marks_def dep_event_def mark_dep_def split: prod.splits)

lemma marks_name: "list_all (\<lambda>(name, msg, reqs). P name) ds \<Longrightarrow> list_all (\<lambda>(name, msg, reqs). P name) (map (mark_dep key) ds)"
  by (auto simp: list_all_iff mark_dep_def)

text \<open>A requirement counts as met when it was met before or its key is among the ones added.\<close>

lemma marks_eq: "marks ks (name, msg, reqs) = (name, msg, map (\<lambda>(k, s). (k, s \<or> (\<exists>c\<in>set ks. same_str c k))) reqs)"
  by (induction ks arbitrary: reqs) (auto simp: marks_def mark_dep_def mark_def)

lemma complete_all_spec:
  "dep_rep d ds \<Longrightarrow> queue_rep d evs \<Longrightarrow> list_all (\<lambda>(name, msg, reqs). strlen name < 2 ^ 63) ds \<Longrightarrow>
   list_all (\<lambda>x. \<not> ready_dep x) ds \<Longrightarrow> (\<And>n. mok n) \<Longrightarrow>
    \<exists>d' evs'. complete_all mok ks d = Inr d' \<and>
      dep_rep d' (filter (\<lambda>x. \<not> ready_dep x) (map (marks ks) ds)) \<and> queue_rep d' (evs @ evs') \<and>
      mset evs' = mset (map dep_event (filter (\<lambda>dp. ready_dep (marks ks dp)) ds))"
proof (induction ks arbitrary: d ds evs)
  case Nil
  then have "filter (\<lambda>x. \<not> ready_dep x) (map (marks []) ds) = ds" "filter (\<lambda>dp. ready_dep (marks [] dp)) ds = []"
    by (auto simp: marks_def list_all_iff filter_empty_conv map_idI)
  with Nil show ?case
    by (intro exI [of _ d] exI [of _ "[]"]) (simp add: complete_all_def)
next
  case (Cons k ks)
  let ?ds = "map (mark_dep (Some k)) ds"
  let ?stay = "filter (\<lambda>x. \<not> ready_dep x) ?ds"
  obtain d1 where d1: "deps_complete mok (Some k) d = Inr d1" "dep_rep d1 ?stay"
      "queue_rep d1 (evs @ map dep_event (filter ready_dep ?ds))"
    using complete_spec [of _ _ _ mok "Some k", OF Cons.prems(1-3,5)] by blast
  have "list_all (\<lambda>(name, msg, reqs). strlen name < 2 ^ 63) ?stay" "list_all (\<lambda>x. \<not> ready_dep x) ?stay"
    using marks_name [OF Cons.prems(3), of "Some k"] by (auto simp: list_all_iff)
  then obtain d' evs' where d': "complete_all mok ks d1 = Inr d'"
      "dep_rep d' (filter (\<lambda>x. \<not> ready_dep x) (map (marks ks) ?stay))"
      "queue_rep d' ((evs @ map dep_event (filter ready_dep ?ds)) @ evs')"
      "mset evs' = mset (map dep_event (filter (\<lambda>dp. ready_dep (marks ks dp)) ?stay))"
    using Cons.IH [OF d1(2,3) _ _ Cons.prems(5)] by blast
  have stay: "filter (\<lambda>x. \<not> ready_dep x) (map (marks ks) ?stay) = filter (\<lambda>x. \<not> ready_dep x) (map (marks (k # ks)) ds)"
    using marks_ready by (induction ds) (auto simp: marks_def)
  have "mset (map dep_event (filter ready_dep ?ds)) +
      mset (map dep_event (filter (\<lambda>dp. ready_dep (marks ks dp)) ?stay)) =
      mset (map dep_event (filter (\<lambda>dp. ready_dep (marks (k # ks) dp)) ds))"
  proof (induction ds)
    case (Cons x ds)
    have e: "dep_event (mark_dep (Some k) x) = dep_event x"
      using marks_event [of "[k]" x] by (simp add: marks_def)
    have m: "marks (k # ks) x = marks ks (mark_dep (Some k) x)"
      by (simp add: marks_def)
    show ?case
      using Cons e m marks_ready [of "mark_dep (Some k) x" ks]
      by (auto simp: filter_filter_mset conj_commute)
  qed simp
  with d1(1) d' stay show ?case
    by (intro exI [of _ d'] exI [of _ "map dep_event (filter ready_dep ?ds) @ evs'"])
      (simp add: complete_all_def)
qed

subsection \<open>The tail of the list\<close>

lemma notify_dheap: "deps_notify mok name msg d = Inr d' \<Longrightarrow> dheap d' = dheap d"
  by (auto simp: deps_notify_def Let_def rbind_iffs split: if_splits option.splits prod.splits)

lemma complete_loop_brk: "complete_loop n mok key prev e d = Inr d' \<Longrightarrow> brk (dheap d') = brk (dheap d)"
proof (induction n arbitrary: prev e d)
  case (Suc n)
  have brk: "brk h' = brk h" if "assign h p f = Inr h'" for h h' :: "depent heap" and p f
    using that by (auto simp: assign_def put_rec_def rbind_iffs)
  have free: "brk h' = brk h" if "free_rec p h = Inr h'" for h h' :: "depent heap" and p
    using that by (auto simp: free_rec_def split: option.splits)
  from Suc.prems show ?case
    by (auto simp: Let_def rbind_iffs dest!: Suc.IH brk free notify_dheap split: if_splits)
qed simp

text \<open>With its tail on an entry that was freed the list cannot be extended.\<close>

lemma insert_dangling:
  assumes "dtail d = Some t" "mem (dheap d) t = None" "t < brk (dheap d)" "dhead d \<noteq> NULL"
  shows "deps_insert name msg reqs d = Inl (Undefined UseAfterFree)"
  using assms by (auto simp: deps_insert_def new_rec_def assign_def deref_def)

lemma complete_dangling:
  assumes c: "dep_chain d (zs @ [t]) (ds @ [dl])" and t: "dtail d = Some t" and q: "queue_rep d evs"
    and names: "list_all (\<lambda>(name, msg, reqs). strlen name < 2 ^ 63) (ds @ [dl])" and mok: "\<And>n. mok n"
    and last: "ready_dep (mark_dep key dl)" and others: "dp \<in> set ds" "\<not> ready_dep (mark_dep key dp)"
  shows "\<exists>d'. deps_complete mok key d = Inr d' \<and> (\<forall>name msg reqs. deps_insert name msg reqs d' = Inl (Undefined UseAfterFree))"
proof -
  obtain d' where d': "deps_complete mok key d = Inr d'"
      "dep_chain d' (kept key (zs @ [t]) (ds @ [dl])) (filter (\<lambda>x. \<not> ready_dep x) (map (mark_dep key) (ds @ [dl])))"
      "dtail d' = dtail d"
      "\<forall>y. y \<notin> set (kept key (zs @ [t]) (ds @ [dl])) \<longrightarrow> mem (dheap d') y = (if y \<in> set (zs @ [t]) then None else mem (dheap d) y)"
    using complete_chain [of _ _ _ _ mok key, OF c q names mok] by blast
  have len: "length zs = length ds" "t \<notin> set zs" "mem (dheap d) t \<noteq> None" "heap_ok (dheap d)"
    using c map_eq_imp_length_eq [of _ "zs @ [t]" Some "ds @ [dl]"] by (auto simp: dep_chain_def)
  then have "kept key (zs @ [t]) (ds @ [dl]) = kept key zs ds"
    using last by (simp add: kept_def)
  then have "mem (dheap d') t = None"
    using d'(4) set_kept [of key zs ds] len(2) by auto
  moreover have "t < brk (dheap d')"
    using len(3,4) complete_loop_brk d'(1) unfolding deps_complete_def heap_ok_def by fastforce
  moreover have "dhead d' \<noteq> NULL"
  proof
    assume "dhead d' = NULL"
    then have "filter (\<lambda>x. \<not> ready_dep x) (map (mark_dep key) (ds @ [dl])) = []"
      using d'(2) by (cases "kept key (zs @ [t]) (ds @ [dl])") (auto simp: dep_chain_def)
    with others show False
      by (auto simp: filter_empty_conv)
  qed
  ultimately show ?thesis
    using d'(1,3) t by (intro exI [of _ d']) (simp add: insert_dangling)
qed

lemma dangling_tail:
  assumes o: "chains w xs ys" "bindings w xs kvs" and c: "dep_chain (odeps w) (zs @ [t]) (ds @ [dl])" and t: "dtail (odeps w) = Some t"
    and q: "queue_rep (odeps w) evs" and names: "list_all (\<lambda>(name, msg, reqs). strlen name < 2 ^ 63) (ds @ [dl])" and mok: "\<And>n. mok n"
    and last: "ready_dep (mark_dep (Some key) dl)" and others: "dp \<in> set ds" "\<not> ready_dep (mark_dep (Some key) dp)"
  shows "\<exists>w'. obj_add mok key sWhat data len w = Inr w' \<and>
    (\<forall>name keys msg. deps_add mok name keys msg w' = Inl (Undefined UseAfterFree))"
proof -
  have good: "deps_good w"
    using c q names unfolding deps_good_def dep_rep_def by blast
  obtain w' a where w': "obj_add mok key sWhat data len w = Inr w'" "chains w' (a # xs) ys"
      "bindings w' (a # xs) ((cstr key, len, data, sWhat) # kvs)"
      "deps_complete mok (Some key) (odeps w) = Inr (odeps w')"
    using obj_add_chains [of _ _ _ _ mok, OF o good mok] by blast
  have "deps_insert name msg reqs (odeps w') = Inl (Undefined UseAfterFree)" for name msg reqs
    using complete_dangling [of _ _ _ _ _ _ mok, OF c t q names mok last others] w'(4) by auto
  with deps_check_spec [OF w'(2,3)] mok have "deps_add mok name keys msg w' = Inl (Undefined UseAfterFree)" for name keys msg
    by (simp add: deps_add_def)
  with w'(1) show ?thesis
    by blast
qed

subsection \<open>A key that arrives between the two halves\<close>

text \<open>Completions of other keys leave a dependency waiting that counts \<open>key\<close> as missing.\<close>

definition waits_for :: "string \<Rightarrow> string \<Rightarrow> 32 word \<Rightarrow> dep list \<Rightarrow> bool" where
  "waits_for key name msg ds \<longleftrightarrow> (\<exists>reqs. (name, msg, reqs) \<in> set ds \<and> (key, False) \<in> set reqs)"

lemma waits_complete:
  assumes "waits_for key name msg ds" "\<And>c. k = Some c \<Longrightarrow> \<not> same_str c key"
  shows "waits_for key name msg (filter (\<lambda>x. \<not> ready_dep x) (map (mark_dep k) ds))"
proof -
  obtain reqs where reqs: "(name, msg, reqs) \<in> set ds" "(key, False) \<in> set reqs"
    using assms(1) by (auto simp: waits_for_def)
  have "(key, False) \<in> set (mark k reqs)"
    unfolding mark_def set_map using assms(2) by (intro image_eqI [OF _ reqs(2)]) (auto split: option.split)
  moreover from this have "\<not> ready_dep (mark_dep k (name, msg, reqs))"
    by (force simp: mark_dep_def ready_dep_def satisfied_def list_all_iff)
  moreover have "mark_dep k (name, msg, reqs) = (name, msg, mark k reqs)"
    by (simp add: mark_dep_def)
  ultimately show ?thesis
    using reqs(1) unfolding waits_for_def by (intro exI [of _ "mark k reqs"]) (force simp: image_iff)
qed

lemma waits_completes:
  "dep_rep d ds \<Longrightarrow> queue_rep d evs \<Longrightarrow> list_all (\<lambda>(name, msg, reqs). strlen name < 2 ^ 63) ds \<Longrightarrow> (\<And>n. mok n) \<Longrightarrow>
   waits_for key name msg ds \<Longrightarrow> \<forall>c. Some c \<in> set ks \<longrightarrow> \<not> same_str c key \<Longrightarrow>
   \<exists>d' ds'. foldr_m (\<lambda>d k. deps_complete mok k d) d ks = Inr d' \<and> dep_rep d' ds' \<and> waits_for key name msg ds'"
proof (induction ks arbitrary: d ds evs)
  case (Cons k ks)
  let ?ds = "filter (\<lambda>x. \<not> ready_dep x) (map (mark_dep k) ds)"
  obtain d1 where d1: "deps_complete mok k d = Inr d1" "dep_rep d1 ?ds"
      "queue_rep d1 (evs @ map dep_event (filter ready_dep (map (mark_dep k) ds)))"
    using complete_spec [of _ _ _ mok k, OF Cons.prems(1-4)] by blast
  have nm: "list_all (\<lambda>(name, msg, reqs). strlen name < 2 ^ 63) ?ds"
    using marks_name [OF Cons.prems(3), of k] by (auto simp: list_all_iff)
  have "waits_for key name msg ?ds"
    using Cons.prems(6) by (intro waits_complete [OF Cons.prems(5)]) auto
  from Cons.IH [OF d1(2,3) nm Cons.prems(4) this] Cons.prems(6)
  obtain d' ds' where "foldr_m (\<lambda>d k. deps_complete mok k d) d1 ks = Inr d'" "dep_rep d' ds'" "waits_for key name msg ds'"
    by auto
  with d1(1) show ?case
    by auto
qed auto

lemma kept_last:
  assumes "length zs = length ds" "ds = [] \<or> \<not> ready_dep (mark_dep key (last ds))"
  shows "if zs = [] then kept key zs ds = [] else kept key zs ds \<noteq> [] \<and> last (kept key zs ds) = last zs"
  using assms by (cases zs rule: rev_cases; cases ds rule: rev_cases) (simp_all add: kept_def)

lemma lost_wakeup:
  assumes o: "chains w xs ys" "bindings w xs kvs" and c: "dep_chain (odeps w) zs ds" and t: "tail_ok (odeps w) zs"
    and stay: "ds = [] \<or> \<not> ready_dep (mark_dep (Some key) (last ds))"
    and q: "queue_rep (odeps w) evs" and names: "list_all (\<lambda>(name, msg, reqs). strlen name < 2 ^ 63) ds"
    and name: "strlen name < 2 ^ 63" and mok: "\<And>n. mok n"
    and key: "map_of kvs (cstr key) = None" "key \<in> set keys" and ks: "\<forall>c. Some c \<in> set ks \<longrightarrow> \<not> same_str c (cstr key)"
  shows "\<exists>reqs w1 d1 d2 ds2. deps_check keys w = Inr (reqs, w) \<and> obj_add mok key sWhat data len w = Inr w1 \<and>
    deps_insert name msg reqs (odeps w1) = Inr d1 \<and> foldr_m (\<lambda>d k. deps_complete mok k d) d1 (None # ks) = Inr d2 \<and>
    store_get (w1\<lparr>odeps := d2\<rparr>) key = Inr (Some (len, data, sWhat)) \<and>
    dep_rep d2 ds2 \<and> waits_for (cstr key) (cstr name) msg ds2"
proof -
  let ?reqs = "map (\<lambda>k. (cstr k, map_of kvs (cstr k) \<noteq> None)) keys" and ?m = "map (mark_dep (Some key)) ds"
  let ?ds = "filter (\<lambda>x. \<not> ready_dep x) ?m"
  have good: "deps_good w"
    using c q names unfolding deps_good_def dep_rep_def by blast
  obtain w1 a where w1: "obj_add mok key sWhat data len w = Inr w1" "chains w1 (a # xs) ys"
      "bindings w1 (a # xs) ((cstr key, len, data, sWhat) # kvs)"
      "deps_complete mok (Some key) (odeps w) = Inr (odeps w1)"
    using obj_add_chains [of _ _ _ _ mok, OF o good mok] by blast
  have c1: "dep_chain (odeps w1) (kept (Some key) zs ds) ?ds" "queue_rep (odeps w1) (evs @ map dep_event (filter ready_dep ?m))"
      "dtail (odeps w1) = dtail (odeps w)"
    using complete_chain [of _ _ _ _ mok "Some key", OF c q names mok] w1(4) by auto
  have "length zs = length ds"
    using c map_eq_imp_length_eq by (auto simp: dep_chain_def)
  then have "tail_ok (odeps w1) (kept (Some key) zs ds)"
    using kept_last [of zs ds "Some key"] stay t c1(3) by (auto simp: tail_ok_def split: if_splits)
  then obtain d1 b where d1: "deps_insert name msg ?reqs (odeps w1) = Inr d1"
      "dep_chain d1 (kept (Some key) zs ds @ [b]) (?ds @ [(cstr name, msg, ?reqs)])" "queue_rep d1 (evs @ map dep_event (filter ready_dep ?m))"
    using deps_insert_spec [OF c1(1) _ c1(2)] by blast
  have nm: "list_all (\<lambda>(name, msg, reqs). strlen name < 2 ^ 63) (?ds @ [(cstr name, msg, ?reqs)])"
    using marks_name [OF names, of "Some key"] name by (auto simp: list_all_iff strlen_def)
  have "(cstr key, False) \<in> set ?reqs"
    using key by force
  then have "waits_for (cstr key) (cstr name) msg (?ds @ [(cstr name, msg, ?reqs)])"
    by (auto simp: waits_for_def)
  moreover have "dep_rep d1 (?ds @ [(cstr name, msg, ?reqs)])"
    using d1(2) by (auto simp: dep_rep_def)
  ultimately obtain d2 ds2 where "foldr_m (\<lambda>d k. deps_complete mok k d) d1 (None # ks) = Inr d2" "dep_rep d2 ds2"
      "waits_for (cstr key) (cstr name) msg ds2"
    using waits_completes [of d1 _ _ mok "cstr key" "cstr name" msg "None # ks", OF _ d1(3) nm mok] ks by auto
  moreover have "chains (w1\<lparr>odeps := d\<rparr>) (a # xs) ys" "bindings (w1\<lparr>odeps := d\<rparr>) (a # xs) ((cstr key, len, data, sWhat) # kvs)" for d
    using w1(2,3) by (simp_all add: chains_def bindings_def whats_def)
  then have "store_get (w1\<lparr>odeps := d\<rparr>) key = Inr (Some (len, data, sWhat))" for d
    using obj_get_spec [of "w1\<lparr>odeps := d\<rparr>" "a # xs" ys _ key] by (fastforce simp: store_get_def follow_def)
  ultimately show ?thesis
    using w1(1) d1(1) deps_check_spec [OF o, of keys] by blast
qed

subsection \<open>Properties\<close>

text \<open>C3: \<open>deps_complete\<close> implements its specification on the linked list: the entries whose
  requirements are met by the new key leave the list, in order, each with one event that
  carries its message number and name appended to the queue; all others stay, with their
  status updated. The traversal ends within its fuel.\<close>

theorem deps_complete_refines:
  assumes "dep_rep d ds" "queue_rep d evs" "list_all (\<lambda>(name, msg, reqs). strlen name < 2 ^ 63) ds" "\<And>n. mok n"
  shows "\<exists>d'. deps_complete mok key d = Inr d' \<and>
     dep_rep d' (filter (\<lambda>x. \<not> ready_dep x) (map (mark_dep key) ds)) \<and>
     queue_rep d' (evs @ map dep_event (filter ready_dep (map (mark_dep key) ds)))"
  using assms by (rule complete_spec)

lemma demo_deps:
  "\<exists>d a. deps_insert ''n'' 7 [(''x'', False)] (odeps fresh_store) = Inr d \<and>
    dep_chain d [a] [(''n'', 7, [(''x'', False)])] \<and> queue_rep d []"
  using deps_insert_spec [OF fresh_deps(1) _ fresh_deps(2), of "''n''" 7 "[(''x'', False)]"]
  by (auto simp: tail_ok_def cstr_def)

definition demo_dep :: deps where
  "demo_dep = projr (deps_insert ''n'' 7 [(''x'', False)] (odeps fresh_store))"

lemma demo_dep_rep: "dep_rep demo_dep [(''n'', 7, [(''x'', False)])]" "queue_rep demo_dep []"
  using demo_deps by (auto simp: demo_dep_def dep_rep_def)

theorem deps_complete_refines_witness:
  "\<exists>d'. deps_complete (\<lambda>_. True) (Some ''x'') demo_dep = Inr d' \<and>
     dep_rep d' (filter (\<lambda>x. \<not> ready_dep x) (map (mark_dep (Some ''x'')) [(''n'', 7, [(''x'', False)])])) \<and>
     queue_rep d' ([] @ map dep_event (filter ready_dep (map (mark_dep (Some ''x'')) [(''n'', 7, [(''x'', False)])])))"
  by (rule deps_complete_refines) (simp_all add: demo_dep_rep strlen_def cstr_def)

text \<open>C22: Every dependency is announced, and only once: when keys are added one after another,
  the dependencies whose requirements are all met by then have left the list with exactly one
  event each, and the others are still waiting.\<close>

theorem deps_announced_once:
  assumes "dep_rep d ds" "queue_rep d evs" "list_all (\<lambda>(name, msg, reqs). strlen name < 2 ^ 63) ds"
    "list_all (\<lambda>x. \<not> ready_dep x) ds" "\<And>n. mok n"
  shows "\<exists>d' evs'. complete_all mok ks d = Inr d' \<and>
      dep_rep d' (filter (\<lambda>x. \<not> ready_dep x) (map (marks ks) ds)) \<and> queue_rep d' (evs @ evs') \<and>
      mset evs' = mset (map dep_event (filter (\<lambda>dp. ready_dep (marks ks dp)) ds))"
  using assms by (rule complete_all_spec)

theorem deps_announced_once_witness:
  "\<exists>d' evs'. complete_all (\<lambda>_. True) [''y'', ''x''] demo_dep = Inr d' \<and>
      dep_rep d' (filter (\<lambda>x. \<not> ready_dep x) (map (marks [''y'', ''x'']) [(''n'', 7, [(''x'', False)])])) \<and>
      queue_rep d' ([] @ evs') \<and>
      mset evs' = mset (map dep_event (filter (\<lambda>dp. ready_dep (marks [''y'', ''x''] dp)) [(''n'', 7, [(''x'', False)])]))"
  by (rule deps_announced_once) (simp_all add: demo_dep_rep strlen_def cstr_def ready_dep_def satisfied_def)

text \<open>C29: \<open>deps_add\<close> on a well-formed store whose tail pointer is right: the new dependency
  starts out with the keys that are already stored marked as met; it is announced at once when
  that is all of them and waits at the end of the list otherwise.\<close>

theorem deps_add_correct:
  assumes "chains w xs ys" "bindings w xs kvs" "dep_chain (odeps w) zs ds" "tail_ok (odeps w) zs"
    "queue_rep (odeps w) evs" "list_all (\<lambda>(name, msg, reqs). strlen name < 2 ^ 63) ds"
    "strlen name < 2 ^ 63" "\<And>n. mok n"
  shows "\<exists>d'. deps_add mok name keys msg w = Inr (0, w\<lparr>odeps := d'\<rparr>) \<and>
    dep_rep d' (filter (\<lambda>x. \<not> ready_dep x)
      (ds @ [(cstr name, msg, map (\<lambda>k. (cstr k, map_of kvs (cstr k) \<noteq> None)) keys)])) \<and>
    queue_rep d' (evs @ map dep_event (filter ready_dep
      (ds @ [(cstr name, msg, map (\<lambda>k. (cstr k, map_of kvs (cstr k) \<noteq> None)) keys)])))"
  using assms by (rule deps_add_spec)

theorem deps_add_correct_witness:
  "\<exists>d'. deps_add (\<lambda>_. True) ''n'' [''x''] 7 fresh_store = Inr (0, fresh_store\<lparr>odeps := d'\<rparr>) \<and>
    dep_rep d' (filter (\<lambda>x. \<not> ready_dep x)
      ([] @ [(cstr ''n'', 7, map (\<lambda>k. (cstr k, map_of ([] :: (string \<times> obj_val) list) (cstr k) \<noteq> None)) [''x''])])) \<and>
    queue_rep d' ([] @ map dep_event (filter ready_dep
      ([] @ [(cstr ''n'', 7, map (\<lambda>k. (cstr k, map_of ([] :: (string \<times> obj_val) list) (cstr k) \<noteq> None)) [''x''])])))"
  by (rule deps_add_correct [where xs = "[]" and ys = "[]" and zs = "[]"])
    (simp_all add: fresh_chains fresh_deps tail_ok_def strlen_def cstr_def)

text \<open>C34: Removing the last entry of the dependency list while another stays leaves \<open>tail\<close> on a
  freed entry: in any well-formed store whose tail pointer is right, when a new key completes the last
  dependency of the list and some earlier one goes on waiting, the next \<open>deps_add\<close>, whatever it
  asks for, writes through the dangling pointer.\<close>

theorem deps_dangling_tail:
  assumes "chains w xs ys" "bindings w xs kvs" "dep_chain (odeps w) (zs @ [t]) (ds @ [dl])" "dtail (odeps w) = Some t"
    "queue_rep (odeps w) evs" "list_all (\<lambda>(name, msg, reqs). strlen name < 2 ^ 63) (ds @ [dl])" "\<And>n. mok n"
    "ready_dep (mark_dep (Some key) dl)" "dp \<in> set ds" "\<not> ready_dep (mark_dep (Some key) dp)"
  shows "\<exists>w'. obj_add mok key sWhat data len w = Inr w' \<and>
    (\<forall>name keys msg. deps_add mok name keys msg w' = Inl (Undefined UseAfterFree))"
  using assms by (rule dangling_tail)

lemma two_deps:
  "\<exists>d a b. dep_chain d [a, b] [(''A'', 1, [(''x'', False)]), (''B'', 2, [(''y'', False)])] \<and> dtail d = Some b \<and> queue_rep d []"
proof -
  obtain d1 a where d1: "dep_chain d1 [a] [(''A'', 1, [(''x'', False)])]" "queue_rep d1 []" "dtail d1 = Some a"
    using deps_insert_spec [OF fresh_deps(1) _ fresh_deps(2), of "''A''" 1 "[(''x'', False)]"] by (auto simp: tail_ok_def cstr_def)
  then obtain d2 b where "dep_chain d2 ([a] @ [b]) ([(''A'', 1, [(''x'', False)])] @ [(''B'', 2, [(''y'', False)])])" "queue_rep d2 []" "dtail d2 = Some b"
    using deps_insert_spec [OF d1(1) _ d1(2), of "''B''" 2 "[(''y'', False)]"] by (auto simp: tail_ok_def cstr_def)
  then show ?thesis
    by auto
qed

theorem deps_dangling_tail_witness:
  "\<exists>d a b w'. dep_chain d ([a] @ [b]) ([(''A'', 1, [(''x'', False)])] @ [(''B'', 2, [(''y'', False)])]) \<and> dtail d = Some b \<and>
    obj_add (\<lambda>_. True) ''y'' None (Some ''v'') 1 (fresh_store\<lparr>odeps := d\<rparr>) = Inr w' \<and>
    (\<forall>name keys msg. deps_add (\<lambda>_. True) name keys msg w' = Inl (Undefined UseAfterFree))"
proof -
  obtain d a b where d: "dep_chain d ([a] @ [b]) ([(''A'', 1, [(''x'', False)])] @ [(''B'', 2, [(''y'', False)])])"
      "dtail d = Some b" "queue_rep d []"
    using two_deps by auto
  let ?w = "fresh_store\<lparr>odeps := d\<rparr>"
  have "chains ?w [] []" "bindings ?w [] []"
    using fresh_chains by (simp_all add: chains_def bindings_def whats_def)
  moreover have "ready_dep (mark_dep (Some ''y'') (''B'', 2, [(''y'', False)]))" "\<not> ready_dep (mark_dep (Some ''y'') (''A'', 1, [(''x'', False)]))"
    by (simp_all add: mark_dep_def mark_def ready_dep_def satisfied_def same_str_def cstr_def)
  ultimately have "\<exists>w'. obj_add (\<lambda>_. True) ''y'' None (Some ''v'') 1 ?w = Inr w' \<and>
    (\<forall>name keys msg. deps_add (\<lambda>_. True) name keys msg w' = Inl (Undefined UseAfterFree))"
    using d by (intro deps_dangling_tail [where kvs = "[]" and zs = "[a]" and t = b and ds = "[(''A'', 1, [(''x'', False)])]" and
      dp = "(''A'', 1, [(''x'', False)])"])
      (simp_all add: strlen_def cstr_def bindings_def)
  with d(1,2) show ?thesis
    by blast
qed

text \<open>C35: When another thread stores a key between the look-up and the insertion of a \<open>deps_add\<close> that
  asks for it, the dependency misses it: the key is in the store, but the entry goes on counting it as
  missing through the final check of \<open>deps_add\<close> and through all further completions, of all
  entries or of other keys. Only storing the same key once more can complete it.\<close>

theorem deps_lost_wakeup:
  assumes "chains w xs ys" "bindings w xs kvs" "dep_chain (odeps w) zs ds" "tail_ok (odeps w) zs"
    "ds = [] \<or> \<not> ready_dep (mark_dep (Some key) (last ds))"
    "queue_rep (odeps w) evs" "list_all (\<lambda>(name, msg, reqs). strlen name < 2 ^ 63) ds" "strlen name < 2 ^ 63" "\<And>n. mok n"
    "map_of kvs (cstr key) = None" "key \<in> set keys" "\<forall>c. Some c \<in> set ks \<longrightarrow> \<not> same_str c (cstr key)"
  shows "\<exists>reqs w1 d1 d2 ds2. deps_check keys w = Inr (reqs, w) \<and> obj_add mok key sWhat data len w = Inr w1 \<and>
    deps_insert name msg reqs (odeps w1) = Inr d1 \<and> foldr_m (\<lambda>d k. deps_complete mok k d) d1 (None # ks) = Inr d2 \<and>
    store_get (w1\<lparr>odeps := d2\<rparr>) key = Inr (Some (len, data, sWhat)) \<and>
    dep_rep d2 ds2 \<and> waits_for (cstr key) (cstr name) msg ds2"
  using assms by (rule lost_wakeup)

theorem deps_lost_wakeup_witness:
  "\<exists>reqs w1 d1 d2 ds2. deps_check [''y'', ''x''] fresh_store = Inr (reqs, fresh_store) \<and>
    obj_add (\<lambda>_. True) ''x'' None (Some ''v'') 1 fresh_store = Inr w1 \<and>
    deps_insert ''n'' 7 reqs (odeps w1) = Inr d1 \<and>
    foldr_m (\<lambda>d k. deps_complete (\<lambda>_. True) k d) d1 (None # [Some ''y'', None]) = Inr d2 \<and>
    store_get (w1\<lparr>odeps := d2\<rparr>) ''x'' = Inr (Some (1, Some ''v'', None)) \<and>
    dep_rep d2 ds2 \<and> waits_for (cstr ''x'') (cstr ''n'') 7 ds2"
  by (rule deps_lost_wakeup [where xs = "[]" and ys = "[]" and kvs = "[]" and zs = "[]" and ds = "[]" and evs = "[]"])
    (simp_all add: fresh_chains fresh_deps tail_ok_def strlen_def cstr_def same_str_def)

end
