(* ===== verification/Robj.thy ===== *)
theory Robj
  imports Obj MemSfs
begin

text \<open>
  The object store from R, src/robj.c: \<open>C_put\<close>, \<open>C_get\<close> (which decodes serialised objects
  and caches the result in the entry) and \<open>C_clean\<close>. The state is the pair of the flags of
  \<open>obj_init\<close> and the store.
\<close>

type_synonym rstate = "(bool \<times> bool) \<times> store"

text \<open>\<open>CHAR(STRING_ELT(sKey, 0))\<close> after the check that the key is one string.\<close>

fun key_arg :: "sexp \<Rightarrow> fault + string" where
  "key_arg (Sxp a ob (StrV [c])) = Inr (R_CHAR c)"
| "key_arg x = Inl (RError InvalidArg)"

fun raw_arg :: "sexp \<Rightarrow> string option" where
  "raw_arg (Sxp a ob (RawV bs)) = Some bs"
| "raw_arg x = None"

definition C_put :: "(nat \<Rightarrow> bool) \<Rightarrow> sexp \<Rightarrow> sexp \<Rightarrow> bool \<Rightarrow> rstate \<Rightarrow> fault + rstate" where
  "C_put mok sKey sWhat use_sfs st =
     rbind (key_arg sKey) (\<lambda>key.
       if \<not> use_sfs \<and> raw_arg sWhat = None then Inl (RError InvalidArg)
       else
         (let (i, w) = obj_init (mok 1) (fst st) (snd st);
              bs = the (raw_arg sWhat) in
          rbind (obj_add mok key (Some sWhat) (if use_sfs then None else Some bs)
                   (if use_sfs then 0 else of_nat (length bs)) w) (\<lambda>w. Inr (i, w))))"

text \<open>The bytes of an entry that has no R object: \<open>o->len\<close> bytes at \<open>o->obj\<close>.\<close>

definition entry_bytes :: "obj_entry \<Rightarrow> fault + string" where
  "entry_bytes v =
     (case o_obj v of
        None \<Rightarrow> if o_len v = 0 then Inr [] else Inl (Undefined NullDeref)
      | Some b \<Rightarrow> read_mem (unat (o_len v)) b)"

text \<open>\<open>C_get\<close>; \<open>d\<close> is the static scratch buffer of src/sfs.c. The raw vector of an entry with
  a null data pointer is not written to, which matters only for a positive length.\<close>

definition C_get :: "renv \<Rightarrow> string \<Rightarrow> sexp \<Rightarrow> bool \<Rightarrow> bool \<Rightarrow> rstate \<Rightarrow> fault + sexp \<times> string \<times> rstate" where
  "C_get R d sKey use_sfs rm st =
     rbind (key_arg sKey) (\<lambda>key.
     let (i, w) = obj_init (malloc_ok R 1) (fst st) (snd st) in
     rbind (obj_get key rm w) (\<lambda>(p, w).
       if p = NULL then Inr (R_NilValue, d, i, w)
       else
         rbind (deref (oheap w) p) (\<lambda>en.
         case o_sWhat en of
           Some x \<Rightarrow> Inr (x, d, i, w)
         | None \<Rightarrow>
             rbind (if use_sfs then rbind (entry_bytes en) (C_mem_restore R d)
                    else if \<not> alloc_ok R RAWSXP (unat (o_len en)) then Inl (RError AllocFailed)
                    else if o_obj en = None \<and> o_len en \<noteq> 0 then Inl (Undefined UninitRead)
                    else rbind (entry_bytes en) (\<lambda>bs. Inr (plain (RawV bs), d))) (\<lambda>(x, d).
             if rm then Inr (x, d, i, w)
             else
               (let w = w\<lparr>oheap := put_rec (the p) (en\<lparr>o_sWhat := Some x\<rparr>) (oheap w)\<rparr> in
                Inr (x, d, i, if x \<noteq> R_NilValue then R_PreserveObject x w else w))))))"

definition C_clean :: "bool \<Rightarrow> rstate \<Rightarrow> fault + rstate" where
  "C_clean calloc_ok st =
     (let (i, w) = obj_init calloc_ok (fst st) (snd st) in rbind (obj_gc w) (\<lambda>w. Inr (i, w)))"

subsection \<open>Caching keeps the store well formed\<close>

lemma obj_init_done [simp]: "obj_init c (True, b) w = ((True, b), w)"
  by (simp add: obj_init_def)

lemma cache_chains:
  fixes x :: sexp
  assumes c: "chains w (as @ a # bs) ys" and a: "mem (oheap w) a = Some en" "o_sWhat en = None"
  defines "w1 \<equiv> w\<lparr>oheap := put_rec a (en\<lparr>o_sWhat := Some x\<rparr>) (oheap w)\<rparr>"
  shows "chains (if x \<noteq> R_NilValue then R_PreserveObject x w1 else w1) (as @ a # bs) ys"
proof -
  let ?w = "if x \<noteq> R_NilValue then R_PreserveObject x w1 else w1"
  have dis: "a \<notin> set as" "a \<notin> set bs" "a \<notin> set ys"
    using c by (auto simp: chains_def)
  have keep: "whats ?w zs = whats w zs" if "a \<notin> set zs" for zs
    using that by (intro whats_cong) (auto simp: w1_def R_PreserveObject_def)
  have "seg (mem (oheap ?w)) o_next (obj_root ?w) (as @ a # bs) NULL"
    using c dis a(1) by (auto simp: chains_def w1_def R_PreserveObject_def seg_append)
  moreover have "seg (mem (oheap ?w)) o_next (obj_gc_pool ?w) ys NULL" "heap_ok (oheap ?w)"
      "dom (mem (oheap ?w)) = set ((as @ a # bs) @ ys)" "distinct ((as @ a # bs) @ ys)"
    using c dis a(1) by (auto simp: chains_def w1_def R_PreserveObject_def)
  moreover have "count_list (preserved ?w) y = count_list (whats ?w ((as @ a # bs) @ ys)) y" if "y \<noteq> R_NilValue" for y
  proof -
    have "count_list (preserved w) y = count_list (whats w as @ whats w bs @ whats w ys) y"
      using c that a by (simp add: chains_def whats_Cons)
    moreover have "mem (oheap ?w) a = Some (en\<lparr>o_sWhat := Some x\<rparr>)"
      by (simp add: w1_def R_PreserveObject_def)
    ultimately show ?thesis
      using keep dis that by (simp add: whats_Cons) (simp add: w1_def R_PreserveObject_def)
  qed
  ultimately show ?thesis
    unfolding chains_def by blast
qed

lemma bindings_update:
  assumes b: "bindings w (as @ a # bs) kvs" and a: "mem (oheap w) a = Some en" "a \<notin> set as" "a \<notin> set bs"
    and w': "mem (oheap w') = (mem (oheap w))(a \<mapsto> en')" "o_key en' = o_key en"
  shows "bindings w' (as @ a # bs) (kvs[length as := binding en'])"
proof -
  obtain ka kb where kvs: "kvs = ka @ binding en # kb" "length ka = length as"
      "map (\<lambda>a. map_option binding (mem (oheap w) a)) as = map Some ka"
      "map (\<lambda>a. map_option binding (mem (oheap w) a)) bs = map Some kb"
  proof
    have m: "map (\<lambda>a. map_option binding (mem (oheap w) a)) (as @ a # bs) = map Some kvs"
      using b by (simp add: bindings_def)
    have l: "length kvs = length (as @ a # bs)"
      using arg_cong [OF m, of length] by simp
    show "kvs = take (length as) kvs @ binding en # drop (Suc (length as)) kvs"
      using arg_cong [OF m, of "\<lambda>l. l ! length as"] a(1) l
      by (simp add: nth_append id_take_nth_drop [of "length as" kvs, symmetric])
    show "length (take (length as) kvs) = length as"
      using l by simp
    show "map (\<lambda>a. map_option binding (mem (oheap w) a)) as = map Some (take (length as) kvs)"
      using arg_cong [OF m, of "take (length as)"] by (simp add: take_map)
    show "map (\<lambda>a. map_option binding (mem (oheap w) a)) bs = map Some (drop (Suc (length as)) kvs)"
      using arg_cong [OF m, of "drop (Suc (length as))"] by (simp add: drop_map)
  qed
  have keep: "map (\<lambda>y. map_option binding (mem (oheap w') y)) zs = map (\<lambda>y. map_option binding (mem (oheap w) y)) zs"
    if "a \<notin> set zs" for zs
    using that w' by (intro map_cong) auto
  have "map (\<lambda>y. map_option binding (mem (oheap w') y)) as = map Some ka"
      "map (\<lambda>y. map_option binding (mem (oheap w') y)) bs = map Some kb" "mem (oheap w') a = Some en'"
    using keep [OF a(2)] keep [OF a(3)] kvs(3,4) w'(1) by (simp_all only: fun_upd_same)
  moreover have "nul \<notin> set (o_key en')"
    using b kvs(1) w'(2) by (simp add: bindings_def binding_def)
  ultimately show ?thesis
    using b kvs(1,2) by (simp add: bindings_def list_update_append binding_def)
qed

lemma map_of_update_first:
  "map_of kvs k = Some v \<Longrightarrow> n < length kvs \<Longrightarrow> k \<notin> fst ` set (take n kvs) \<Longrightarrow> kvs ! n = (k, v) \<Longrightarrow>
    map_of (kvs[n := (k, v')]) k' = (if k' = k then Some v' else map_of kvs k')"
proof (induction kvs arbitrary: n)
  case (Cons kv kvs)
  then show ?case by (cases n) (auto split: if_splits)
qed simp

text \<open>The key argument of the R functions.\<close>

abbreviation (input) r_string :: "string \<Rightarrow> sexp" where
  "r_string k \<equiv> plain (StrV [MkChar k])"

lemma C_get_cached:
  assumes rep: "store_rep w kvs" and k: "map_of kvs (cstr k) = Some (len, data, Some x)"
  shows "C_get R d (r_string k) use_sfs False ((True, b), w) = Inr (x, d, (True, b), w)"
proof -
  obtain xs ys where w: "chains w xs ys" "bindings w xs kvs"
    using rep by (auto simp: store_rep_def obj_rep_def)
  obtain a en where "obj_get k False w = Inr (Some a, w)" "mem (oheap w) a = Some en"
      "binding en = (cstr k, len, data, Some x)"
    using obj_get_spec [OF w, of k] k by auto
  then show ?thesis
    by (simp add: C_get_def binding_def)
qed

lemma C_get_caches:
  assumes rep: "store_rep w kvs" and k: "map_of kvs (cstr k) = Some (len, data, None)"
    and dec: "\<And>en. o_len en = len \<Longrightarrow> o_obj en = data \<Longrightarrow>
      rbind (entry_bytes en) (C_mem_restore R d) = Inr (x, d')"
  shows "\<exists>w' kvs'. C_get R d (r_string k) True False ((True, b), w) = Inr (x, d', (True, b), w') \<and>
    store_rep w' kvs' \<and> (\<forall>k'. map_of kvs' k' = (if k' = cstr k then Some (len, data, Some x) else map_of kvs k'))"
proof -
  obtain xs ys where w: "chains w xs ys" "bindings w xs kvs" and good: "deps_good w"
    using rep by (auto simp: store_rep_def obj_rep_def)
  obtain a en as bs where a: "obj_get k False w = Inr (Some a, w)" "mem (oheap w) a = Some en"
      "binding en = (cstr k, len, data, None)" "xs = as @ a # bs" "cstr k \<notin> fst ` set (take (length as) kvs)"
    using obj_get_spec [OF w, of k] k by auto
  have en: "o_key en = cstr k" "o_len en = len" "o_obj en = data" "o_sWhat en = None"
    using a(3) by (auto simp: binding_def)
  let ?w1 = "w\<lparr>oheap := put_rec a (en\<lparr>o_sWhat := Some x\<rparr>) (oheap w)\<rparr>"
  let ?w2 = "if x \<noteq> R_NilValue then R_PreserveObject x ?w1 else ?w1"
  let ?kvs = "kvs[length as := (cstr k, len, data, Some x)]"
  have get: "C_get R d (r_string k) True False ((True, b), w) = Inr (x, d', (True, b), ?w2)"
    using a(1,2) en dec [OF en(2,3)] by (simp add: C_get_def)
  have ch: "chains ?w2 (as @ a # bs) ys"
    using cache_chains [of w as a bs ys en x] w(1) a(2,4) en(4) by blast
  have dis: "a \<notin> set as" "a \<notin> set bs"
    using w(1) a(4) by (auto simp: chains_def)
  have "bindings ?w2 (as @ a # bs) (kvs[length as := binding (en\<lparr>o_sWhat := Some x\<rparr>)])"
    by (rule bindings_update [OF w(2) [unfolded a(4)] a(2) dis]) (simp_all add: R_PreserveObject_def)
  then have bd: "bindings ?w2 (as @ a # bs) ?kvs"
    using en by (simp add: binding_def)
  have m: "map (\<lambda>a. map_option binding (mem (oheap w) a)) (as @ a # bs) = map Some kvs"
    using w(2) a(4) by (simp add: bindings_def)
  have l: "length as < length kvs"
    using arg_cong [OF m, of length] by simp
  moreover have "kvs ! length as = (cstr k, len, data, None)"
    using arg_cong [OF m, of "\<lambda>l. l ! length as"] a(2,3) l by (simp add: nth_append)
  ultimately have mo: "\<forall>k'. map_of ?kvs k' = (if k' = cstr k then Some (len, data, Some x) else map_of kvs k')"
    using map_of_update_first [OF k _ a(5)] by blast
  have "odeps ?w2 = odeps w"
    by (simp add: R_PreserveObject_def)
  then have "store_rep ?w2 ?kvs"
    using ch bd good unfolding store_rep_def obj_rep_def deps_good_def by metis
  with get mo show ?thesis by blast
qed

lemma C_put_spec:
  assumes rep: "store_rep w kvs" and mok: "\<And>n. mok n" and x: "use_sfs \<or> raw_arg x \<noteq> None"
  shows "\<exists>w' v. C_put mok (r_string k) x use_sfs ((True, b), w) = Inr ((True, b), w') \<and>
    store_rep w' ((cstr k, v) # kvs) \<and> (\<exists>len data. v = (len, data, Some x) \<and>
      (if use_sfs then data = None else data = raw_arg x))"
proof -
  obtain xs ys where w: "chains w xs ys" "bindings w xs kvs" "deps_good w"
    using rep by (auto simp: store_rep_def obj_rep_def)
  let ?data = "if use_sfs then None else Some (the (raw_arg x))"
  let ?len = "if use_sfs then 0 else of_nat (length (the (raw_arg x))) :: 64 word"
  obtain w' a where w': "obj_add mok k (Some x) ?data ?len w = Inr w'" "chains w' (a # xs) ys"
      "bindings w' (a # xs) ((cstr k, ?len, ?data, Some x) # kvs)" "deps_good w'"
    using obj_add_chains [of _ _ _ _ mok, OF w mok] by blast
  have "C_put mok (r_string k) x use_sfs ((True, b), w) = Inr ((True, b), w')"
    using x w'(1) by (cases use_sfs) (auto simp: C_put_def)
  moreover have "store_rep w' ((cstr k, ?len, ?data, Some x) # kvs)"
    using w'(2-4) by (auto simp: store_rep_def obj_rep_def)
  ultimately show ?thesis
    using x by (intro exI [of _ w'] exI [of _ "(?len, ?data, Some x)"]) auto
qed

lemma get_wire:
  assumes rep: "store_rep w kvs" and k: "map_of kvs (cstr k) = Some (of_nat (length (wire x)), Some (wire x), None)"
    and x: "wf_sexp x" "storable R x" and d: "length d = DEC_BUF_SIZE" and len: "length (wire x) < 2 ^ 64"
  shows "\<exists>d' w' kvs'. C_get R d (r_string k) True False ((True, b), w) = Inr (norm x, d', (True, b), w') \<and>
    store_rep w' kvs' \<and>
    (\<forall>e use_sfs. C_get R e (r_string k) use_sfs False ((True, b), w') = Inr (norm x, e, (True, b), w'))"
proof -
  obtain d' where d': "C_mem_restore R d (wire x) = Inr (norm x, d')"
    using mem_restore_wire [OF x d] by blast
  have l: "unat (of_nat (length (wire x)) :: 64 word) = length (wire x)"
    using len by (simp add: unat_of_nat take_bit_nat_eq_self_iff)
  obtain w' kvs' where w': "C_get R d (r_string k) True False ((True, b), w) = Inr (norm x, d', (True, b), w')"
      "store_rep w' kvs'"
      "\<forall>k'. map_of kvs' k' = (if k' = cstr k then Some (of_nat (length (wire x)), Some (wire x), Some (norm x)) else map_of kvs k')"
    using C_get_caches [OF rep k, of R d "norm x" d' b] d' l by (auto simp: entry_bytes_def read_mem_def)
  with C_get_cached [OF w'(2)] show ?thesis by fastforce
qed

subsection \<open>Properties\<close>

text \<open>An object put from R comes back as it is: after \<open>C_put\<close> of a value (serialised on
  demand, or a raw vector), \<open>C_get\<close> of the key returns that very object, whichever form it
  is asked for in.\<close>

theorem robj_put_get:
  assumes "store_rep w kvs" "\<And>n. mok n" "use_sfs \<or> raw_arg x \<noteq> None"
  shows "\<exists>w'. C_put mok (r_string k) x use_sfs ((True, b), w) = Inr ((True, b), w') \<and>
    C_get R d (r_string k) any_sfs False ((True, b), w') = Inr (x, d, (True, b), w')"
proof -
  obtain w' len data where "C_put mok (r_string k) x use_sfs ((True, b), w) = Inr ((True, b), w')"
      "store_rep w' ((cstr k, len, data, Some x) # kvs)"
    using C_put_spec [of _ _ mok, OF assms] by blast
  with C_get_cached [of w' "(cstr k, len, data, Some x) # kvs" k] show ?thesis
    by auto
qed

definition any_env :: renv where
  "any_env = \<lparr>alloc_ok = \<lambda>_ _. True, malloc_ok = \<lambda>_. True\<rparr>"

theorem robj_put_get_witness:
  "\<exists>w'. C_put (\<lambda>_. True) (r_string ''key'') (plain (IntV [1, 2])) True ((True, True), demo_store) = Inr ((True, True), w') \<and>
    C_get any_env [] (r_string ''key'') True False ((True, True), w') = Inr (plain (IntV [1, 2]), [], (True, True), w')"
  by (rule robj_put_get [OF demo_store_rep]) simp_all

text \<open>C24: A serialised object that arrived as bytes (say by a PUT from a client) is decoded when
  R gets it: \<open>C_get\<close> returns the value the bytes were written from, up to the normal form of
  the format, keeps the store well formed, and later gets return the same object from the
  cache.\<close>

theorem robj_get_wire:
  assumes "store_rep w kvs" "map_of kvs (cstr k) = Some (of_nat (length (wire x)), Some (wire x), None)"
    "wf_sexp x" "storable R x" "length d = DEC_BUF_SIZE" "length (wire x) < 2 ^ 64"
  shows "\<exists>d' w' kvs'. C_get R d (r_string k) True False ((True, b), w) = Inr (norm x, d', (True, b), w') \<and>
    store_rep w' kvs' \<and>
    (\<forall>e use_sfs. C_get R e (r_string k) use_sfs False ((True, b), w') = Inr (norm x, e, (True, b), w'))"
  using assms by (rule get_wire)

definition wire_store :: store where
  "wire_store = projr (store_add fresh_store ''k'' (of_nat (length (wire (plain (IntV [7])))), Some (wire (plain (IntV [7]))), None))"

lemma wire_store_rep:
  "store_rep wire_store [(cstr ''k'', of_nat (length (wire (plain (IntV [7])))), Some (wire (plain (IntV [7]))), None)]"
  using fresh_add [of "''k''" "(of_nat (length (wire (plain (IntV [7])))), Some (wire (plain (IntV [7]))), None)"]
  by (auto simp: wire_store_def)

theorem robj_get_wire_witness:
  "\<exists>d' w' kvs'. C_get any_env (replicate DEC_BUF_SIZE nul) (r_string ''k'') True False ((True, True), wire_store) =
      Inr (norm (plain (IntV [7])), d', (True, True), w') \<and> store_rep w' kvs' \<and>
    (\<forall>e use_sfs. C_get any_env e (r_string ''k'') use_sfs False ((True, True), w') =
      Inr (norm (plain (IntV [7])), e, (True, True), w'))"
  by (rule robj_get_wire [OF wire_store_rep]) (simp_all add: any_env_def wire_def DEC_BUF_SIZE_def len_ok_def)

end
