(* ===== verification/HttpIn.thy ===== *)
theory HttpIn
  imports HttpOut
begin

text \<open>
  The receiving half of src/http.c: the connection's state, the parser of request and header
  lines, the body, \<open>http_input_iteration\<close> and the loop of \<open>http_connected\<close>. What is done with
  a request is the callback \<open>process\<close>: a parameter that works on the connection and on a state
  of its own.

  The line buffer is the string of its first \<open>line_pos\<close> bytes. The code writes a NUL behind them
  and scans up to the first NUL; bytes it has consumed or overwritten with NUL are never read
  again, so a position in the buffer is the string that is left from there.
\<close>

subsection \<open>Requests and connections\<close>

datatype http_method =
    METHOD_NONE | METHOD_POST | METHOD_GET | METHOD_HEAD | METHOD_PUT | METHOD_DELETE | METHOD_OTHER

definition CONNECTION_CLOSE :: "32 word" where "CONNECTION_CLOSE = 0x0001"
definition HOST_HEADER :: "32 word" where "HOST_HEADER = 0x0002"
definition HTTP_1_0 :: "32 word" where "HTTP_1_0 = 0x0004"
definition CONTENT_LENGTH :: "32 word" where "CONTENT_LENGTH = 0x0008"
definition CONTENT_TYPE :: "32 word" where "CONTENT_TYPE = 0x0040"
definition CONTENT_FORM_UENC :: "32 word" where "CONTENT_FORM_UENC = 0x0080"
definition WS_UPGRADE :: "32 word" where "WS_UPGRADE = 0x0100"

lemmas attr_defs = CONNECTION_CLOSE_def HOST_HEADER_def HTTP_1_0_def CONTENT_LENGTH_def
  CONTENT_TYPE_def CONTENT_FORM_UENC_def WS_UPGRADE_def

text \<open>The pointers of a request are \<open>None\<close> when they are null. The body is memory: a byte that
  was allocated but not received is \<open>None\<close> in the list. The same holds for the bytes of the
  \<open>raw_t\<close> with the headers.\<close>

record http_request =
  r_path :: "string option"
  r_body :: "cell list option"
  r_content_type :: "string option"
  r_content_length :: int
  r_method :: http_method
  r_attr :: "32 word"
  r_ws_protocol :: "string option"
  r_ws_version :: "string option"
  r_ws_key :: "string option"
  r_headers :: "cell list option"

definition new_request :: http_request where
  "new_request = \<lparr>r_path = None, r_body = None, r_content_type = None, r_content_length = 0,
     r_method = METHOD_NONE, r_attr = 0, r_ws_protocol = None, r_ws_version = None, r_ws_key = None,
     r_headers = None\<rparr>"

definition has_attr :: "http_request \<Rightarrow> 32 word \<Rightarrow> bool" where
  "has_attr req f \<longleftrightarrow> and (r_attr req) f \<noteq> 0"

definition add_attr :: "32 word \<Rightarrow> http_request \<Rightarrow> http_request" where
  "add_attr f req = req\<lparr>r_attr := or (r_attr req) f\<rparr>"

text \<open>The parts of a message, in their order.\<close>

datatype part = PART_REQUEST | PART_HEADER | PART_BODY

primrec part_code :: "part \<Rightarrow> nat" where
  "part_code PART_REQUEST = 0"
| "part_code PART_HEADER = 1"
| "part_code PART_BODY = 2"

instantiation part :: linorder
begin

definition less_eq_part :: "part \<Rightarrow> part \<Rightarrow> bool" where
  "less_eq_part p q \<longleftrightarrow> part_code p \<le> part_code q"

definition less_part :: "part \<Rightarrow> part \<Rightarrow> bool" where
  "less_part p q \<longleftrightarrow> part_code p < part_code q"

instance
proof
  fix x y :: part
  show "x \<le> y \<Longrightarrow> y \<le> x \<Longrightarrow> x = y"
    by (cases x; cases y) (simp_all add: less_eq_part_def)
qed (auto simp: less_eq_part_def less_part_def)

end

lemma part_less_body [simp]: "p < PART_BODY \<longleftrightarrow> p \<noteq> PART_BODY"
  by (cases p) (simp_all add: less_part_def)

text \<open>\<open>struct buffer\<close>: its capacity and the bytes stored (\<open>length\<close> of them). The list of the
  buffers of a connection is in order; the code holds a pointer to the last and links back to
  the first. The empty list is the null pointer.\<close>

record buffer =
  b_size :: nat
  b_data :: string

record http_conn =
  h_sock :: sock
  h_req :: http_request
  h_part :: part
  h_line :: string
  h_body_pos :: nat
  h_headers :: "buffer list"

definition LINE_BUF_SIZE :: nat where "LINE_BUF_SIZE = 32768"

type_synonym 'w handler = "http_conn \<Rightarrow> 'w \<Rightarrow> fault + http_conn \<times> 'w"

subsection \<open>Header buffers\<close>

text \<open>\<open>malloc(sizeof(struct buffer) + n)\<close>; the structure has 32 bytes.\<close>

definition alloc_buffer :: "(nat \<Rightarrow> bool) \<Rightarrow> nat \<Rightarrow> buffer list \<Rightarrow> buffer list option" where
  "alloc_buffer mok n bs = (if mok (32 + n) then Some (bs @ [\<lparr>b_size = n, b_data = []\<rparr>]) else None)"

text \<open>Appending to the current buffer; the caller has checked the room.\<close>

definition put_buffer :: "string \<Rightarrow> buffer list \<Rightarrow> buffer list" where
  "put_buffer s bs = butlast bs @ [(last bs)\<lparr>b_data := b_data (last bs) @ s\<rparr>]"

definition room :: "buffer list \<Rightarrow> nat" where
  "room bs = b_size (last bs) - length (b_data (last bs))"

text \<open>The copy loop of \<open>collect_buffers\<close>. Its destination is \<open>buf->data\<close>, the data of the first
  buffer itself: \<open>cap\<close> bytes, of which \<open>dst\<close> are behind.\<close>

primrec copy_buffers :: "nat \<Rightarrow> nat \<Rightarrow> buffer list \<Rightarrow> fault + nat" where
  "copy_buffers cap dst [] = Inr dst"
| "copy_buffers cap dst (b # bs) =
     (if cap < dst + length (b_data b) then Inl (Undefined OutOfBounds)
      else copy_buffers cap (dst + length (b_data b)) bs)"

text \<open>The result is allocated with its length, and its data is never written. The structure of the
  first buffer has eight bytes from \<open>data\<close> on in addition to its size.\<close>

definition collect_buffers :: "(nat \<Rightarrow> bool) \<Rightarrow> buffer list \<Rightarrow> fault + cell list option" where
  "collect_buffers mok bs =
     (if bs = [] then Inr None
      else
        (let len = sum_list (map (\<lambda>b. length (b_data b)) bs) in
         if \<not> mok (16 + len) then Inr None
         else rbind (copy_buffers (b_size (hd bs) + 8) 0 bs) (\<lambda>_. Inr (Some (uninit len)))))"

subsection \<open>Small operations\<close>

definition clear_http_request :: "http_request \<Rightarrow> http_request" where
  "clear_http_request req = new_request"

definition fin_request :: "http_request \<Rightarrow> http_request" where
  "fin_request req = (if has_attr req HTTP_1_0 then add_attr CONNECTION_CLOSE req else req)"

definition http_close :: "http_conn \<Rightarrow> http_conn" where
  "http_close c = c\<lparr>h_sock := closesocket (h_sock c)\<rparr>"

definition http_abort :: "http_conn \<Rightarrow> http_conn" where
  "http_abort c = (if is_open (h_sock c) then c\<lparr>h_sock := closesocket (h_sock c)\<rparr> else c)"

definition process_request :: "(nat \<Rightarrow> bool) \<Rightarrow> 'w handler option \<Rightarrow> 'w handler" where
  "process_request mok process c w =
     rbind
       (case process of None \<Rightarrow> Inr (c, w)
        | Some p \<Rightarrow>
            rbind (if h_headers c \<noteq> [] then
                     rbind (collect_buffers mok (h_headers c)) (\<lambda>h. Inr (c\<lparr>h_req := (h_req c)\<lparr>r_headers := h\<rparr>\<rparr>))
                   else Inr c) (\<lambda>c. p c w))
       (\<lambda>(c, w). Inr (c\<lparr>h_req := fin_request (h_req c)\<rparr>, w))"

text \<open>\<open>clear_http_request(c->request); free_buffer(c->headers); body_pos = 0; part = PART_REQUEST\<close>:
  what the code does to keep a connection alive.\<close>

definition keep_alive :: "http_conn \<Rightarrow> http_conn" where
  "keep_alive c = c\<lparr>h_req := clear_http_request (h_req c), h_headers := [], h_body_pos := 0,
     h_part := PART_REQUEST\<rparr>"

text \<open>An error answer, after which the connection is closed.\<close>

definition reject :: "string \<Rightarrow> http_conn \<Rightarrow> http_conn" where
  "reject text c = http_close (c\<lparr>h_sock := snd (send_http_response (has_attr (h_req c) HTTP_1_0) text (h_sock c))\<rparr>)"

subsection \<open>The request line\<close>

text \<open>\<open>bol\<close> is a line without its end. \<open>HTTP/1.0 400\<close> is sent without the status prefix. The
  boolean says whether the loop goes on.\<close>

definition method_of :: "string \<Rightarrow> http_method \<Rightarrow> http_method" where
  "method_of bol m =
     (let m = (if take 4 bol = ''GET '' then METHOD_GET else m);
          m = (if take 4 bol = ''PUT '' then METHOD_PUT else m);
          m = (if take 5 bol = ''POST '' then METHOD_POST else m);
          m = (if take 5 bol = ''HEAD '' then METHOD_HEAD else m) in
      if take 7 bol = ''DELETE '' then METHOD_DELETE else m)"

definition request_line :: "(nat \<Rightarrow> bool) \<Rightarrow> string \<Rightarrow> http_conn \<Rightarrow> fault + bool \<times> http_conn" where
  "request_line mok bol c =
     (let rll = length bol; sp = length (takeWhile (\<lambda>x. x \<noteq> CHR '' '') bol) in
      if sp = rll \<or> rll < 14 \<or> take 8 (drop (rll - 9) bol) \<noteq> '' HTTP/1.'' then
        Inr (False, http_close (c\<lparr>h_sock := snd (send_response (''HTTP/1.0 400 Bad Request'' @ crlf @ crlf) (h_sock c))\<rparr>))
      else
        (let req = h_req c;
             req = (if drop (rll - 3) bol = ''1.0'' then add_attr HTTP_1_0 req else req);
             req = req\<lparr>r_method := method_of bol (r_method req)\<rparr>;
             hs = (if h_headers c = [] then alloc_buffer mok 1024 [] else Some (h_headers c)) in
         case hs of
           None \<Rightarrow> Inl (Undefined NullDeref)
         | Some hs \<Rightarrow>
             (let fits = 18 + sp \<le> room hs;
                  req = (if fits \<and> r_method req = METHOD_NONE then req\<lparr>r_method := METHOD_OTHER\<rparr> else req);
                  hs = (if fits then put_buffer (''Request-Method: '' @ take sp bol @ [lf]) hs else hs);
                  c = c\<lparr>h_req := req, h_headers := hs\<rparr> in
              if r_method req = METHOD_NONE then
                Inr (False, reject ('' 501 Invalid or unimplemented method'' @ crlf @ crlf) c)
              else
                (let url = cstr (drop (Suc sp) (bol[rll - 9 := nul])) in
                 Inr (True, c\<lparr>h_req := req\<lparr>r_path := (if mok (length url + 1) then Some url else None)\<rparr>,
                              h_part := PART_HEADER\<rparr>)))))"

subsection \<open>Header lines\<close>

text \<open>\<open>needs\<close> is doubled until the rest of the line and its newline fit.\<close>

function header_space :: "nat \<Rightarrow> nat \<Rightarrow> nat" where
  "header_space l needs = (if needs \<noteq> 0 \<and> needs \<le> l then header_space l (2 * needs) else needs)"
  by pat_completeness auto
termination
  by (relation "measure (\<lambda>(l, n). Suc l - n)") auto

declare header_space.simps [simp del]

definition store_header :: "(nat \<Rightarrow> bool) \<Rightarrow> string \<Rightarrow> buffer list \<Rightarrow> buffer list" where
  "store_header mok bol hs =
     (let hs = (if hs = [] then (case alloc_buffer mok 1024 [] of None \<Rightarrow> [] | Some hs \<Rightarrow> hs) else hs);
          l = length bol in
      if hs = [] \<or> l = 0 then hs
      else if room hs < l + 1 then
        (let fits = room hs; hs = put_buffer (take fits bol) hs in
         case alloc_buffer mok (header_space (l + 1 - fits) 2048) hs of
           None \<Rightarrow> hs | Some hs \<Rightarrow> put_buffer (drop fits bol @ [lf]) hs)
      else put_buffer (bol @ [lf]) hs)"

definition to_lower :: "char \<Rightarrow> char" where
  "to_lower x = (if is_upper x then char_of (of_char x + 32 :: nat) else x)"

definition strdup :: "(nat \<Rightarrow> bool) \<Rightarrow> string \<Rightarrow> string option" where
  "strdup mok s = (if mok (length s + 1) then Some s else None)"

text \<open>The effect of a header with the (lower-case) name \<open>k\<close> and the value \<open>v\<close>.\<close>

definition set_header :: "(nat \<Rightarrow> bool) \<Rightarrow> string \<Rightarrow> string \<Rightarrow> http_request \<Rightarrow> http_request" where
  "set_header mok k v req =
     (if k = ''upgrade'' then (if v = ''websocket'' then add_attr WS_UPGRADE req else req)
      else if k = ''content-length'' then (add_attr CONTENT_LENGTH req)\<lparr>r_content_length := atol v\<rparr>
      else if k = ''content-type'' then
        (let v = map to_lower (takeWhile (\<lambda>x. x \<noteq> CHR '';'') v) @ dropWhile (\<lambda>x. x \<noteq> CHR '';'') v;
             req = (add_attr CONTENT_TYPE req)\<lparr>r_content_type := strdup mok v\<rparr> in
         if take 33 v = ''application/x-www-form-urlencoded'' then add_attr CONTENT_FORM_UENC req else req)
      else if k = ''host'' then add_attr HOST_HEADER req
      else if k = ''connection'' then
        (if take 5 (map to_lower v) = ''close'' then add_attr CONNECTION_CLOSE req else req)
      else if k = ''sec-websocket-key'' then req\<lparr>r_ws_key := strdup mok v\<rparr>
      else if k = ''sec-websocket-protocol'' then req\<lparr>r_ws_protocol := strdup mok v\<rparr>
      else if k = ''sec-websocket-version'' then req\<lparr>r_ws_version := strdup mok v\<rparr>
      else req)"

definition header_line :: "(nat \<Rightarrow> bool) \<Rightarrow> string \<Rightarrow> http_conn \<Rightarrow> http_conn" where
  "header_line mok bol c =
     (let c = c\<lparr>h_headers := store_header mok bol (h_headers c)\<rparr>;
          k = map to_lower (takeWhile (\<lambda>x. x \<noteq> CHR '':'') bol);
          v = dropWhile (\<lambda>x. x \<noteq> CHR '':'') bol in
      if v = [] then c else c\<lparr>h_req := set_header mok k (dropWhile is_blank (tl v)) (h_req c)\<rparr>)"

subsection \<open>The end of the headers\<close>

text \<open>\<open>rest\<close> is what the buffer holds behind the empty line. A request without body is processed
  here, the body of another is copied as far as it has arrived. The boolean says whether the
  function goes on to receive the body.\<close>

definition headers_done :: "(nat \<Rightarrow> bool) \<Rightarrow> 'w handler option \<Rightarrow> string \<Rightarrow> http_conn \<Rightarrow> 'w \<Rightarrow> fault + bool \<times> http_conn \<times> 'w" where
  "headers_done mok process rest c w =
     (let req = h_req c; cl = r_content_length req; has_len = has_attr req CONTENT_LENGTH;
          big = has_len \<and> cl \<noteq> 0 in
      if \<not> has_attr req HTTP_1_0 \<and> \<not> has_attr req HOST_HEADER then
        Inr (False, reject ('' 400 Bad Request (Host: missing)'' @ crlf @ ''Connection: close'' @ crlf @ crlf) c, w)
      else if big \<and> (cl < 0 \<or> 2147483640 < cl \<or> \<not> mok (nat cl + 1)) then
        Inr (False, reject ('' 413 Request Entity Too Large (request body too big)'' @ crlf @ ''Connection: close'' @ crlf @ crlf) c, w)
      else
        (let c = (if big then c\<lparr>h_req := req\<lparr>r_body := Some (uninit (nat cl + 1))\<rparr>\<rparr> else c);
             c = c\<lparr>h_body_pos := 0, h_part := PART_BODY, h_line := rest\<rparr> in
         if r_method req = METHOD_GET \<or> r_method req = METHOD_HEAD \<or> \<not> has_len \<or> cl = 0 then
           (if has_len \<and> 0 < cl then
              Inr (False, reject ('' 400 Bad Request (GET/HEAD with body)'' @ crlf @ crlf) c, w)
            else
              rbind (process_request mok process c w) (\<lambda>(c, w).
                Inr (False, if has_attr (h_req c) CONNECTION_CLOSE then http_close c else keep_alive c, w)))
         else
           (let bp = (if cl < int (length rest) then nat cl else length rest) in
            Inr (True, c\<lparr>h_body_pos := bp,
                          h_req := (h_req c)\<lparr>r_body := map_option (overwrite 0 (map Some (take bp rest))) (r_body (h_req c))\<rparr>,
                          h_line := take (length rest - bp) rest\<rparr>, w))))"

subsection \<open>The line loop\<close>

definition is_eos :: "string \<Rightarrow> bool" where
  "is_eos s \<longleftrightarrow> s = [] \<or> hd s = nul"

definition line_of :: "string \<Rightarrow> string" where
  "line_of s = takeWhile (\<lambda>x. x \<noteq> nul \<and> x \<noteq> cr \<and> x \<noteq> lf) s"

text \<open>What follows the line end at the front of \<open>r\<close>: a CR, an LF or both.\<close>

definition skip_eol :: "string \<Rightarrow> string" where
  "skip_eol r =
     (let r = (if r \<noteq> [] \<and> hd r = cr then tl r else r) in if r \<noteq> [] \<and> hd r = lf then tl r else r)"

lemma line_of_rest: "\<not> is_eos (drop (length (line_of s)) s) \<Longrightarrow>
    length (skip_eol (drop (length (line_of s)) s)) < length s"
  by (induction s) (auto simp: is_eos_def line_of_def skip_eol_def Let_def)

text \<open>The body of \<open>while (*s)\<close>. The result is \<open>True\<close> with the state when the loop was left by
  its condition or by \<open>break\<close>, \<open>False\<close> when the function has returned.\<close>

function parse_lines ::
    "(nat \<Rightarrow> bool) \<Rightarrow> 'w handler option \<Rightarrow> string \<Rightarrow> http_conn \<Rightarrow> 'w \<Rightarrow> fault + bool \<times> http_conn \<times> 'w" where
  "parse_lines mok process s c w =
     (if is_eos s then Inr (True, c, w)
      else if hd s = lf \<or> take 2 s = crlf then
        headers_done mok process (drop (if hd s = cr then 2 else 1) s) c w
      else
        (let bol = line_of s; r = drop (length bol) s in
         if is_eos r then
           (if length s = length (h_line c) then
              (if length (h_line c) < LINE_BUF_SIZE then Inr (False, c, w)
               else Inr (False, reject ('' 413 Request entity too large'' @ crlf @ ''Connection: close'' @ crlf @ crlf) c, w))
            else Inr (False, c\<lparr>h_line := s\<rparr>, w))
         else if h_part c = PART_REQUEST then
           rbind (request_line mok bol c) (\<lambda>(go, c).
             if go then parse_lines mok process (skip_eol r) c w else Inr (False, c, w))
         else if h_part c = PART_HEADER then parse_lines mok process (skip_eol r) (header_line mok bol c) w
         else parse_lines mok process (skip_eol r) c w))"
  by pat_completeness auto
termination
  by (relation "measure (\<lambda>(mok, process, s, c, w). length s)") (auto dest: line_of_rest)

declare parse_lines.simps [simp del]

subsection \<open>The body\<close>

definition body_done :: "(nat \<Rightarrow> bool) \<Rightarrow> 'w handler option \<Rightarrow> 'w handler" where
  "body_done mok process c w =
     rbind (process_request mok process c w) (\<lambda>(c, w).
       Inr (if has_attr (h_req c) CONNECTION_CLOSE \<or> h_line c \<noteq> [] then http_close c
            else (keep_alive c)\<lparr>h_line := []\<rparr>, w))"

text \<open>The last section: the message is in its body, but has none. \<open>http_conn_ok\<close> of HttpSafe shows that
  it is never reached, since a message without body ends in \<open>headers_done\<close>. What is received there
  is looked at but not counted in \<open>line_pos\<close>. \<open>bare_eol\<close> is the test of the first two bytes of the
  line buffer, of which the second need not have been received.\<close>

fun bare_eol :: "string \<Rightarrow> fault + bool" where
  "bare_eol [] = Inl (Undefined UninitRead)"
| "bare_eol [x] = (if x = cr then Inl (Undefined UninitRead) else Inr (x = lf))"
| "bare_eol (x # y # s) = Inr (x = cr \<and> y = lf \<or> x = lf)"

definition no_body_input :: "(nat \<Rightarrow> bool) \<Rightarrow> 'w handler option \<Rightarrow> 'w handler" where
  "no_body_input mok process c w =
     (let refuse = reject ('' 411 length is required for non-empty body'' @ crlf @ ''Connection: close'' @ crlf @ crlf) in
      if h_line c \<noteq> [] then
        rbind (bare_eol (h_line c)) (\<lambda>eol.
          if \<not> eol then Inr (refuse c, w)
          else
            rbind (process_request mok process c w) (\<lambda>(c, w).
              if has_attr (h_req c) CONNECTION_CLOSE then Inr (http_close c, w)
              else Inr ((keep_alive c)\<lparr>h_line := drop (if hd (h_line c) = cr then 2 else 1) (h_line c)\<rparr>, w)))
      else
        (let (n, bs, k) = sock_recv (LINE_BUF_SIZE - 1) (h_sock c); c = c\<lparr>h_sock := k\<rparr> in
         if n < 0 then Inr (http_close c, w)
         else if n = 0 then rbind (process_request mok process c w) (\<lambda>(c, w). Inr (http_close c, w))
         else rbind (bare_eol bs) (\<lambda>eol. Inr (if eol then c else refuse c, w))))"

text \<open>The part of \<open>http_input_iteration\<close> behind the line loop.\<close>

definition body_input :: "(nat \<Rightarrow> bool) \<Rightarrow> 'w handler option \<Rightarrow> 'w handler" where
  "body_input mok process c w =
     (let req = h_req c; cl = r_content_length req in
      case r_body req of
        None \<Rightarrow> no_body_input mok process c w
      | Some b \<Rightarrow>
          if int (h_body_pos c) < cl then
            (let (n, bs, k) = sock_recv (nat cl - h_body_pos c) (h_sock c);
                 c = c\<lparr>h_sock := k, h_line := []\<rparr> in
             if n < 0 then Inr (http_close c, w)
             else if n = 0 then
               rbind (process_request mok process c w) (\<lambda>(c, w). Inr (http_close c, w))
             else
               (let c = c\<lparr>h_req := req\<lparr>r_body := Some (overwrite (h_body_pos c) (map Some bs) b)\<rparr>,
                          h_body_pos := h_body_pos c + nat n\<rparr> in
                if int (h_body_pos c) = cl then body_done mok process c w else Inr (c, w)))
          else if int (h_body_pos c) = cl then body_done mok process c w
          else Inr (c, w))"

subsection \<open>An iteration, and the connection\<close>

definition http_input_iteration :: "(nat \<Rightarrow> bool) \<Rightarrow> 'w handler option \<Rightarrow> 'w handler" where
  "http_input_iteration mok process c w =
     (if h_part c < PART_BODY then
        (let (n, bs, k) = sock_recv (LINE_BUF_SIZE - length (h_line c) - 1) (h_sock c);
             c = c\<lparr>h_sock := k\<rparr> in
         if n < 0 then Inr (http_close c, w)
         else if n = 0 then
           (if r_path (h_req c) \<noteq> None then
              rbind (process_request mok process c w) (\<lambda>(c, w). Inr (http_close c, w))
            else Inr (http_close c, w))
         else
           (let c = c\<lparr>h_line := h_line c @ bs\<rparr> in
            rbind (parse_lines mok process (h_line c) c w) (\<lambda>(go, c, w).
              if \<not> go then Inr (c, w)
              else if h_part c < PART_BODY then Inr (c\<lparr>h_line := []\<rparr>, w)
              else body_input mok process c w)))
      else body_input mok process c w)"

primrec input_loop :: "nat \<Rightarrow> (nat \<Rightarrow> bool) \<Rightarrow> 'w handler option \<Rightarrow> 'w handler" where
  "input_loop 0 mok process c w = Inl OutOfFuel"
| "input_loop (Suc n) mok process c w =
     (if is_open (h_sock c) then
        rbind (http_input_iteration mok process c w) (\<lambda>(c, w). input_loop n mok process c w)
      else Inr (c, w))"

definition new_conn :: "sock \<Rightarrow> http_conn" where
  "new_conn s = \<lparr>h_sock = s, h_req = new_request, h_part = PART_REQUEST, h_line = [], h_body_pos = 0,
     h_headers = []\<rparr>"

lemma new_conn_sock [simp]: "h_sock (new_conn s) = s"
  by (simp add: new_conn_def)

text \<open>\<open>http_connected\<close> without TLS: -1 when one of its three allocations fails. The first failure
  leaves the socket open. Each iteration reads from the socket or closes it, so two more
  iterations than there are bytes and events to come are enough.\<close>

definition http_connected ::
    "(nat \<Rightarrow> bool) \<Rightarrow> 'w handler option \<Rightarrow> sock \<Rightarrow> 'w \<Rightarrow> fault + int \<times> sock \<times> 'w" where
  "http_connected mok process s w =
     (if \<not> mok 80 then Inr (- 1, s, w)
      else if \<not> mok LINE_BUF_SIZE \<or> \<not> mok 72 then Inr (- 1, closesocket s, w)
      else rbind (input_loop (rx_size s + 2) mok process (new_conn s) w) (\<lambda>(c, w). Inr (0, h_sock c, w)))"

end
