(* ===== verification/HttpSafe.thy ===== *)
theory HttpSafe
  imports HttpIn
begin

text \<open>
  What holds of every HTTP connection, whatever the client sends and the handler does: the
  invariant \<open>http_conn_ok\<close> of \<open>http_input_iteration\<close>, the end of the loop in \<open>http_connected\<close>, and the
  faults that remain. The contract between the server and the callback is the locale
  \<open>http_handler\<close>.
\<close>

subsection \<open>The invariant\<close>

definition buffer_ok :: "buffer \<Rightarrow> bool" where
  "buffer_ok b \<longleftrightarrow> length (b_data b) \<le> b_size b"

text \<open>What a handler may rely on: a path, and a body that is null or has room for the announced
  length and one byte more. A request whose headers were complete has a body if its length is not
  zero; a connection that ends in the headers has its request processed without one.\<close>

definition request_ok :: "http_request \<Rightarrow> bool" where
  "request_ok req \<longleftrightarrow> r_path req \<noteq> None \<and>
     (case r_body req of None \<Rightarrow> True
      | Some b \<Rightarrow> length b = nat (r_content_length req) + 1 \<and> 0 < r_content_length req \<and> r_content_length req \<le> 2147483640)"

definition whole_body :: "http_request \<Rightarrow> bool" where
  "whole_body req \<longleftrightarrow> (r_body req = None \<longrightarrow> r_content_length req = 0)"

definition length_known :: "http_request \<Rightarrow> bool" where
  "length_known req \<longleftrightarrow> has_attr req CONTENT_LENGTH \<or> r_content_length req = 0"

definition lines_ok :: "http_conn \<Rightarrow> bool" where
  "lines_ok c \<longleftrightarrow> length (h_line c) < LINE_BUF_SIZE \<and> list_all buffer_ok (h_headers c)"

definition body_ok :: "http_conn \<Rightarrow> bool" where
  "body_ok c \<longleftrightarrow> lines_ok c \<and> request_ok (h_req c) \<and> r_body (h_req c) \<noteq> None \<and>
     0 < r_content_length (h_req c) \<and> int (h_body_pos c) \<le> r_content_length (h_req c)"

definition http_conn_ok :: "http_conn \<Rightarrow> bool" where
  "http_conn_ok c \<longleftrightarrow> lines_ok c \<and>
     (case h_part c of
        PART_REQUEST \<Rightarrow> h_req c = new_request \<and> h_headers c = []
      | PART_HEADER \<Rightarrow> r_path (h_req c) \<noteq> None \<and> r_body (h_req c) = None \<and> length_known (h_req c)
      | PART_BODY \<Rightarrow> body_ok c \<and> int (h_body_pos c) < r_content_length (h_req c))"

text \<open>An iteration leaves the connection closed, or fit for the next one with less to receive.\<close>

definition iter_ok :: "nat \<Rightarrow> http_conn \<Rightarrow> bool" where
  "iter_ok n c \<longleftrightarrow> \<not> is_open (h_sock c) \<or> http_conn_ok c \<and> rx_size (h_sock c) < n"

lemmas conn_defs = http_conn_ok_def lines_ok_def body_ok_def request_ok_def iter_ok_def

lemma closed_iter_ok [simp]: "iter_ok n (http_close c)" "iter_ok n (reject t c)"
  by (simp_all add: iter_ok_def http_close_def reject_def closesocket_def)

lemma http_close_simps [simp]: "\<not> is_open (h_sock (http_close c))" "\<not> is_open (h_sock (reject t c))"
  by (simp_all add: http_close_def reject_def closesocket_def)

lemma request_ok_headers [simp]: "request_ok (req\<lparr>r_headers := h\<rparr>) = request_ok req" "whole_body (req\<lparr>r_headers := h\<rparr>) = whole_body req"
  by (simp_all add: request_ok_def whole_body_def cong: option.case_cong)

lemma new_conn_ok: "http_conn_ok (new_conn s)"
  by (simp add: conn_defs new_conn_def LINE_BUF_SIZE_def)

lemma keep_alive_ok: "lines_ok c \<Longrightarrow> rx_size (h_sock c) < n \<Longrightarrow> iter_ok n (keep_alive c)"
  by (simp add: conn_defs keep_alive_def clear_http_request_def)

subsection \<open>Header buffers stay within their size\<close>

lemma header_space_ge: "0 < k \<Longrightarrow> l < header_space l k"
  by (induction l k rule: header_space.induct) (subst header_space.simps, auto)

lemma put_buffer_ok:
  assumes "list_all buffer_ok bs" "bs \<noteq> []" "length s \<le> room bs"
  shows "list_all buffer_ok (put_buffer s bs)"
proof -
  obtain ys b where "bs = ys @ [b]"
    using assms(2) by (cases bs rule: rev_cases) auto
  with assms show ?thesis
    by (auto simp: put_buffer_def room_def buffer_ok_def)
qed

lemma alloc_buffer_ok: "alloc_buffer mok n bs = Some bs' \<Longrightarrow> list_all buffer_ok bs \<Longrightarrow>
    list_all buffer_ok bs' \<and> bs' \<noteq> [] \<and> room bs' = n"
  by (auto simp: alloc_buffer_def buffer_ok_def room_def split: if_splits)

lemma put_buffer_not_Nil [simp]: "put_buffer s bs \<noteq> []"
  by (simp add: put_buffer_def)

lemma store_header_ok:
  assumes "list_all buffer_ok hs"
  shows "list_all buffer_ok (store_header mok bol hs)"
proof -
  define h0 where "h0 = (if hs = [] then (case alloc_buffer mok 1024 [] of None \<Rightarrow> [] | Some hs \<Rightarrow> hs) else hs)"
  have h0: "list_all buffer_ok h0"
    using assms by (auto simp: h0_def split: option.split dest: alloc_buffer_ok)
  let ?fits = "room h0" and ?l = "length bol"
  let ?h1 = "put_buffer (take ?fits bol) h0" and ?n = "header_space (?l + 1 - ?fits) 2048"
  have big: "list_all buffer_ok (case alloc_buffer mok ?n ?h1 of None \<Rightarrow> ?h1 | Some hs \<Rightarrow> put_buffer (drop ?fits bol @ [lf]) hs)"
    if "h0 \<noteq> []" "?fits < ?l + 1"
  proof -
    have h1: "list_all buffer_ok ?h1"
      using h0 that by (intro put_buffer_ok) auto
    moreover have "list_all buffer_ok (put_buffer (drop ?fits bol @ [lf]) h2)" if a: "alloc_buffer mok ?n ?h1 = Some h2" for h2
      using alloc_buffer_ok [OF a h1] header_space_ge [of 2048 "?l + 1 - ?fits"]
      by (intro put_buffer_ok) (auto simp: le_simps)
    ultimately show ?thesis
      by (auto split: option.split)
  qed
  have small: "list_all buffer_ok (put_buffer (bol @ [lf]) h0)" if "h0 \<noteq> []" "\<not> ?fits < ?l + 1"
    using h0 that by (intro put_buffer_ok) auto
  show ?thesis
    using h0 big small
    unfolding store_header_def Let_def h0_def [symmetric] by simp
qed

subsection \<open>Lines\<close>

lemma set_header_frame [simp]:
  "r_path (set_header mok k v req) = r_path req" "r_body (set_header mok k v req) = r_body req"
  by (simp_all add: set_header_def add_attr_def Let_def)

lemma header_line_frame [simp]:
  "h_sock (header_line mok bol c) = h_sock c" "h_line (header_line mok bol c) = h_line c"
  "h_part (header_line mok bol c) = h_part c"
  "h_headers (header_line mok bol c) = store_header mok bol (h_headers c)"
  by (simp_all add: header_line_def Let_def)

lemma has_attr_add: "has_attr (add_attr g req) f \<longleftrightarrow> has_attr req f \<or> and g f \<noteq> 0"
proof -
  have "and (or (r_attr req) g) f = or (and (r_attr req) f) (and g f)"
    by (rule bit_eqI) (auto simp: bit_and_iff bit_or_iff)
  then show ?thesis
    by (simp add: has_attr_def add_attr_def or_eq_0_iff)
qed

lemma length_known_simps [simp]:
  "length_known req \<Longrightarrow> length_known (add_attr f req)"
  "length_known ((add_attr CONTENT_LENGTH req)\<lparr>r_content_length := n\<rparr>)"
  "length_known (req\<lparr>r_content_type := t\<rparr>) = length_known req" "length_known (req\<lparr>r_ws_key := t\<rparr>) = length_known req"
  "length_known (req\<lparr>r_ws_protocol := t\<rparr>) = length_known req" "length_known (req\<lparr>r_ws_version := t\<rparr>) = length_known req"
proof -
  have "has_attr (req\<lparr>r_content_length := n\<rparr>) f = has_attr req f" for req n f
    by (simp add: has_attr_def)
  then show "length_known ((add_attr CONTENT_LENGTH req)\<lparr>r_content_length := n\<rparr>)"
    by (simp add: length_known_def has_attr_add) (simp add: CONTENT_LENGTH_def)
  have "r_content_length (add_attr f req) = r_content_length req"
    by (simp add: add_attr_def)
  then show "length_known req \<Longrightarrow> length_known (add_attr f req)"
    by (auto simp: length_known_def has_attr_add)
qed (simp_all add: length_known_def has_attr_def)

lemma set_header_length: "length_known req \<Longrightarrow> length_known (set_header mok k v req)"
  by (simp add: set_header_def Let_def)

lemma header_line_ok:
  assumes "http_conn_ok c" "h_part c = PART_HEADER"
  shows "http_conn_ok (header_line mok bol c)"
proof -
  have "r_path (h_req (header_line mok bol c)) = r_path (h_req c)" "r_body (h_req (header_line mok bol c)) = r_body (h_req c)"
    "length_known (h_req c) \<Longrightarrow> length_known (h_req (header_line mok bol c))"
    by (simp_all add: header_line_def Let_def set_header_length)
  with assms show ?thesis
    by (simp add: http_conn_ok_def lines_ok_def store_header_ok)
qed

lemma request_line_ok:
  assumes c: "http_conn_ok c" "h_part c = PART_REQUEST" and m: "\<And>n. mok n"
  shows "run_ok bad (\<lambda>(go, c'). if go then http_conn_ok c' \<and> h_part c' = PART_HEADER \<and> h_sock c' = h_sock c \<and> h_line c' = h_line c
      else \<not> is_open (h_sock c')) (request_line mok bol c)"
proof -
  let ?rll = "length bol" and ?sp = "length (takeWhile (\<lambda>x. x \<noteq> CHR '' '') bol)"
  let ?h0 = "[\<lparr>b_size = 1024, b_data = []\<rparr>]"
  let ?h1 = "put_buffer (''Request-Method: '' @ take ?sp bol @ [lf]) ?h0"
  have h: "h_req c = new_request" "h_headers c = []" "length (h_line c) < LINE_BUF_SIZE"
    using c by (simp_all add: http_conn_ok_def lines_ok_def)
  have b0: "list_all buffer_ok ?h0"
    by (simp add: buffer_ok_def)
  have b1: "list_all buffer_ok ?h1" if "18 + ?sp \<le> room ?h0"
    using that by (intro put_buffer_ok b0) (auto simp: length_takeWhile_le min_def)
  have a: "alloc_buffer mok 1024 [] = Some ?h0"
    using m by (simp add: alloc_buffer_def)
  have body: "r_body (new_request\<lparr>r_method := x\<rparr>) = None" "r_body (add_attr f (new_request)) = None" for x f
    by (simp_all add: new_request_def add_attr_def)
  show ?thesis
    unfolding request_line_def Let_def h a
    using b0 b1 h(3) m
    by (auto simp: http_conn_ok_def lines_ok_def new_request_def add_attr_def http_close_def closesocket_def length_known_def)
qed

subsection \<open>The contract of a handler\<close>

text \<open>On a request that is fit to be served, and in a state that satisfies \<open>inv\<close>, the handler ends
  in an accepted fault or keeps \<open>inv\<close>, for a request that was cut off only \<open>weak\<close>; of the connection
  it changes only the request and what has been sent.\<close>

locale http_handler =
  fixes process :: "'w handler" and inv weak :: "'w \<Rightarrow> bool" and bad :: "fault \<Rightarrow> bool"
  assumes serves: "request_ok (h_req c) \<Longrightarrow> inv w \<Longrightarrow>
    run_ok bad (\<lambda>(c', w'). (if whole_body (h_req c) then inv w' else weak w') \<and> h_part c' = h_part c \<and> h_line c' = h_line c \<and>
      h_headers c' = h_headers c \<and> same_input (h_sock c) (h_sock c')) (process c w)"
    and inv_weak: "inv w \<Longrightarrow> weak w"
begin

text \<open>The fault that the server adds to those of the handler is the one of \<open>collect_buffers\<close>.\<close>

definition server_fault :: "fault \<Rightarrow> bool" where
  "server_fault f \<longleftrightarrow> bad f \<or> f = Undefined OutOfBounds"

lemma copy_buffers_fault: "run_ok server_fault (\<lambda>_. True) (copy_buffers cap dst bs)"
  by (induction bs arbitrary: dst) (simp_all add: server_fault_def)

lemma process_request_ok:
  assumes "request_ok (h_req c)" "inv w"
  shows "run_ok server_fault (\<lambda>(c', w'). (if whole_body (h_req c) then inv w' else weak w') \<and> h_line c' = h_line c \<and>
    h_headers c' = h_headers c \<and> same_input (h_sock c) (h_sock c')) (process_request mok (Some process) c w)"
proof -
  let ?Q = "\<lambda>c (c', w'). (if whole_body (h_req c) then inv w' else weak w') \<and> h_line c' = h_line c \<and>
    h_headers c' = h_headers c \<and> same_input (h_sock c) (h_sock c')"
  have col: "run_ok server_fault (\<lambda>_. True) (collect_buffers mok bs)" for bs
    unfolding collect_buffers_def Let_def
    by (auto intro: run_ok_rbind [OF copy_buffers_fault])
  have serve: "run_ok server_fault (?Q c) (process c w)" if "request_ok (h_req c)" for c
    by (rule run_ok_mono [OF serves [OF that assms(2)]]) (auto simp: server_fault_def)
  let ?col = "if h_headers c \<noteq> [] then rbind (collect_buffers mok (h_headers c)) (\<lambda>h. Inr (c\<lparr>h_req := (h_req c)\<lparr>r_headers := h\<rparr>\<rparr>))
    else Inr c"
  have "run_ok server_fault (\<lambda>c'. request_ok (h_req c') \<and> whole_body (h_req c') = whole_body (h_req c) \<and> h_line c' = h_line c \<and>
      h_headers c' = h_headers c \<and> h_sock c' = h_sock c) ?col"
    using assms by (auto intro!: run_ok_rbind [OF col])
  then have "run_ok server_fault (?Q c) (rbind ?col (\<lambda>c. process c w))"
    by (rule run_ok_rbind) (rule run_ok_mono [OF serve], auto split: if_split_asm)
  then show ?thesis
    unfolding process_request_def by (auto intro: run_ok_rbind)
qed

lemma rx_same [simp]: "same_input s s' \<Longrightarrow> rx_size s' = rx_size s"
  by (simp add: same_input_def rx_size_def)

text \<open>Processing a request, followed by closing the connection or keeping it alive.\<close>

lemma finish_any:
  assumes "request_ok (h_req c)" "inv w" "lines_ok c" "rx_size (h_sock c) < n"
    and fin: "\<And>c'. lines_ok c' \<Longrightarrow> rx_size (h_sock c') < n \<Longrightarrow> iter_ok n (f c')"
  shows "run_ok server_fault (\<lambda>(c', w'). (if whole_body (h_req c) then inv w' else weak w') \<and> iter_ok n c')
    (rbind (process_request mok (Some process) c w) (\<lambda>(c, w). Inr (f c, w)))"
  using assms(3,4) by (intro run_ok_rbind [OF process_request_ok [OF assms(1,2)]]) (auto simp: lines_ok_def fin)

lemma finish_ok:
  assumes "request_ok (h_req c)" "inv w" "lines_ok c" "rx_size (h_sock c) < n" "whole_body (h_req c)"
    and fin: "\<And>c'. lines_ok c' \<Longrightarrow> rx_size (h_sock c') < n \<Longrightarrow> iter_ok n (f c')"
  shows "run_ok server_fault (\<lambda>(c', w'). inv w' \<and> iter_ok n c')
    (rbind (process_request mok (Some process) c w) (\<lambda>(c, w). Inr (f c, w)))"
  using finish_any [OF assms(1-4), of f mok] fin assms(5) by simp

text \<open>The connection is closed after the processing.\<close>

lemma finish_close:
  assumes "request_ok (h_req c)" "inv w" "lines_ok c"
  shows "run_ok server_fault (\<lambda>(c', w'). weak w' \<and> \<not> is_open (h_sock c'))
    (rbind (process_request mok (Some process) c w) (\<lambda>(c, w). Inr (http_close c, w)))"
  by (rule run_ok_rbind [OF process_request_ok [OF assms(1,2)]]) (auto intro: inv_weak split: if_split_asm)

lemma headers_done_ok:
  assumes c: "http_conn_ok c" "h_part c \<noteq> PART_BODY" "inv w" "rx_size (h_sock c) < n"
    and rest: "length rest < LINE_BUF_SIZE" 
  shows "run_ok server_fault (\<lambda>(go, c', w'). inv w' \<and>
      (if go then h_part c' = PART_BODY \<and> body_ok c' \<and> rx_size (h_sock c') < n else iter_ok n c'))
    (headers_done mok (Some process) rest c w)"
proof (cases "\<not> has_attr (h_req c) HTTP_1_0 \<and> \<not> has_attr (h_req c) HOST_HEADER")
  case True
  with c(3) show ?thesis
    by (simp add: headers_done_def Let_def)
next
  case False
  have part: "h_part c = PART_HEADER"
    using False c by (cases "h_part c") (auto simp: http_conn_ok_def new_request_def has_attr_def)
  let ?cl = "r_content_length (h_req c)" and ?len = "has_attr (h_req c) CONTENT_LENGTH"
  show ?thesis
  proof (cases "?len \<and> ?cl \<noteq> 0 \<and> (?cl < 0 \<or> 2147483640 < ?cl \<or> \<not> mok (nat ?cl + 1))")
    case True
    with c(3) False show ?thesis
      by (simp add: headers_done_def Let_def)
  next
    case fits: False
    let ?c1 = "(if ?len \<and> ?cl \<noteq> 0 then c\<lparr>h_req := (h_req c)\<lparr>r_body := Some (uninit (nat ?cl + 1))\<rparr>\<rparr> else c)
      \<lparr>h_body_pos := 0, h_part := PART_BODY, h_line := rest\<rparr>"
    have ok: "request_ok (h_req ?c1)" "lines_ok ?c1" "rx_size (h_sock ?c1) < n"
      using c part rest fits by (auto simp: http_conn_ok_def request_ok_def lines_ok_def)
    have whole: "whole_body (h_req ?c1)"
      using c(1) part by (auto simp: http_conn_ok_def whole_body_def length_known_def)
    show ?thesis
    proof (cases "r_method (h_req c) = METHOD_GET \<or> r_method (h_req c) = METHOD_HEAD \<or> \<not> ?len \<or> ?cl = 0")
      case True
      have "run_ok server_fault (\<lambda>(c', w'). inv w' \<and> iter_ok n c')
        (rbind (process_request mok (Some process) ?c1 w) (\<lambda>(c, w).
          Inr (if has_attr (h_req c) CONNECTION_CLOSE then http_close c else keep_alive c, w)))"
        by (rule finish_ok [OF ok(1) c(3) ok(2,3) whole]) (simp add: keep_alive_ok)
      then have "run_ok server_fault (\<lambda>(go, c', w'). inv w' \<and> (if go then h_part c' = PART_BODY \<and> body_ok c' \<and> rx_size (h_sock c') < n else iter_ok n c'))
        (rbind (process_request mok (Some process) ?c1 w) (\<lambda>(c, w).
          Inr (False, if has_attr (h_req c) CONNECTION_CLOSE then http_close c else keep_alive c, w)))"
        by (cases "process_request mok (Some process) ?c1 w") auto
      then show ?thesis
        using False fits True c(3)
        unfolding headers_done_def Let_def by auto
    next
      case body: False
      then have "?len" "0 < ?cl"
        using fits by auto
      then show ?thesis
        using body ok c(3) False fits part
        unfolding headers_done_def Let_def
        by (auto simp: body_ok_def lines_ok_def request_ok_def)
    qed
  qed
qed

text \<open>The line loop: it falls through with the headers unfinished or with a body to receive.\<close>

definition lines_post :: "nat \<Rightarrow> bool \<times> http_conn \<times> 'w \<Rightarrow> bool" where
  "lines_post n = (\<lambda>(go, c, w). inv w \<and>
     (if \<not> go then iter_ok n c
      else rx_size (h_sock c) < n \<and> (if h_part c = PART_BODY then body_ok c else http_conn_ok c)))"

text \<open>What one pass of the loop over the lines does: at the end of the input, at an empty line and at a
  line of text.\<close>

lemma parse_lines_eos: "is_eos s \<Longrightarrow> parse_lines mok p s c w = Inr (True, c, w)"
  by (subst parse_lines.simps) simp

lemma parse_lines_blank:
  "\<not> is_eos s \<Longrightarrow> hd s = lf \<or> take 2 s = crlf \<Longrightarrow>
    parse_lines mok p s c w = headers_done mok p (drop (if hd s = cr then 2 else 1) s) c w"
  by (subst parse_lines.simps) simp

lemma parse_lines_text:
  assumes "\<not> is_eos s" "\<not> (hd s = lf \<or> take 2 s = crlf)"
  shows "is_eos (drop (length (line_of s)) s) \<Longrightarrow> length (h_line c) < LINE_BUF_SIZE \<Longrightarrow>
      parse_lines mok p s c w = Inr (False, (if length s = length (h_line c) then c else c\<lparr>h_line := s\<rparr>), w)"
    and "\<not> is_eos (drop (length (line_of s)) s) \<Longrightarrow> h_part c = PART_REQUEST \<Longrightarrow>
      parse_lines mok p s c w = rbind (request_line mok (line_of s) c) (\<lambda>(go, c).
        if go then parse_lines mok p (skip_eol (drop (length (line_of s)) s)) c w else Inr (False, c, w))"
    and "\<not> is_eos (drop (length (line_of s)) s) \<Longrightarrow> h_part c = PART_HEADER \<Longrightarrow>
      parse_lines mok p s c w =
        parse_lines mok p (skip_eol (drop (length (line_of s)) s)) (header_line mok (line_of s) c) w"
  using assms by (simp_all add: parse_lines.simps [of mok p s] Let_def)

lemma parse_lines_ok:
  "http_conn_ok c \<Longrightarrow> h_part c \<noteq> PART_BODY \<Longrightarrow> inv w \<Longrightarrow> rx_size (h_sock c) < n \<Longrightarrow>
    length s \<le> length (h_line c) \<Longrightarrow> (\<And>n. mok n) \<Longrightarrow>
    run_ok server_fault (lines_post n) (parse_lines mok (Some process) s c w)"
proof (induction mok "Some process" s c w rule: parse_lines.induct)
  case (1 mok s c w)
  note prems = "1.prems"
  let ?r = "drop (length (line_of s)) s"
  have len: "length (h_line c) < LINE_BUF_SIZE"
    using prems(1) by (simp add: http_conn_ok_def lines_ok_def)
  consider (eos) "is_eos s" | (blank) "\<not> is_eos s" "hd s = lf \<or> take 2 s = crlf"
    | (part) "\<not> is_eos s" "\<not> (hd s = lf \<or> take 2 s = crlf)" "is_eos ?r"
    | (req) "\<not> is_eos s" "\<not> (hd s = lf \<or> take 2 s = crlf)" "\<not> is_eos ?r" "h_part c = PART_REQUEST"
    | (hdr) "\<not> is_eos s" "\<not> (hd s = lf \<or> take 2 s = crlf)" "\<not> is_eos ?r" "h_part c = PART_HEADER"
    using prems(2) by (cases "h_part c") auto
  then show ?case
  proof cases
    case eos
    then show ?thesis
      using prems by (simp add: parse_lines_eos lines_post_def)
  next
    case blank
    then show ?thesis
      unfolding parse_lines_blank [OF blank] using prems(5) len
      by (intro run_ok_mono [OF headers_done_ok [OF prems(1-4)]]) (auto simp: lines_post_def split: if_split_asm)
  next
    case part
    then show ?thesis
      using prems len by (auto simp: parse_lines_text(1) [OF part] lines_post_def conn_defs split: part.split)
  next
    case req
    have less: "length (skip_eol ?r) \<le> length (h_line c)"
      using line_of_rest [OF req(3)] prems(5) by simp
    have go: "run_ok server_fault (lines_post n) (parse_lines mok (Some process) (skip_eol ?r) b w)"
      if "request_line mok (line_of s) c = Inr (True, b)" "http_conn_ok b" "h_part b = PART_HEADER"
        "h_sock b = h_sock c" "h_line b = h_line c" for b
      using "1.hyps"(1) [OF req(1,2) refl refl req(3,4) that(1) refl TrueI] that(2-5) prems less by simp
    show ?thesis
      unfolding parse_lines_text(2) [OF req]
      by (rule run_ok_rbind_eq [OF request_line_ok [OF prems(1) req(4) prems(6)]])
        (use go prems(3) in \<open>auto simp: lines_post_def iter_ok_def split: if_split_asm\<close>)
  next
    case hdr
    then have "length (skip_eol ?r) \<le> length (h_line c)"
      using line_of_rest [OF hdr(3)] prems(5) by simp
    then show ?thesis
      unfolding parse_lines_text(3) [OF hdr]
      using "1.hyps"(2) [OF hdr(1,2) refl refl hdr(3)] hdr(4) prems by (simp add: header_line_ok)
  qed
qed

definition input_post :: "nat \<Rightarrow> http_conn \<times> 'w \<Rightarrow> bool" where
  "input_post n = (\<lambda>(c, w). weak w \<and> (is_open (h_sock c) \<longrightarrow> inv w) \<and> iter_ok n c)"

lemma body_done_ok:
  assumes "body_ok c" "inv w" "rx_size (h_sock c) < n"
  shows "run_ok server_fault (input_post n) (body_done mok (Some process) c w)"
proof -
  have "run_ok server_fault (\<lambda>(c', w'). inv w' \<and> iter_ok n c')
    (rbind (process_request mok (Some process) c w) (\<lambda>(c, w).
      Inr (if has_attr (h_req c) CONNECTION_CLOSE \<or> h_line c \<noteq> [] then http_close c else (keep_alive c)\<lparr>h_line := []\<rparr>, w)))"
  proof (rule finish_ok)
    fix c' assume "lines_ok c'" "rx_size (h_sock c') < n"
    then show "iter_ok n (if has_attr (h_req c') CONNECTION_CLOSE \<or> h_line c' \<noteq> [] then http_close c' else (keep_alive c')\<lparr>h_line := []\<rparr>)"
      using keep_alive_ok [of c' n] by (simp add: conn_defs keep_alive_def)
  qed (use assms in \<open>auto simp: body_ok_def whole_body_def\<close>)
  then show ?thesis
    unfolding body_done_def by (rule run_ok_mono) (auto simp: input_post_def inv_weak)
qed

text \<open>\<open>strict\<close> says that the body is not complete yet, as at the start of an iteration; then
  something is received.\<close>

lemma body_input_ok:
  assumes c: "body_ok c" "h_part c = PART_BODY" "inv w" "rx_size (h_sock c) \<le> n"
    and strict: "int (h_body_pos c) < r_content_length (h_req c) \<or> rx_size (h_sock c) < n"
  shows "run_ok server_fault (input_post n) (body_input mok (Some process) c w)"
proof -
  let ?cl = "r_content_length (h_req c)"
  obtain b where b: "r_body (h_req c) = Some b" "length b = nat ?cl + 1"
    using c(1) by (auto simp: body_ok_def request_ok_def)
  show ?thesis
  proof (cases "int (h_body_pos c) < ?cl")
    case False
    then have eq: "int (h_body_pos c) = ?cl"
      using c(1) by (simp add: body_ok_def)
    have "body_input mok (Some process) c w = body_done mok (Some process) c w"
      by (simp add: body_input_def b(1) eq Let_def)
    with body_done_ok [OF c(1,3)] strict eq show ?thesis
      by simp
  next
    case True
    obtain r bs k where r: "sock_recv (nat ?cl - h_body_pos c) (h_sock c) = (r, bs, k)"
      by (cases "sock_recv (nat ?cl - h_body_pos c) (h_sock c)")
    let ?c1 = "c\<lparr>h_sock := k, h_line := []\<rparr>"
    have lines: "lines_ok c" "request_ok (h_req c)" "0 < ?cl"
      using c(1) by (auto simp: body_ok_def)
    have lines1: "lines_ok ?c1"
      using lines(1) by (simp add: lines_ok_def LINE_BUF_SIZE_def)
    show ?thesis
    proof (cases "r \<le> 0")
      case neg: True
      have "run_ok server_fault (\<lambda>(c', w'). weak w' \<and> \<not> is_open (h_sock c'))
        (rbind (process_request mok (Some process) ?c1 w) (\<lambda>(c, w). Inr (http_close c, w)))"
        using lines c(3) lines1 by (intro finish_close) simp_all
      then have "run_ok server_fault (input_post n)
        (rbind (process_request mok (Some process) ?c1 w) (\<lambda>(c, w). Inr (http_close c, w)))"
        by (rule run_ok_mono) (auto simp: input_post_def iter_ok_def)
      then show ?thesis
        using neg True r b(1) c(3) inv_weak by (auto simp: body_input_def input_post_def Let_def)
    next
      case pos: False
      let ?c2 = "?c1\<lparr>h_req := (h_req c)\<lparr>r_body := Some (overwrite (h_body_pos c) (map Some bs) b)\<rparr>,
        h_body_pos := h_body_pos c + nat r\<rparr>"
      have n: "int (length bs) = r" "length bs \<le> nat ?cl - h_body_pos c" "rx_size k < n"
        using sock_recv_len [OF r] sock_recv_size [OF r] pos c(4) by auto
      have ok2: "body_ok ?c2"
        using lines lines1 n b True by (auto simp: body_ok_def lines_ok_def request_ok_def)
      have "body_input mok (Some process) c w = (if int (h_body_pos ?c2) = ?cl then body_done mok (Some process) ?c2 w else Inr (?c2, w))"
        using pos True r b(1) by (simp add: body_input_def Let_def)
      moreover have "run_ok server_fault (input_post n) (body_done mok (Some process) ?c2 w)"
        using ok2 c(3) n(3) by (intro body_done_ok) simp_all
      moreover have "input_post n (?c2, w)" if "int (h_body_pos ?c2) \<noteq> ?cl"
        using ok2 c(2,3) n(3) that inv_weak by (auto simp: input_post_def iter_ok_def http_conn_ok_def body_ok_def)
      ultimately show ?thesis
        by simp
    qed
  qed
qed

theorem http_input_iteration_ok:
  assumes c: "http_conn_ok c" "is_open (h_sock c)" "inv w" and m: "\<And>n. mok n"
  shows "run_ok server_fault (input_post (rx_size (h_sock c))) (http_input_iteration mok (Some process) c w)"
proof (cases "h_part c = PART_BODY")
  case True
  then have "http_input_iteration mok (Some process) c w = body_input mok (Some process) c w"
    by (simp add: http_input_iteration_def)
  with body_input_ok [OF _ True c(3)] c(1) True show ?thesis
    by (simp add: http_conn_ok_def)
next
  case part: False
  let ?cap = "LINE_BUF_SIZE - length (h_line c) - 1" and ?n = "rx_size (h_sock c)"
  obtain r bs k where r: "sock_recv ?cap (h_sock c) = (r, bs, k)"
    by (cases "sock_recv ?cap (h_sock c)")
  let ?c1 = "c\<lparr>h_sock := k\<rparr>"
  have lines1: "lines_ok ?c1" "length (h_line c) < LINE_BUF_SIZE"
    using c(1) by (auto simp: http_conn_ok_def lines_ok_def)
  show ?thesis
  proof (cases "r \<le> 0")
    case neg: True
    have "run_ok server_fault (input_post ?n) (rbind (process_request mok (Some process) ?c1 w) (\<lambda>(c, w). Inr (http_close c, w)))"
      if "r_path (h_req c) \<noteq> None"
    proof -
      have "request_ok (h_req ?c1)"
        using that part c(1) by (cases "h_part c") (auto simp: http_conn_ok_def request_ok_def new_request_def)
      then have "run_ok server_fault (\<lambda>(c', w'). weak w' \<and> \<not> is_open (h_sock c'))
        (rbind (process_request mok (Some process) ?c1 w) (\<lambda>(c, w). Inr (http_close c, w)))"
        using c(3) lines1 by (intro finish_close) simp_all
      then show ?thesis
        by (rule run_ok_mono) (auto simp: input_post_def iter_ok_def)
    qed
    then show ?thesis
      using neg part r c(3) inv_weak by (auto simp: http_input_iteration_def input_post_def Let_def)
  next
    case pos: False
    let ?c2 = "?c1\<lparr>h_line := h_line c @ bs\<rparr>"
    have n: "length bs \<le> ?cap" "rx_size k < ?n"
      using sock_recv_len [OF r] sock_recv_size [OF r] pos by auto
    have ok2: "http_conn_ok ?c2"
      using c(1) part n(1) lines1 by (cases "h_part c") (auto simp: http_conn_ok_def lines_ok_def)
    have "run_ok server_fault (lines_post ?n) (parse_lines mok (Some process) (h_line ?c2) ?c2 w)"
      using part c(3) n(2) m by (intro parse_lines_ok [OF ok2]) simp_all
    then have "run_ok server_fault (input_post ?n) (rbind (parse_lines mok (Some process) (h_line ?c2) ?c2 w) (\<lambda>(go, c, w).
              if \<not> go then Inr (c, w) else if h_part c < PART_BODY then Inr (c\<lparr>h_line := []\<rparr>, w)
              else body_input mok (Some process) c w))"
    proof (rule run_ok_rbind)
      fix x assume x: "lines_post ?n x"
      obtain go c' w' where "x = (go, c', w')"
        by (cases x)
      with x body_input_ok [of c' w' ?n mok] show "run_ok server_fault (input_post ?n) (case x of (go, c, w) \<Rightarrow>
              if \<not> go then Inr (c, w) else if h_part c < PART_BODY then Inr (c\<lparr>h_line := []\<rparr>, w)
              else body_input mok (Some process) c w)"
        by (auto simp: lines_post_def input_post_def iter_ok_def http_conn_ok_def lines_ok_def LINE_BUF_SIZE_def inv_weak split: part.splits)
    qed
    then show ?thesis
      using pos part r by (simp add: http_input_iteration_def Let_def)
  qed
qed

lemma input_loop_ok:
  assumes m: "\<And>n. mok n"
  shows "weak w \<Longrightarrow> is_open (h_sock c) \<longrightarrow> inv w \<Longrightarrow> \<not> is_open (h_sock c) \<or> http_conn_ok c \<Longrightarrow>
    rx_size (h_sock c) + 1 < fuel \<or> \<not> is_open (h_sock c) \<and> 0 < fuel \<Longrightarrow>
    run_ok server_fault (\<lambda>(c', w'). weak w' \<and> \<not> is_open (h_sock c')) (input_loop fuel mok (Some process) c w)"
proof (induction fuel arbitrary: c w)
  case (Suc fuel)
  show ?case
  proof (cases "is_open (h_sock c)")
    case True
    with Suc.prems have it: "run_ok server_fault (input_post (rx_size (h_sock c))) (http_input_iteration mok (Some process) c w)"
      by (intro http_input_iteration_ok m) auto
    have "run_ok server_fault (\<lambda>(c', w'). weak w' \<and> \<not> is_open (h_sock c'))
      (rbind (http_input_iteration mok (Some process) c w) (\<lambda>(c, w). input_loop fuel mok (Some process) c w))"
    proof (rule run_ok_rbind [OF it])
      fix x assume "input_post (rx_size (h_sock c)) x"
      moreover obtain c' w' where "x = (c', w')"
        by (cases x)
      ultimately show "run_ok server_fault (\<lambda>(c', w'). weak w' \<and> \<not> is_open (h_sock c')) (case x of (c, w) \<Rightarrow> input_loop fuel mok (Some process) c w)"
        using Suc.prems True by (auto simp: input_post_def iter_ok_def intro!: Suc.IH)
    qed
    with True show ?thesis
      by simp
  qed (use Suc.prems in auto)
qed simp

text \<open>A connection ends, closed, with the state of the handler intact, or in an accepted fault.\<close>

theorem http_connected_ok:
  assumes "inv w" "\<And>n. mok n"
  shows "run_ok server_fault (\<lambda>(r, s', w'). r = 0 \<and> weak w' \<and> \<not> is_open s') (http_connected mok (Some process) s w)"
proof -
  have "run_ok server_fault (\<lambda>(c', w'). weak w' \<and> \<not> is_open (h_sock c')) (input_loop (rx_size s + 2) mok (Some process) (new_conn s) w)"
    using assms by (intro input_loop_ok) (simp_all add: new_conn_ok inv_weak)
  then show ?thesis
    using assms(2)
    by (auto simp: http_connected_def simp del: input_loop.simps intro!: run_ok_rbind [of _ _ "input_loop _ _ _ _ _"])
qed

end

end
