(* ===== verification/HttpParse.thy ===== *)
theory HttpParse
  imports HttpIn
begin

text \<open>
  What the parser of src/http.c makes of well-formed messages: one line, all headers, a body in
  any number of packets. Also \<open>uri_decode\<close>, with an encoder as its reference.
\<close>

subsection \<open>Decoding URIs\<close>

text \<open>A hexadecimal digit, or zero: the code adds no bits for any other character. The second
  step of \<open>if (*s) s++\<close> does not pass the end of the string.\<close>

definition uri_digit :: "string \<Rightarrow> nat" where
  "uri_digit s =
     (if is_eos s then 0
      else if CHR ''0'' \<le> hd s \<and> hd s \<le> CHR ''9'' then of_char (hd s) - 48
      else if CHR ''a'' \<le> hd s \<and> hd s \<le> CHR ''f'' then of_char (hd s) - 97 + 10
      else if CHR ''A'' \<le> hd s \<and> hd s \<le> CHR ''F'' then of_char (hd s) - 65 + 10
      else 0)"

definition uri_next :: "string \<Rightarrow> string" where
  "uri_next s = (if is_eos s then s else tl s)"

lemma uri_next_length: "length (uri_next s) \<le> length s"
  by (simp add: uri_next_def)

text \<open>The decoder reads at \<open>s\<close> and writes at \<open>t\<close> of one buffer; \<open>t\<close> never gets ahead of \<open>s\<close>, so
  the writes do not disturb what is still to be read.\<close>

function uri_decode :: "string \<Rightarrow> string" where
  "uri_decode s =
     (if is_eos s then []
      else if hd s = CHR ''+'' then CHR '' '' # uri_decode (tl s)
      else if hd s = CHR ''%'' then
        (let s1 = tl s; s2 = uri_next s1 in
         char_of (16 * uri_digit s1 + uri_digit s2) # uri_decode (uri_next s2))
      else hd s # uri_decode (tl s))"
  by pat_completeness auto
termination
proof (relation "measure length")
  fix s x xa assume "\<not> is_eos s" "x = tl s" "xa = uri_next x"
  then show "(uri_next xa, s) \<in> measure length"
    using uri_next_length [of "uri_next (tl s)"] uri_next_length [of "tl s"] by (cases s) (auto simp: is_eos_def)
qed (auto simp: is_eos_def neq_Nil_conv)

declare uri_decode.simps [simp del]

lemma uri_decode_length: "length (uri_decode s) \<le> length s"
proof (induction s rule: uri_decode.induct)
  case (1 s)
  then show ?case
    using uri_next_length [of "uri_next (tl s)"] uri_next_length [of "tl s"]
    by (cases s; subst uri_decode.simps) (fastforce simp: Let_def is_eos_def)+
qed

text \<open>An encoder that keeps the characters of a class and writes the others as two digits.\<close>

definition uri_encode :: "(char \<Rightarrow> bool) \<Rightarrow> string \<Rightarrow> string" where
  "uri_encode keep s = concat (map (\<lambda>c.
     if keep c then [c] else if c = CHR '' '' then ''+''
     else CHR ''%'' # [hex ! (of_char c div 16), hex ! (of_char c mod 16)]) s)"

lemma uri_digit_hex: "d < 16 \<Longrightarrow> uri_digit (hex ! d # s) = d \<and> uri_next (hex ! d # s) = s"
proof -
  assume "d < 16"
  then have "d \<in> {0, 1, 2, 3, 4, 5, 6, 7, 8, 9, 10, 11, 12, 13, 14, 15}"
    by (auto simp: less_Suc_eq numeral_eq_Suc)
  then show ?thesis
    by (auto simp: hex_def uri_digit_def uri_next_def is_eos_def less_eq_char_def)
qed

text \<open>C26: Decoding is the inverse of encoding: for every text without NUL and every choice of the
  characters that are left as they are (the escape characters excepted), \<open>uri_decode\<close> returns
  the text that was encoded.\<close>

theorem uri_decode_encode:
  assumes "nul \<notin> set s" "\<not> keep (CHR ''+'')" "\<not> keep (CHR ''%'')"
  shows "uri_decode (uri_encode keep s) = s"
  using assms(1)
proof (induction s)
  case Nil
  then show ?case by (simp add: uri_encode_def uri_decode.simps [of "[]"] is_eos_def)
next
  case (Cons c s)
  then have IH: "uri_decode (uri_encode keep s) = s" and c: "c \<noteq> nul"
    by auto
  let ?n = "of_char c :: nat"
  have app: "uri_encode keep (c # s) = (if keep c then [c] else if c = CHR '' '' then ''+''
     else CHR ''%'' # [hex ! (?n div 16), hex ! (?n mod 16)]) @ uri_encode keep s"
    by (simp add: uri_encode_def)
  have dig: "?n div 16 < 16" "?n mod 16 < 16" "char_of (16 * (?n div 16) + ?n mod 16) = c"
    using nat_of_char_less_256 [of c] by (linarith, simp_all)
  consider (keep) "keep c" | (space) "\<not> keep c" "c = CHR '' ''" | (hex) "\<not> keep c" "c \<noteq> CHR '' ''"
    by blast
  then show ?case
  proof cases
    case keep
    then have "c \<noteq> CHR ''+''" "c \<noteq> CHR ''%''"
      using assms(2,3) by auto
    with keep c IH show ?thesis
      unfolding app by (simp add: uri_decode.simps [of "c # _"] is_eos_def)
  next
    case space
    with IH show ?thesis
      unfolding app by (simp add: uri_decode.simps [of "CHR ''+'' # _"] is_eos_def)
  next
    case hex
    with IH dig show ?thesis
      unfolding app by (simp add: uri_decode.simps [of "CHR ''%'' # _"] is_eos_def Let_def uri_digit_hex)
  qed
qed

theorem uri_decode_encode_witness:
  "uri_encode is_digit ''1 %b'' = ''1+%25%62'' \<and> uri_decode (uri_encode is_digit ''1 %b'') = ''1 %b''"
proof
  show "uri_decode (uri_encode is_digit ''1 %b'') = ''1 %b''"
    by (rule uri_decode_encode) (simp_all add: is_digit_def less_eq_char_def)
  show "uri_encode is_digit ''1 %b'' = ''1+%25%62''"
    by (simp add: uri_encode_def is_digit_def less_eq_char_def hex_def)
qed

subsection \<open>Well-formed messages\<close>

definition plain_line :: "string \<Rightarrow> bool" where
  "plain_line l \<longleftrightarrow> l \<noteq> [] \<and> list_all (\<lambda>x. x \<noteq> nul \<and> x \<noteq> cr \<and> x \<noteq> lf) l"

definition message :: "string \<Rightarrow> string list \<Rightarrow> string" where
  "message l hs = l @ crlf @ concat (map (\<lambda>h. h @ crlf) hs) @ crlf"

lemma line_of_plain: "plain_line l \<Longrightarrow> line_of (l @ cr # rest) = l"
  unfolding line_of_def by (rule takeWhile_stop) (simp_all add: plain_line_def)

lemma plain_head: "plain_line l \<Longrightarrow> \<not> is_eos (l @ rest) \<and> hd (l @ rest) \<noteq> lf \<and> hd (l @ rest) \<noteq> cr"
  by (cases l) (auto simp: plain_line_def is_eos_def)

text \<open>One line with its CR LF.\<close>

lemma http_parse_line:
  assumes "plain_line l"
  shows "parse_lines mok process (l @ cr # lf # rest) c w =
    (if h_part c = PART_REQUEST then
       rbind (request_line mok l c) (\<lambda>(go, c). if go then parse_lines mok process rest c w else Inr (False, c, w))
     else if h_part c = PART_HEADER then parse_lines mok process rest (header_line mok l c) w
     else parse_lines mok process rest c w)"
proof -
  let ?s = "l @ cr # lf # rest"
  have "take 2 ?s \<noteq> crlf"
    using plain_head [OF assms, of "cr # lf # rest"] by (cases l) auto
  moreover have "\<not> is_eos ?s" "hd ?s \<noteq> lf"
    using plain_head [OF assms, of "cr # lf # rest"] by auto
  moreover have "line_of ?s = l" "drop (length l) ?s = cr # lf # rest"
    using line_of_plain [OF assms] by simp_all
  moreover have "\<not> is_eos (cr # lf # rest)" "skip_eol (cr # lf # rest) = rest"
    by (simp_all add: is_eos_def skip_eol_def)
  ultimately show ?thesis
    by (subst parse_lines.simps) (simp cong: if_cong)
qed

lemma parse_blank: "parse_lines mok process (cr # lf # rest) c w = headers_done mok process rest c w"
  by (subst parse_lines.simps) (simp add: is_eos_def)

lemma parse_headers:
  "list_all plain_line hs \<Longrightarrow> h_part c = PART_HEADER \<Longrightarrow>
    parse_lines mok process (concat (map (\<lambda>h. h @ crlf) hs) @ crlf @ rest) c w =
    headers_done mok process rest (foldl (\<lambda>c h. header_line mok h c) c hs) w"
proof (induction hs arbitrary: c)
  case (Cons h hs)
  then have "h_part (header_line mok h c) = PART_HEADER"
    by (simp add: header_line_def Let_def)
  with Cons show ?case
    by (simp add: http_parse_line)
qed (simp add: parse_blank)

lemma parse_message:
  assumes "plain_line l" "list_all plain_line hs" "h_part c = PART_REQUEST"
    "request_line mok l c = Inr (True, c1)" "h_part c1 = PART_HEADER"
  shows "parse_lines mok process (message l hs @ rest) c w =
    headers_done mok process rest (foldl (\<lambda>c h. header_line mok h c) c1 hs) w"
  using assms parse_headers [OF assms(2,5), of mok process rest w] by (simp add: message_def http_parse_line)

subsection \<open>The usual request\<close>

primrec method_name :: "http_method \<Rightarrow> string" where
  "method_name METHOD_GET = ''GET''"
| "method_name METHOD_PUT = ''PUT''"
| "method_name METHOD_POST = ''POST''"
| "method_name METHOD_HEAD = ''HEAD''"
| "method_name METHOD_DELETE = ''DELETE''"
| "method_name METHOD_OTHER = ''OTHER''"
| "method_name METHOD_NONE = []"

definition known :: "http_method \<Rightarrow> bool" where
  "known m \<longleftrightarrow> m \<in> {METHOD_GET, METHOD_PUT, METHOD_POST, METHOD_HEAD, METHOD_DELETE}"

definition start_line :: "http_method \<Rightarrow> string \<Rightarrow> string" where
  "start_line m path = method_name m @ '' '' @ path @ '' HTTP/1.1''"

definition std_req :: "http_method \<Rightarrow> string \<Rightarrow> 32 word \<Rightarrow> int \<Rightarrow> http_request" where
  "std_req m path a cl = new_request\<lparr>r_path := Some path, r_method := m, r_attr := a, r_content_length := cl\<rparr>"

definition hdr_buf :: "string \<Rightarrow> buffer" where
  "hdr_buf s = \<lparr>b_size = 1024, b_data = s\<rparr>"

definition std_conn :: "sock \<Rightarrow> http_request \<Rightarrow> string \<Rightarrow> string \<Rightarrow> http_conn" where
  "std_conn s req line hdrs = \<lparr>h_sock = s, h_req = req, h_part = PART_HEADER, h_line = line, h_body_pos = 0,
     h_headers = [hdr_buf hdrs]\<rparr>"

lemma drop_suffix: "s = xs @ ys \<Longrightarrow> length ys = n \<Longrightarrow> drop (length s - n) s = ys"
  by auto

lemma start_line_plain: "known m \<Longrightarrow> list_all (\<lambda>x. x \<noteq> nul \<and> x \<noteq> cr \<and> x \<noteq> lf) path \<Longrightarrow> plain_line (start_line m path)"
  by (auto simp: known_def start_line_def plain_line_def)

lemma request_line_std:
  assumes m: "known m" and p: "path \<noteq> []" "nul \<notin> set path" and mok: "\<And>n. mok n"
  shows "request_line mok (start_line m path) ((new_conn s)\<lparr>h_line := line\<rparr>) =
    Inr (True, std_conn s (std_req m path 0 0) line (''Request-Method: '' @ method_name m @ [lf]))"
proof -
  let ?l = "start_line m path" and ?n = "length (method_name m)"
  have sp: "takeWhile (\<lambda>x. x \<noteq> CHR '' '') ?l = method_name m"
    using m by (auto simp: known_def start_line_def)
  have len: "length ?l = ?n + 1 + length path + 9" "3 \<le> ?n" "?n \<le> 6" "1 \<le> length path"
    using m p(1) by (auto simp: known_def start_line_def Suc_le_eq)
  have suf: "drop (length ?l - 9) ?l = '' HTTP/1.1''" "drop (length ?l - 3) ?l = ''1.1''"
    by (rule drop_suffix [of _ "method_name m @ '' '' @ path"] drop_suffix [of _ "method_name m @ '' '' @ path @ '' HTTP/''"];
        simp add: start_line_def)+
  have upd: "?l[length ?l - 9 := nul] = method_name m @ '' '' @ path @ nul # ''HTTP/1.1''"
    by (simp add: start_line_def list_update_append)
  have path: "cstr (drop (Suc ?n) (method_name m @ '' '' @ path @ nul # ''HTTP/1.1'')) = path"
    using p(2) by simp
  have meth: "method_of ?l METHOD_NONE = m" "m \<noteq> METHOD_NONE"
    using m by (auto simp: known_def start_line_def method_of_def)
  have tk: "take ?n ?l = method_name m"
    by (simp add: start_line_def)
  show ?thesis
    unfolding request_line_def Let_def sp suf upd path tk
    using len meth mok
    by (simp add: new_conn_def new_request_def alloc_buffer_def room_def put_buffer_def std_conn_def std_req_def hdr_buf_def)
qed

text \<open>Headers of the usual request, recorded in a first buffer with room.\<close>

definition host_line :: "string \<Rightarrow> string" where
  "host_line h = ''Host: '' @ h"

definition length_line :: "nat \<Rightarrow> string" where
  "length_line n = ''Content-Length: '' @ dec_string n"

lemma store_header_room: "length s + length l < 1024 \<Longrightarrow> l \<noteq> [] \<Longrightarrow>
    store_header mok l [hdr_buf s] = [hdr_buf (s @ l @ [lf])]"
proof -
  assume "length s + length l < 1024" "l \<noteq> []"
  moreover from this have "\<not> 1024 - length s < length l + 1"
    by linarith
  ultimately show ?thesis
    by (simp add: store_header_def room_def put_buffer_def hdr_buf_def Let_def)
qed

lemma lower_names: "map to_lower ''Host'' = ''host''" "map to_lower ''Content-Length'' = ''content-length''"
  by code_simp+

lemma host_header:
  assumes "length hdrs + length h + 6 < 1024"
  shows "header_line mok (host_line h) (std_conn s (std_req m path a cl) line hdrs) =
    std_conn s (std_req m path (or a HOST_HEADER) cl) line (hdrs @ host_line h @ [lf])"
proof -
  have st: "store_header mok (host_line h) [hdr_buf hdrs] = [hdr_buf (hdrs @ host_line h @ [lf])]"
    using assms by (intro store_header_room) (simp_all add: host_line_def)
  have k: "takeWhile (\<lambda>x. x \<noteq> CHR '':'') (host_line h) = ''Host''" "dropWhile (\<lambda>x. x \<noteq> CHR '':'') (host_line h) = '': '' @ h"
    by (simp_all add: host_line_def)
  show ?thesis
    unfolding header_line_def Let_def k lower_names
    by (simp add: std_conn_def st set_header_def is_blank_def add_attr_def std_req_def)
qed

lemma length_line_plain: "plain_line (length_line n)"
proof -
  have "list_all (\<lambda>x. x \<noteq> nul \<and> x \<noteq> cr \<and> x \<noteq> lf) (dec_string n)"
    using dec_string_digits [of n] by (auto simp: list_all_iff is_digit_def less_eq_char_def)
  then show ?thesis
    by (simp add: length_line_def plain_line_def)
qed

lemma length_header:
  assumes "length hdrs + length (length_line n) < 1024" "int n < 2 ^ 63"
  shows "header_line mok (length_line n) (std_conn s (std_req m path a cl) line hdrs) =
    std_conn s (std_req m path (or a CONTENT_LENGTH) (int n)) line (hdrs @ length_line n @ [lf])"
proof -
  obtain d ds where d: "dec_string n = d # ds" "is_digit d"
    using dec_string_digits [of n] dec_string_nonempty [of n] by (cases "dec_string n") auto
  have nb: "dropWhile is_blank (CHR '' '' # dec_string n) = dec_string n"
    using d by (auto simp: is_blank_def is_digit_def less_eq_char_def)
  have st: "store_header mok (length_line n) [hdr_buf hdrs] = [hdr_buf (hdrs @ length_line n @ [lf])]"
    using assms(1) by (intro store_header_room) (simp_all add: length_line_def)
  have k: "takeWhile (\<lambda>x. x \<noteq> CHR '':'') (length_line n) = ''Content-Length''"
      "dropWhile (\<lambda>x. x \<noteq> CHR '':'') (length_line n) = '': '' @ dec_string n"
    by (simp_all add: length_line_def)
  show ?thesis
    unfolding header_line_def Let_def k lower_names
    using nb by (simp add: std_conn_def st set_header_def add_attr_def
        std_req_def atol_dec_string [OF assms(2)])
qed

lemma std_req_sel [simp]:
  "r_path (std_req m path a cl) = Some path" "r_body (std_req m path a cl) = None"
  "r_method (std_req m path a cl) = m" "r_content_length (std_req m path a cl) = cl"
  by (simp_all add: std_req_def new_request_def)

lemma attr_bits [simp]:
  "has_attr (std_req m path (or HOST_HEADER CONTENT_LENGTH) cl) CONTENT_LENGTH"
  "has_attr (std_req m path (or HOST_HEADER CONTENT_LENGTH) cl) HOST_HEADER"
  "has_attr (std_req m path HOST_HEADER cl) HOST_HEADER"
  "\<not> has_attr (std_req m path HOST_HEADER cl) CONTENT_LENGTH"
  by (simp_all add: has_attr_def std_req_def attr_defs)

text \<open>The connection as the handler gets it, and what becomes of it afterwards.\<close>

definition ready :: "sock \<Rightarrow> http_request \<Rightarrow> string \<Rightarrow> nat \<Rightarrow> http_conn" where
  "ready s req hdrs n = \<lparr>h_sock = s, h_req = req\<lparr>r_headers := Some (uninit (length hdrs))\<rparr>, h_part = PART_BODY,
     h_line = [], h_body_pos = n, h_headers = [hdr_buf hdrs]\<rparr>"

definition next_conn :: "http_conn \<Rightarrow> http_conn" where
  "next_conn c = (let c = c\<lparr>h_req := fin_request (h_req c)\<rparr> in
     if has_attr (h_req c) CONNECTION_CLOSE then http_close c else keep_alive c)"

lemma process_ready:
  assumes "\<And>n. mok n" "length hdrs \<le> 1024"
  shows "process_request mok (Some P) \<lparr>h_sock = s, h_req = req, h_part = PART_BODY, h_line = [], h_body_pos = n,
      h_headers = [hdr_buf hdrs]\<rparr> w =
    rbind (P (ready s req hdrs n) w) (\<lambda>(c, w). Inr (c\<lparr>h_req := fin_request (h_req c)\<rparr>, w))"
  using assms by (simp add: process_request_def collect_buffers_def hdr_buf_def ready_def Let_def)

lemma keep_alive_new: "h_line c = [] \<Longrightarrow> keep_alive c = new_conn (h_sock c)"
  by (simp add: keep_alive_def new_conn_def clear_http_request_def)

subsection \<open>Requests without a body\<close>

definition hdrs1 :: "http_method \<Rightarrow> string \<Rightarrow> string" where
  "hdrs1 m h = ''Request-Method: '' @ method_name m @ [lf] @ host_line h @ [lf]"

definition path_ok :: "string \<Rightarrow> bool" where
  "path_ok path \<longleftrightarrow> path \<noteq> [] \<and> list_all (\<lambda>x. x \<noteq> nul \<and> x \<noteq> cr \<and> x \<noteq> lf) path"

definition host_ok :: "string \<Rightarrow> bool" where
  "host_ok h \<longleftrightarrow> length h < 900 \<and> list_all (\<lambda>x. x \<noteq> nul \<and> x \<noteq> cr \<and> x \<noteq> lf) h"

lemma host_line_plain: "host_ok h \<Longrightarrow> plain_line (host_line h)"
  by (simp add: host_ok_def host_line_def plain_line_def)

lemma name_length: "known m \<Longrightarrow> length (method_name m) \<le> 6"
  by (auto simp: known_def)

text \<open>The message that arrives in one packet is given to the line loop.\<close>

lemma input_message:
  assumes "rx s = RxData msg # evs" "msg \<noteq> []" "length msg < LINE_BUF_SIZE"
  shows "http_input_iteration mok process (new_conn s) w =
    rbind (parse_lines mok process msg ((new_conn (s\<lparr>rx := evs\<rparr>))\<lparr>h_line := msg\<rparr>) w) (\<lambda>(go, c, w).
      if \<not> go then Inr (c, w) else if h_part c < PART_BODY then Inr (c\<lparr>h_line := []\<rparr>, w)
      else body_input mok process c w)"
  using assms by (simp add: http_input_iteration_def new_conn_def sock_recv_def LINE_BUF_SIZE_def)

lemma parse_start:
  assumes "known m" "path_ok path" "host_ok h" "\<And>n. mok n" "list_all plain_line hs"
  shows "parse_lines mok process (message (start_line m path) (host_line h # hs) @ rest) ((new_conn s)\<lparr>h_line := line\<rparr>) w =
    headers_done mok process rest (foldl (\<lambda>c h. header_line mok h c)
      (std_conn s (std_req m path HOST_HEADER 0) line (hdrs1 m h)) hs) w"
proof -
  have "parse_lines mok process (message (start_line m path) (host_line h # hs) @ rest) ((new_conn s)\<lparr>h_line := line\<rparr>) w =
    headers_done mok process rest (foldl (\<lambda>c h. header_line mok h c)
      (std_conn s (std_req m path 0 0) line (''Request-Method: '' @ method_name m @ [lf])) (host_line h # hs)) w"
    using assms
    by (intro parse_message start_line_plain request_line_std)
      (auto simp: path_ok_def list_all_iff host_line_plain new_conn_def std_conn_def)
  moreover have "header_line mok (host_line h) (std_conn s (std_req m path 0 0) line (''Request-Method: '' @ method_name m @ [lf])) =
    std_conn s (std_req m path (or 0 HOST_HEADER) 0) line ((''Request-Method: '' @ method_name m @ [lf]) @ host_line h @ [lf])"
    using name_length [OF assms(1)] assms(3) by (intro host_header) (simp add: host_ok_def)
  ultimately show ?thesis
    by (simp add: hdrs1_def)
qed

lemma no_body_request:
  assumes m: "known m" "m \<noteq> METHOD_PUT" "m \<noteq> METHOD_POST" and p: "path_ok path" "host_ok h" and mok: "\<And>n. mok n"
    and s: "rx s = RxData (message (start_line m path) [host_line h]) # evs" "is_open s"
    and fits: "length (message (start_line m path) [host_line h]) < LINE_BUF_SIZE"
  shows "input_loop (Suc f) mok (Some P) (new_conn s) w =
    rbind (P (ready (s\<lparr>rx := evs\<rparr>) (std_req m path HOST_HEADER 0) (hdrs1 m h) 0) w) (\<lambda>(c, w).
      input_loop f mok (Some P) (next_conn c) w)"
proof -
  let ?msg = "message (start_line m path) [host_line h]" and ?s = "s\<lparr>rx := evs\<rparr>"
  have len: "length (hdrs1 m h) \<le> 1024"
    using name_length [OF m(1)] p(2) by (simp add: hdrs1_def host_line_def host_ok_def)
  have "parse_lines mok (Some P) (?msg @ []) ((new_conn ?s)\<lparr>h_line := ?msg\<rparr>) w =
    headers_done mok (Some P) [] (std_conn ?s (std_req m path HOST_HEADER 0) ?msg (hdrs1 m h)) w"
    using assms by (subst parse_start) simp_all
  also have "\<dots> = rbind (P (ready ?s (std_req m path HOST_HEADER 0) (hdrs1 m h) 0) w) (\<lambda>(c, w). Inr (False, next_conn c, w))"
    using process_ready [where mok = mok and P = P and s = ?s and req = "std_req m path HOST_HEADER 0" and n = 0 and w = w,
        OF mok len]
    by (simp add: headers_done_def std_conn_def Let_def rbind_assoc next_conn_def case_prod_beta' cong: if_cong)
  finally show ?thesis
    using s input_message [OF s(1) _ fits, of mok "Some P" w]
    by (simp add: rbind_assoc case_prod_beta' message_def)
qed

subsection \<open>Bodies in any number of packets\<close>

text \<open>The connection with \<open>dn\<close> received, \<open>todo\<close> bytes missing.\<close>

definition body_conn :: "sock \<Rightarrow> http_request \<Rightarrow> string \<Rightarrow> string \<Rightarrow> nat \<Rightarrow> http_conn" where
  "body_conn s req hdrs dn todo = \<lparr>h_sock = s, h_req = req\<lparr>r_content_length := int (length dn + todo),
     r_body := Some (map Some dn @ uninit (todo + 1))\<rparr>, h_part = PART_BODY, h_line = [], h_body_pos = length dn,
     h_headers = [hdr_buf hdrs]\<rparr>"

lemma overwrite_uninit: "overwrite (length dn) (map Some p) (map Some dn @ uninit (length p + k)) =
    map Some (dn @ p) @ uninit k"
  by (simp add: overwrite_def uninit_def)

lemma body_recv:
  assumes "sock_recv (length p + k) s = (int (length p), p, s')" "p \<noteq> []"
  shows "body_input mok process (body_conn s req hdrs dn (length p + k)) w =
    (if k = 0 then body_done mok process (body_conn s' req hdrs (dn @ p) 0) w
     else Inr (body_conn s' req hdrs (dn @ p) k, w))"
proof -
  have "0 < length p" "overwrite (length dn) (map Some p) (map Some dn @ uninit (Suc (length p + k))) = map Some (dn @ p) @ uninit (Suc k)"
    using assms(2) overwrite_uninit [of dn p "k + 1"] by simp_all
  moreover have "nat (int (length dn) + (int (length p) + int k)) = length dn + (length p + k)"
    by simp
  ultimately show ?thesis
    using assms(1) by (cases "k = 0") (simp_all add: body_input_def body_conn_def Let_def add.assoc)
qed

lemma body_packets:
  assumes "concat ps = todo" "[] \<notin> set ps" "is_open s" "rx s = map RxData ps @ evs"
  shows "rbind (body_input mok process (body_conn s req hdrs dn (length todo)) w) (\<lambda>(c, w). input_loop (length ps - 1 + f) mok process c w) =
    rbind (body_done mok process (body_conn (s\<lparr>rx := evs\<rparr>) req hdrs (dn @ todo) 0) w) (\<lambda>(c, w). input_loop f mok process c w)"
  using assms
proof (induction ps arbitrary: s dn todo)
  case Nil
  then have evs: "evs = rx s" "todo = []"
    by simp_all
  have "body_input mok process (body_conn s req hdrs dn (length todo)) w = body_done mok process (body_conn s req hdrs (dn @ todo) 0) w"
    by (simp add: evs body_input_def body_conn_def)
  then show ?case by (simp add: evs)
next
  case (Cons p ps)
  let ?todo = "concat ps" and ?s = "s\<lparr>rx := map RxData ps @ evs\<rparr>"
  have todo: "todo = p @ ?todo" and p: "p \<noteq> []"
    using Cons.prems by auto
  have rec: "sock_recv (length p + length ?todo) s = (int (length p), p, ?s)"
    using Cons.prems(4) p by (simp add: sock_recv_def)
  have step: "body_input mok process (body_conn s req hdrs dn (length todo)) w =
    (if ?todo = [] then body_done mok process (body_conn ?s req hdrs (dn @ p) 0) w
     else Inr (body_conn ?s req hdrs (dn @ p) (length ?todo), w))"
    using body_recv [OF rec p, of mok process req hdrs dn w] by (simp add: todo)
  have IH: "rbind (body_input mok process (body_conn ?s req hdrs (dn @ p) (length ?todo)) w) (\<lambda>(c, w). input_loop (length ps - 1 + f) mok process c w) =
    rbind (body_done mok process (body_conn (?s\<lparr>rx := evs\<rparr>) req hdrs ((dn @ p) @ ?todo) 0) w) (\<lambda>(c, w). input_loop f mok process c w)"
    using Cons.prems by (intro Cons.IH) simp_all
  show ?case
  proof (cases "ps = []")
    case True
    then show ?thesis
      using step by (simp add: todo)
  next
    case False
    then obtain q qs where q: "ps = q # qs" "?todo \<noteq> []"
      using Cons.prems(2) by (cases ps) auto
    have "is_open (h_sock (body_conn ?s req hdrs (dn @ p) k))" "h_part (body_conn ?s req hdrs (dn @ p) k) = PART_BODY" for k
      using Cons.prems(3) by (simp_all add: body_conn_def)
    then have "rbind (Inr (body_conn ?s req hdrs (dn @ p) (length ?todo), w)) (\<lambda>(c, w). input_loop (length (p # ps) - 1 + f) mok process c w) =
      rbind (body_input mok process (body_conn ?s req hdrs (dn @ p) (length ?todo)) w) (\<lambda>(c, w). input_loop (length ps - 1 + f) mok process c w)"
      by (simp add: q(1) http_input_iteration_def)
    with step IH q(2) show ?thesis
      by (simp only: todo if_False fun_upd_apply append_assoc) simp
  qed
qed

definition hdrs2 :: "http_method \<Rightarrow> string \<Rightarrow> nat \<Rightarrow> string" where
  "hdrs2 m h n = hdrs1 m h @ length_line n @ [lf]"

text \<open>The request with its body as the handler gets it.\<close>

definition body_req :: "http_method \<Rightarrow> string \<Rightarrow> string \<Rightarrow> http_request" where
  "body_req m path load = (std_req m path (or HOST_HEADER CONTENT_LENGTH) (int (length load)))
     \<lparr>r_body := Some (map Some load @ [None])\<rparr>"

lemma body_request:
  assumes m: "m \<in> {METHOD_PUT, METHOD_POST}" and p: "path_ok path" "host_ok h" and mok: "\<And>n. mok n"
    and load: "load = first @ concat ps" "load \<noteq> []" "[] \<notin> set ps" "length load \<le> 2147483640"
    and s: "rx s = RxData (msg @ first) # map RxData ps @ evs" "is_open s"
    and msg: "msg = message (start_line m path) [host_line h, length_line (length load)]"
      "length (msg @ first) < LINE_BUF_SIZE"
    and keep: "\<And>c' w'. P (ready (s\<lparr>rx := evs\<rparr>) (body_req m path load) (hdrs2 m h (length load)) (length load)) w = Inr (c', w') \<Longrightarrow> h_line c' = []"
  shows "input_loop (Suc (length ps - 1 + f)) mok (Some P) (new_conn s) w =
    rbind (P (ready (s\<lparr>rx := evs\<rparr>) (body_req m path load) (hdrs2 m h (length load)) (length load)) w) (\<lambda>(c, w).
      input_loop f mok (Some P) (next_conn c) w)"
proof -
  let ?s = "s\<lparr>rx := map RxData ps @ evs\<rparr>" and ?n = "length load" and ?a = "or HOST_HEADER CONTENT_LENGTH"
  let ?hdrs = "hdrs2 m h ?n" and ?req = "std_req m path ?a (int ?n)" and ?line = "msg @ first"
  have known: "known m" and mm: "m \<noteq> METHOD_GET" "m \<noteq> METHOD_HEAD"
    using m by (auto simp: known_def)
  have lens: "length (hdrs1 m h) + length (length_line ?n) < 1024"
    using name_length [OF known] p(2) dec_string_length [of ?n 10] load(4)
    by (simp add: hdrs1_def host_line_def host_ok_def length_line_def)
  have len: "length ?hdrs \<le> 1024"
    using lens by (simp add: hdrs2_def)
  have "parse_lines mok (Some P) ?line ((new_conn ?s)\<lparr>h_line := ?line\<rparr>) w =
    headers_done mok (Some P) first (foldl (\<lambda>c h. header_line mok h c)
      (std_conn ?s (std_req m path HOST_HEADER 0) ?line (hdrs1 m h)) [length_line ?n]) w"
    unfolding msg using known p mok by (intro parse_start) (simp_all add: length_line_plain)
  also have "foldl (\<lambda>c h. header_line mok h c) (std_conn ?s (std_req m path HOST_HEADER 0) ?line (hdrs1 m h)) [length_line ?n] =
    std_conn ?s ?req ?line ?hdrs"
    using lens load(4) by (simp add: length_header hdrs2_def)
  also have "headers_done mok (Some P) first (std_conn ?s ?req ?line ?hdrs) w =
    Inr (True, body_conn ?s ?req ?hdrs first (length (concat ps)), w)"
  proof -
    have "overwrite 0 (map Some first) (uninit (Suc (length first + length (concat ps)))) = map Some first @ uninit (Suc (length (concat ps)))"
      using overwrite_uninit [of "[]" first "length (concat ps) + 1"] by simp
    moreover have "int (length first) + int (length (concat ps)) \<noteq> 0"
      using load(2) unfolding load(1) by (metis length_0_conv length_append of_nat_0_eq_iff of_nat_add)
    ultimately show ?thesis
      using mm mok load
      by (simp add: headers_done_def Let_def std_conn_def body_conn_def nat_int_add)
  qed
  finally have "http_input_iteration mok (Some P) (new_conn s) w =
    body_input mok (Some P) (body_conn ?s ?req ?hdrs first (length (concat ps))) w"
    using input_message [OF s(1) _ msg(2), of mok "Some P" w] by (simp add: body_conn_def msg(1) message_def)
  then have "input_loop (Suc (length ps - 1 + f)) mok (Some P) (new_conn s) w =
    rbind (body_done mok (Some P) (body_conn (s\<lparr>rx := evs\<rparr>) ?req ?hdrs load 0) w) (\<lambda>(c, w). input_loop f mok (Some P) c w)"
    using s(2) body_packets [of ps "concat ps" ?s evs mok "Some P" ?req ?hdrs first w f] load(1,3) by simp
  also have "body_done mok (Some P) (body_conn (s\<lparr>rx := evs\<rparr>) ?req ?hdrs load 0) w =
    rbind (P (ready (s\<lparr>rx := evs\<rparr>) (body_req m path load) ?hdrs ?n) w) (\<lambda>(c, w). Inr (next_conn c, w))"
  proof -
    have c: "body_conn (s\<lparr>rx := evs\<rparr>) ?req ?hdrs load 0 = \<lparr>h_sock = s\<lparr>rx := evs\<rparr>, h_req = body_req m path load, h_part = PART_BODY,
      h_line = [], h_body_pos = ?n, h_headers = [hdr_buf ?hdrs]\<rparr>"
      by (simp add: body_conn_def body_req_def std_req_def uninit_def)
    show ?thesis
      unfolding c body_done_def process_ready [OF mok len]
      using keep
      by (cases "P (ready (s\<lparr>rx := evs\<rparr>) (body_req m path load) ?hdrs ?n) w") (auto simp: next_conn_def Let_def keep_alive_new new_conn_def)
  qed
  finally show ?thesis
    by (simp add: rbind_assoc case_prod_beta')
qed

subsection \<open>A whole connection\<close>

lemma input_eof:
  assumes "rx s = []" "is_open s" "2 \<le> f"
  shows "input_loop f mok process (new_conn s) w = Inr (http_close (new_conn s), w)"
proof -
  obtain g where f: "f = Suc (Suc g)"
    using assms(3) by (metis Suc_le_D numeral_2_eq_2 Suc_le_mono)
  have "http_input_iteration mok process (new_conn s) w = Inr (http_close (new_conn s), w)"
    using assms(1) by (simp add: http_input_iteration_def new_conn_def sock_recv_def new_request_def)
  then show ?thesis
    using assms(2) by (simp add: f http_close_def closesocket_def)
qed

lemma next_eof:
  assumes "h_line c = []" "rx (h_sock c) = []" "is_open (h_sock c)" "2 \<le> f"
  shows "rbind (input_loop f mok process (next_conn c) w) (\<lambda>(c, w). Inr (0, h_sock c, w)) = Inr (0, closesocket (h_sock c), w)"
proof (cases "has_attr (fin_request (h_req c)) CONNECTION_CLOSE")
  case True
  then show ?thesis
    using assms(4) by (cases f) (simp_all add: next_conn_def http_close_def closesocket_def)
next
  case False
  then have "next_conn c = new_conn (h_sock c)"
    using assms(1) by (simp add: next_conn_def Let_def keep_alive_new)
  with input_eof [OF assms(2,3,4), of mok process w] show ?thesis
    by (simp add: http_close_def)
qed

lemma body_connection:
  assumes "m \<in> {METHOD_PUT, METHOD_POST}" "path_ok path" "host_ok h" "\<And>n. mok n"
    "load = first @ concat ps" "load \<noteq> []" "[] \<notin> set ps" "length load \<le> 2147483640"
    "rx s = RxData (message (start_line m path) [host_line h, length_line (length load)] @ first) # map RxData ps"
    "is_open s" "length (message (start_line m path) [host_line h, length_line (length load)] @ first) < LINE_BUF_SIZE"
    and keep: "\<And>c' w'. P (ready (s\<lparr>rx := []\<rparr>) (body_req m path load) (hdrs2 m h (length load)) (length load)) w = Inr (c', w') \<Longrightarrow>
      h_line c' = [] \<and> same_input (s\<lparr>rx := []\<rparr>) (h_sock c')"
  shows "http_connected mok (Some P) s w =
    rbind (P (ready (s\<lparr>rx := []\<rparr>) (body_req m path load) (hdrs2 m h (length load)) (length load)) w)
      (\<lambda>(c, w). Inr (0, closesocket (h_sock c), w))"
proof -
  let ?msg = "message (start_line m path) [host_line h, length_line (length load)]"
  let ?c = "ready (s\<lparr>rx := []\<rparr>) (body_req m path load) (hdrs2 m h (length load)) (length load)"
  have size: "length ps \<le> sum_list (map event_size (map RxData ps))"
    by (induction ps) auto
  define f where "f = rx_size s + 2 - Suc (length ps - 1)"
  have f: "rx_size s + 2 = Suc (length ps - 1 + f)" "2 \<le> f"
    using size assms(9) by (auto simp: f_def rx_size_def)
  have "input_loop (Suc (length ps - 1 + f)) mok (Some P) (new_conn s) w =
    rbind (P ?c w) (\<lambda>(c, w). input_loop f mok (Some P) (next_conn c) w)"
    using keep by (intro body_request [OF assms(1-8) _ assms(10) refl assms(11)]) (simp_all add: assms(9))
  moreover have "http_connected mok (Some P) s w = rbind (input_loop (rx_size s + 2) mok (Some P) (new_conn s) w) (\<lambda>(c, w). Inr (0, h_sock c, w))"
    using assms(4) by (simp add: http_connected_def del: input_loop.simps)
  ultimately have "http_connected mok (Some P) s w =
    rbind (rbind (P ?c w) (\<lambda>(c, w). input_loop f mok (Some P) (next_conn c) w)) (\<lambda>(c, w). Inr (0, h_sock c, w))"
    unfolding f(1) by simp
  also have "\<dots> = rbind (P ?c w) (\<lambda>(c, w). Inr (0, closesocket (h_sock c), w))"
    using keep next_eof [OF _ _ _ f(2), of _ mok "Some P"] assms(10)
    by (cases "P ?c w") (fastforce simp: same_input_def)+
  finally show ?thesis .
qed

text \<open>C8: A PUT or POST with a body is handed to the handler once, with exactly the announced bytes,
  however the body is cut into packets (any part of it may come with the headers); then the
  connection ends, closed. This holds for every handler that leaves the line buffer and the
  input alone.\<close>

theorem http_body_any_packets:
  assumes "m \<in> {METHOD_PUT, METHOD_POST}" "path_ok path" "host_ok h" "\<And>n. mok n"
    "load = first @ concat ps" "load \<noteq> []" "[] \<notin> set ps" "length load \<le> 2147483640"
    "rx s = RxData (message (start_line m path) [host_line h, length_line (length load)] @ first) # map RxData ps"
    "is_open s" "length (message (start_line m path) [host_line h, length_line (length load)] @ first) < LINE_BUF_SIZE"
    "\<And>c' w'. P (ready (s\<lparr>rx := []\<rparr>) (body_req m path load) (hdrs2 m h (length load)) (length load)) w = Inr (c', w') \<Longrightarrow>
      h_line c' = [] \<and> same_input (s\<lparr>rx := []\<rparr>) (h_sock c')"
  shows "http_connected mok (Some P) s w =
    rbind (P (ready (s\<lparr>rx := []\<rparr>) (body_req m path load) (hdrs2 m h (length load)) (length load)) w)
      (\<lambda>(c, w). Inr (0, closesocket (h_sock c), w))"
  using assms by (rule body_connection)

text \<open>A handler that only records what it is given.\<close>

definition record_handler :: "(string option \<times> cell list option) list handler" where
  "record_handler c w = Inr (c, w @ [(r_path (h_req c), r_body (h_req c))])"

definition peer :: "rx_event list \<Rightarrow> sock" where
  "peer evs = \<lparr>rx = evs, tx = [], plan = [], errno = 0, is_open = True\<rparr>"

theorem http_body_any_packets_witness:
  "http_connected (\<lambda>_. True) (Some record_handler)
     (peer (RxData (message (start_line METHOD_PUT ''/data/k'') [host_line ''h'', length_line (length ''abcd'')] @ ''a'') #
       map RxData [''bc'', ''d''])) [] =
   rbind (record_handler (ready ((peer (RxData (message (start_line METHOD_PUT ''/data/k'') [host_line ''h'', length_line (length ''abcd'')] @ ''a'') #
       map RxData [''bc'', ''d'']))\<lparr>rx := []\<rparr>) (body_req METHOD_PUT ''/data/k'' ''abcd'') (hdrs2 METHOD_PUT ''h'' (length ''abcd'')) (length ''abcd'')) [])
     (\<lambda>(c, w). Inr (0, closesocket (h_sock c), w))"
  by (rule http_body_any_packets [where first = "''a''" and ps = "[''bc'', ''d'']"])
    (auto simp: path_ok_def host_ok_def peer_def record_handler_def ready_def message_def start_line_def
      host_line_def length_line_def LINE_BUF_SIZE_def dec_string.simps)

end
