(* ===== verification/HttpFaults.thy ===== *)
theory HttpFaults
  imports HttpParse
begin

text \<open>
  Requests that src/http.c does not handle as HTTP wants it: headers that need a second buffer,
  and a line end that the network cuts in two.
\<close>

subsection \<open>Headers that need a second buffer\<close>

text \<open>A header that does not fit the rest of the first buffer fills it and goes on in another.\<close>

lemma store_header_long:
  assumes "length hdrs \<le> 1024" "1024 < length hdrs + length l + 1" "l \<noteq> []" "\<forall>n. mok n"
  shows "\<exists>n. store_header mok l [hdr_buf hdrs] =
    [hdr_buf (hdrs @ take (1024 - length hdrs) l), \<lparr>b_size = n, b_data = drop (1024 - length hdrs) l @ [lf]\<rparr>]"
proof -
  have "room [hdr_buf hdrs] < length l + 1"
    using assms(1,2) by (simp add: room_def hdr_buf_def)
  then show ?thesis
    using assms(3,4) by (simp add: store_header_def alloc_buffer_def put_buffer_def hdr_buf_def room_def Let_def)
qed

lemma collect_overflow:
  assumes "bs \<noteq> []" "b_size (hd bs) + 8 < sum_list (map (\<lambda>b. length (b_data b)) bs)" "\<forall>n. mok n"
  shows "collect_buffers mok bs = Inl (Undefined OutOfBounds)"
proof -
  have "copy_buffers cap dst bs = Inl (Undefined OutOfBounds)" if "cap < dst + sum_list (map (\<lambda>b. length (b_data b)) bs)" "dst \<le> cap" for cap dst
    using that by (induction bs arbitrary: dst) (auto simp: not_less)
  then show ?thesis
    using assms by (simp add: collect_buffers_def Let_def)
qed


lemma process_overflow:
  assumes "h_headers c \<noteq> []" "b_size (hd (h_headers c)) + 8 < sum_list (map (\<lambda>b. length (b_data b)) (h_headers c))" "\<forall>n. mok n"
  shows "process_request mok (Some P) c w = Inl (Undefined OutOfBounds)"
  using collect_overflow [OF assms] assms(1) by (simp add: process_request_def)

lemma plain_host: "list_all (\<lambda>x. x \<noteq> nul \<and> x \<noteq> cr \<and> x \<noteq> lf) h \<Longrightarrow> plain_line (host_line h)"
  by (simp add: host_line_def plain_line_def)

lemma split_at: "length a \<le> n \<Longrightarrow> n - length a \<le> length b \<Longrightarrow>
    a @ take (n - length a) b = take n (a @ b @ c) \<and> drop (n - length a) b @ c = drop n (a @ b @ c)"
  by simp

lemma long_host:
  assumes m: "known m" and h: "1100 \<le> length h" and mok: "\<forall>n. mok n"
  shows "\<exists>n. header_line mok (host_line h) (std_conn s (std_req m path 0 0) msg (''Request-Method: '' @ method_name m @ [lf])) =
    (std_conn s (std_req m path HOST_HEADER 0) msg (hdrs1 m h))\<lparr>h_headers :=
      [hdr_buf (take 1024 (hdrs1 m h)), \<lparr>b_size = n, b_data = drop 1024 (hdrs1 m h)\<rparr>]\<rparr>"
proof -
  let ?hdrs = "''Request-Method: '' @ method_name m @ [lf]"
  have len: "length ?hdrs \<le> 1024" "1024 < length ?hdrs + length (host_line h) + 1"
    using name_length [OF m] h by (simp_all add: host_line_def)
  have ne: "host_line h \<noteq> []"
    by (simp add: host_line_def)
  obtain n where st: "store_header mok (host_line h) [hdr_buf ?hdrs] =
      [hdr_buf (?hdrs @ take (1024 - length ?hdrs) (host_line h)), \<lparr>b_size = n, b_data = drop (1024 - length ?hdrs) (host_line h) @ [lf]\<rparr>]"
    using store_header_long [OF len ne mok] by blast
  have "1024 - length ?hdrs \<le> length (host_line h)" "hdrs1 m h = ?hdrs @ host_line h @ [lf]"
    using h by (simp_all add: host_line_def hdrs1_def)
  then have split: "?hdrs @ take (1024 - length ?hdrs) (host_line h) = take 1024 (hdrs1 m h)"
    "drop (1024 - length ?hdrs) (host_line h) @ [lf] = drop 1024 (hdrs1 m h)"
    using split_at [OF len(1), of "host_line h" "[lf]"] by simp_all
  have k: "takeWhile (\<lambda>x. x \<noteq> CHR '':'') (host_line h) = ''Host''" "dropWhile (\<lambda>x. x \<noteq> CHR '':'') (host_line h) = '': '' @ h"
    by (simp_all add: host_line_def)
  have hd: "h_headers (std_conn s (std_req m path 0 0) msg ?hdrs) = [hdr_buf ?hdrs]"
    by (simp add: std_conn_def)
  show ?thesis
    unfolding header_line_def Let_def k lower_names hd st split
    by (rule exI [of _ n]) (simp add: std_conn_def set_header_def is_blank_def add_attr_def std_req_def)
qed

lemma long_header_fault:
  assumes m: "known m" "m \<noteq> METHOD_PUT" "m \<noteq> METHOD_POST" and p: "path_ok path"
    and h: "1100 \<le> length h" "list_all (\<lambda>x. x \<noteq> nul \<and> x \<noteq> cr \<and> x \<noteq> lf) h" and mok: "\<forall>n. mok n"
    and s: "rx s = RxData (message (start_line m path) [host_line h]) # evs" "is_open s"
    and fits: "length (message (start_line m path) [host_line h]) < LINE_BUF_SIZE"
  shows "http_connected mok (Some P) s w = Inl (Undefined OutOfBounds)"
proof -
  let ?msg = "message (start_line m path) [host_line h]" and ?s = "s\<lparr>rx := evs\<rparr>"
  obtain n where c: "header_line mok (host_line h) (std_conn ?s (std_req m path 0 0) ?msg (''Request-Method: '' @ method_name m @ [lf])) =
    (std_conn ?s (std_req m path HOST_HEADER 0) ?msg (hdrs1 m h))\<lparr>h_headers :=
      [hdr_buf (take 1024 (hdrs1 m h)), \<lparr>b_size = n, b_data = drop 1024 (hdrs1 m h)\<rparr>]\<rparr>" (is "_ = ?c")
    using long_host [OF m(1) h(1) mok] by blast
  have "1032 < length (hdrs1 m h)"
    using h(1) by (simp add: hdrs1_def host_line_def)
  then have over: "process_request mok (Some P) (?c\<lparr>h_body_pos := 0, h_part := PART_BODY, h_line := []\<rparr>) w = Inl (Undefined OutOfBounds)"
    using mok by (intro process_overflow) (simp_all add: hdr_buf_def)
  have "parse_lines mok (Some P) (?msg @ []) ((new_conn ?s)\<lparr>h_line := ?msg\<rparr>) w =
    headers_done mok (Some P) [] (foldl (\<lambda>c h. header_line mok h c)
      (std_conn ?s (std_req m path 0 0) ?msg (''Request-Method: '' @ method_name m @ [lf])) [host_line h]) w"
    using m(1) p h(2) mok
    by (intro parse_message start_line_plain request_line_std)
      (auto simp: path_ok_def list_all_iff plain_host new_conn_def std_conn_def)
  also have "\<dots> = Inl (Undefined OutOfBounds)"
    unfolding foldl.simps c using over m by (simp add: headers_done_def std_conn_def Let_def)
  finally have "http_input_iteration mok (Some P) (new_conn s) w = Inl (Undefined OutOfBounds)"
    using input_message [OF s(1) _ fits, of mok "Some P" w] by (simp add: message_def)
  then show ?thesis
    using s(2) mok by (simp add: http_connected_def)
qed

subsection \<open>A line end that is cut in two\<close>

text \<open>A line whose CR is the last byte received: the line is complete, and nothing is left.\<close>

lemma parse_cr_last:
  assumes "plain_line l" "h_part c = PART_HEADER"
  shows "parse_lines mok process (l @ [cr]) c w = Inr (True, header_line mok l c, w)"
proof -
  have "take 2 (l @ [cr]) \<noteq> crlf" "\<not> is_eos (l @ [cr])" "hd (l @ [cr]) \<noteq> lf"
    using plain_head [OF assms(1), of "[cr]"] by (cases l; auto)+
  moreover have "line_of (l @ [cr]) = l" "drop (length l) (l @ [cr]) = [cr]" "\<not> is_eos [cr]" "skip_eol [cr] = []"
    using line_of_plain [OF assms(1), of "[]"] by (simp_all add: is_eos_def skip_eol_def)
  moreover have "parse_lines mok process [] c w = Inr (True, c, w)" for c
    by (subst parse_lines.simps) (simp add: is_eos_def)
  ultimately show ?thesis
    using assms(2) by (subst parse_lines.simps) (simp cong: if_cong)
qed

lemma parse_lf_first: "parse_lines mok process (lf # rest) c w = headers_done mok process rest c w"
  by (subst parse_lines.simps) (simp add: is_eos_def)

lemma split_crlf:
  assumes m: "known m" and p: "path_ok path" "host_ok h" and all: "\<forall>n. mok n"
    and s: "rx s = RxData (start_line m path @ crlf @ host_line h @ [cr]) # RxData (lf # rest) # evs" "is_open s"
    and fits: "length (start_line m path @ crlf @ host_line h @ [cr]) < LINE_BUF_SIZE" "length (lf # rest) < LINE_BUF_SIZE"
  shows "input_loop (Suc (Suc f)) mok (Some P) (new_conn s) w =
    rbind (P ((ready (s\<lparr>rx := evs\<rparr>) (std_req m path HOST_HEADER 0) (hdrs1 m h) 0)\<lparr>h_line := rest\<rparr>) w)
      (\<lambda>(c, w). input_loop f mok (Some P) (next_conn c) w)"
proof -
  let ?msg = "start_line m path @ crlf @ host_line h @ [cr]" and ?s = "s\<lparr>rx := RxData (lf # rest) # evs\<rparr>" and ?t = "s\<lparr>rx := evs\<rparr>"
  let ?c = "std_conn ?s (std_req m path HOST_HEADER 0) ?msg (hdrs1 m h)"
  have len: "length (hdrs1 m h) \<le> 1024"
    using name_length [OF m] p(2) by (simp add: hdrs1_def host_line_def host_ok_def)
  have host: "header_line mok (host_line h) (std_conn ?s (std_req m path 0 0) ?msg (''Request-Method: '' @ method_name m @ [lf])) = ?c"
    using host_header [of "''Request-Method: '' @ method_name m @ [lf]" h mok ?s m path 0 0 ?msg] name_length [OF m] p(2)
    by (simp add: host_ok_def hdrs1_def)
  have "parse_lines mok (Some P) ?msg ((new_conn ?s)\<lparr>h_line := ?msg\<rparr>) w =
    parse_lines mok (Some P) (host_line h @ [cr]) (std_conn ?s (std_req m path 0 0) ?msg (''Request-Method: '' @ method_name m @ [lf])) w"
    using http_parse_line [of "start_line m path" mok "Some P" "host_line h @ [cr]" "(new_conn ?s)\<lparr>h_line := ?msg\<rparr>" w]
      start_line_plain [OF m] request_line_std [OF m, where path = path and mok = mok and s = ?s and line = ?msg] p(1) all
    by (auto simp: path_ok_def list_all_iff new_conn_def)
  also have "\<dots> = Inr (True, ?c, w)"
    using parse_cr_last [OF host_line_plain [OF p(2)], of "std_conn ?s (std_req m path 0 0) ?msg (''Request-Method: '' @ method_name m @ [lf])" mok "Some P" w] host
    by (simp add: std_conn_def)
  finally have first: "http_input_iteration mok (Some P) (new_conn s) w = Inr (?c\<lparr>h_line := []\<rparr>, w)"
    using input_message [OF s(1) _ fits(1), of mok "Some P" w] by (simp add: std_conn_def)
  have proc: "process_request mok (Some P) \<lparr>h_sock = ?t, h_req = std_req m path HOST_HEADER 0, h_part = PART_BODY,
      h_line = rest, h_body_pos = 0, h_headers = [hdr_buf (hdrs1 m h)]\<rparr> w =
    rbind (P ((ready ?t (std_req m path HOST_HEADER 0) (hdrs1 m h) 0)\<lparr>h_line := rest\<rparr>) w) (\<lambda>(c, w). Inr (c\<lparr>h_req := fin_request (h_req c)\<rparr>, w))"
    using all len by (simp add: process_request_def collect_buffers_def hdr_buf_def ready_def Let_def)
  have hdone: "headers_done mok (Some P) rest \<lparr>h_sock = ?t, h_req = std_req m path HOST_HEADER 0, h_part = PART_HEADER,
      h_line = lf # rest, h_body_pos = 0, h_headers = [hdr_buf (hdrs1 m h)]\<rparr> w =
    rbind (P ((ready ?t (std_req m path HOST_HEADER 0) (hdrs1 m h) 0)\<lparr>h_line := rest\<rparr>) w) (\<lambda>(c, w). Inr (False, next_conn c, w))"
    using proc by (simp add: headers_done_def Let_def rbind_assoc next_conn_def case_prod_beta' cong: if_cong)
  have "http_input_iteration mok (Some P) (?c\<lparr>h_line := []\<rparr>) w =
    rbind (P ((ready ?t (std_req m path HOST_HEADER 0) (hdrs1 m h) 0)\<lparr>h_line := rest\<rparr>) w) (\<lambda>(c, w). Inr (next_conn c, w))"
    using fits(2)
    by (simp add: http_input_iteration_def std_conn_def sock_recv_def LINE_BUF_SIZE_def parse_lf_first hdone rbind_assoc case_prod_beta')
  then show ?thesis
    using s(2) by (simp add: first std_conn_def rbind_assoc case_prod_beta')
qed

subsection \<open>Properties\<close>

text \<open>C37: A request whose recorded headers are longer than the first header buffer and the eight
  bytes behind it makes the server write out of bounds before the handler is called:
  \<open>collect_buffers\<close> copies into the first buffer instead of the vector that it allocated. A Host
  header of 1100 bytes is enough.\<close>

theorem http_long_header_overflow:
  assumes "known m" "m \<noteq> METHOD_PUT" "m \<noteq> METHOD_POST" "path_ok path"
    "1100 \<le> length h" "list_all (\<lambda>x. x \<noteq> nul \<and> x \<noteq> cr \<and> x \<noteq> lf) h" "\<And>n. mok n"
    "rx s = RxData (message (start_line m path) [host_line h]) # evs" "is_open s"
    "length (message (start_line m path) [host_line h]) < LINE_BUF_SIZE"
  shows "http_connected mok (Some P) s w = Inl (Undefined OutOfBounds)"
  using assms by (intro long_header_fault) auto

theorem http_long_header_overflow_witness:
  "http_connected (\<lambda>_. True) (Some record_handler)
     (peer [RxData (message (start_line METHOD_GET ''/data/k'') [host_line (replicate 1100 (CHR ''a''))])]) [] = Inl (Undefined OutOfBounds)"
  by (rule http_long_header_overflow [where m = METHOD_GET and path = "''/data/k''" and h = "replicate 1100 (CHR ''a'')" and evs = "[]"])
    (auto simp: known_def path_ok_def peer_def message_def start_line_def host_line_def LINE_BUF_SIZE_def list_all_iff)

text \<open>When a packet ends between the CR and the LF of a header line, the LF at the front of the next
  packet is taken for the empty line: a PUT or POST whose Content-Length was still to come is given
  to the handler without a body, and the rest of the headers stays in the line buffer.\<close>

theorem http_split_line_end:
  assumes "m \<in> {METHOD_PUT, METHOD_POST}" "path_ok path" "host_ok h" "\<And>n. mok n"
    "rx s = RxData (start_line m path @ crlf @ host_line h @ [cr]) #
      RxData (lf # length_line (length load) @ crlf @ crlf @ load) # evs" "is_open s"
    "length (start_line m path @ crlf @ host_line h @ [cr]) < LINE_BUF_SIZE"
    "length (lf # length_line (length load) @ crlf @ crlf @ load) < LINE_BUF_SIZE"
  shows "\<exists>c. r_method (h_req c) = m \<and> r_path (h_req c) = Some path \<and> r_body (h_req c) = None \<and> r_content_length (h_req c) = 0 \<and>
    h_line c = length_line (length load) @ crlf @ crlf @ load \<and>
    input_loop (Suc (Suc f)) mok (Some P) (new_conn s) w = rbind (P c w) (\<lambda>(c, w). input_loop f mok (Some P) (next_conn c) w)"
proof -
  let ?c = "(ready (s\<lparr>rx := evs\<rparr>) (std_req m path HOST_HEADER 0) (hdrs1 m h) 0)\<lparr>h_line := length_line (length load) @ crlf @ crlf @ load\<rparr>"
  have "known m"
    using assms(1) by (auto simp: known_def)
  then have "input_loop (Suc (Suc f)) mok (Some P) (new_conn s) w = rbind (P ?c w) (\<lambda>(c, w). input_loop f mok (Some P) (next_conn c) w)"
    using assms by (intro split_crlf) auto
  then show ?thesis
    by (intro exI [of _ ?c]) (simp add: ready_def del: input_loop.simps)
qed

theorem http_split_line_end_witness:
  "\<exists>c. r_method (h_req c) = METHOD_PUT \<and> r_path (h_req c) = Some ''/data/k'' \<and> r_body (h_req c) = None \<and> r_content_length (h_req c) = 0 \<and>
    h_line c = length_line (length ''v'') @ crlf @ crlf @ ''v'' \<and>
    input_loop (Suc (Suc 0)) (\<lambda>_. True) (Some record_handler) (new_conn (peer [RxData (start_line METHOD_PUT ''/data/k'' @ crlf @ host_line ''h'' @ [cr]),
      RxData (lf # length_line (length ''v'') @ crlf @ crlf @ ''v'')])) [] =
    rbind (record_handler c []) (\<lambda>(c, w). input_loop 0 (\<lambda>_. True) (Some record_handler) (next_conn c) w)"
  by (rule http_split_line_end [where h = "''h''" and evs = "[]"])
    (auto simp: path_ok_def host_ok_def peer_def start_line_def host_line_def length_line_def LINE_BUF_SIZE_def dec_string.simps)

end
