(* ===== verification/HttpBuf.thy ===== *)
theory HttpBuf
  imports HttpSafe Heap
begin

text \<open>
  The header buffers of src/http.c as they are in memory: structures that are linked in both
  directions, of which the connection holds the last. The parser (theory HttpIn) works with the list
  of the buffers; here each operation on the links is shown to do to the memory what the parser's
  operation does to the list, and freeing the buffers leaves none behind.
\<close>

subsection \<open>Operations\<close>

record hbuf =
  hb_prev :: ptr
  hb_next :: ptr
  hb_size :: nat
  hb_data :: string

text \<open>\<open>malloc\<close>, the links and the parent's link; the result is null when there is no memory.\<close>

definition alloc_buffer_at :: "(nat \<Rightarrow> bool) \<Rightarrow> nat \<Rightarrow> ptr \<Rightarrow> hbuf heap \<Rightarrow> fault + ptr \<times> hbuf heap" where
  "alloc_buffer_at mok n parent h =
     (if \<not> mok (32 + n) then Inr (NULL, h)
      else
        (let (a, h) = new_rec \<lparr>hb_prev = parent, hb_next = NULL, hb_size = n, hb_data = []\<rparr> h in
         rbind (if parent \<noteq> NULL then assign h parent (\<lambda>b. b\<lparr>hb_next := Some a\<rparr>) else Inr h) (\<lambda>h. Inr (Some a, h))))"

text \<open>\<open>memcpy\<close> behind the bytes that are there, in the buffer that the connection holds.\<close>

definition put_buffer_at :: "string \<Rightarrow> ptr \<Rightarrow> hbuf heap \<Rightarrow> fault + hbuf heap" where
  "put_buffer_at s p h =
     rbind (deref h p) (\<lambda>b.
     if hb_size b + 8 < length (hb_data b) + length s then Inl (Undefined OutOfBounds)
     else assign h p (\<lambda>b. b\<lparr>hb_data := hb_data b @ s\<rparr>))"

definition room_at :: "ptr \<Rightarrow> hbuf heap \<Rightarrow> fault + nat" where
  "room_at p h = rbind (deref h p) (\<lambda>b. Inr (hb_size b - length (hb_data b)))"

text \<open>Recording a header line (\<open>bol\<close> without its end); the result is the pointer that the connection
  holds then.\<close>

definition store_header_at :: "(nat \<Rightarrow> bool) \<Rightarrow> string \<Rightarrow> ptr \<Rightarrow> hbuf heap \<Rightarrow> fault + ptr \<times> hbuf heap" where
  "store_header_at mok bol p h =
     rbind (if p = NULL then alloc_buffer_at mok 1024 NULL h else Inr (p, h)) (\<lambda>(p, h).
     let l = length bol in
     if p = NULL \<or> l = 0 then Inr (p, h)
     else
       rbind (room_at p h) (\<lambda>fits.
       if fits < l + 1 then
         rbind (put_buffer_at (take fits bol) p h) (\<lambda>h.
         rbind (alloc_buffer_at mok (header_space (l + 1 - fits) 2048) p h) (\<lambda>(q, h).
         if q = NULL then Inr (p, h)
         else rbind (put_buffer_at (drop fits bol @ [lf]) q h) (\<lambda>h. Inr (q, h))))
       else rbind (put_buffer_at (bol @ [lf]) p h) (\<lambda>h. Inr (p, h))))"

text \<open>The two loops of \<open>collect_buffers\<close>: back to the first buffer, adding up the lengths of those
  before it, and forward, copying to what follows \<open>data\<close> of the first.\<close>

primrec first_buffer :: "nat \<Rightarrow> ptr \<Rightarrow> nat \<Rightarrow> hbuf heap \<Rightarrow> fault + ptr \<times> nat" where
  "first_buffer 0 p len h = Inl OutOfFuel"
| "first_buffer (Suc n) p len h =
     rbind (deref h p) (\<lambda>b.
     if hb_prev b \<noteq> NULL then first_buffer n (hb_prev b) (len + length (hb_data b)) h
     else Inr (p, len + length (hb_data b)))"

primrec copy_from :: "nat \<Rightarrow> nat \<Rightarrow> nat \<Rightarrow> ptr \<Rightarrow> hbuf heap \<Rightarrow> fault + nat" where
  "copy_from 0 cap dst p h = Inl OutOfFuel"
| "copy_from (Suc n) cap dst p h =
     (if p = NULL then Inr dst
      else
        rbind (deref h p) (\<lambda>b.
        if cap < dst + length (hb_data b) then Inl (Undefined OutOfBounds)
        else copy_from n cap (dst + length (hb_data b)) (hb_next b) h))"

definition collect_buffers_at :: "(nat \<Rightarrow> bool) \<Rightarrow> ptr \<Rightarrow> hbuf heap \<Rightarrow> fault + cell list option" where
  "collect_buffers_at mok p h =
     (if p = NULL then Inr None
      else
        rbind (first_buffer (Suc (brk h)) p 0 h) (\<lambda>(r, len).
        if \<not> mok (16 + len) then Inr None
        else
          rbind (deref h r) (\<lambda>b.
          rbind (copy_from (Suc (brk h)) (hb_size b + 8) 0 r h) (\<lambda>_. Inr (Some (uninit len))))))"

text \<open>\<open>free_buffer\<close> frees what is before a buffer, then the buffer.\<close>

primrec free_buffer_at :: "nat \<Rightarrow> ptr \<Rightarrow> hbuf heap \<Rightarrow> fault + hbuf heap" where
  "free_buffer_at 0 p h = Inl OutOfFuel"
| "free_buffer_at (Suc n) p h =
     (if p = NULL then Inr h
      else
        rbind (deref h p) (\<lambda>b.
        rbind (if hb_prev b \<noteq> NULL then free_buffer_at n (hb_prev b) h else Inr h) (free_rec p)))"

definition free_buffer :: "ptr \<Rightarrow> hbuf heap \<Rightarrow> fault + hbuf heap" where
  "free_buffer p h = free_buffer_at (Suc (brk h)) p h"

text \<open>\<open>free_http_connection\<close>: the line buffer and the request, which may not have been allocated,
  the header buffers, and the socket. A request is a value, so clearing it frees its strings.\<close>

record conn_mem =
  cm_line :: "string option"
  cm_req :: "http_request option"
  cm_headers :: ptr
  cm_sock :: sock

definition free_http_connection :: "conn_mem \<Rightarrow> hbuf heap \<Rightarrow> fault + sock \<times> hbuf heap" where
  "free_http_connection c h =
     (let c = (case cm_line c of None \<Rightarrow> c | Some _ \<Rightarrow> c\<lparr>cm_line := None\<rparr>);
          c = (case cm_req c of None \<Rightarrow> c | Some r \<Rightarrow> c\<lparr>cm_req := None\<rparr>) in
      rbind (if cm_headers c \<noteq> NULL then free_buffer (cm_headers c) h else Inr h) (\<lambda>h.
      Inr (if is_open (cm_sock c) then closesocket (cm_sock c) else cm_sock c, h)))"

subsection \<open>The list in the links\<close>

definition buf_of :: "hbuf \<Rightarrow> buffer" where
  "buf_of b = \<lparr>b_size = hb_size b, b_data = hb_data b\<rparr>"

definition buf_chain :: "hbuf heap \<Rightarrow> nat list \<Rightarrow> buffer list \<Rightarrow> bool" where
  "buf_chain h xs bs \<longleftrightarrow> dseg (mem h) hb_prev hb_next NULL xs NULL \<and> distinct xs \<and> heap_ok h \<and> dom (mem h) = set xs \<and>
     map (\<lambda>x. map_option buf_of (mem h x)) xs = map Some bs"

definition buf_rep :: "hbuf heap \<Rightarrow> ptr \<Rightarrow> buffer list \<Rightarrow> bool" where
  "buf_rep h p bs \<longleftrightarrow> (\<exists>xs. buf_chain h xs bs \<and> p = last_ptr NULL xs)"

lemma buf_rep_null: "buf_rep h p bs \<Longrightarrow> p = NULL \<longleftrightarrow> bs = []"
  by (auto simp: buf_rep_def buf_chain_def last_ptr_def split: if_split_asm)

lemma buf_rep_last:
  assumes "buf_rep h p bs" "bs \<noteq> []"
  shows "\<exists>a b. p = Some a \<and> mem h a = Some b \<and> buf_of b = last bs"
proof -
  obtain xs where xs: "buf_chain h xs bs" "p = last_ptr NULL xs"
    using assms(1) by (auto simp: buf_rep_def)
  then obtain ys a where ys: "xs = ys @ [a]"
    using assms(2) by (cases xs rule: rev_cases) (auto simp: buf_chain_def)
  then obtain cs c where cs: "bs = cs @ [c]"
    using assms(2) by (cases bs rule: rev_cases) auto
  then show ?thesis
    using xs ys by (auto simp: buf_chain_def)
qed

subsection \<open>The operations on the links do what the parser's operations do to the list\<close>

lemma alloc_buffer_at_spec:
  assumes "buf_rep h p bs"
  shows "case alloc_buffer mok n bs of None \<Rightarrow> alloc_buffer_at mok n p h = Inr (NULL, h)
    | Some bs' \<Rightarrow> \<exists>a h'. alloc_buffer_at mok n p h = Inr (Some a, h') \<and> buf_rep h' (Some a) bs'"
proof (cases "mok (32 + n)")
  case True
  obtain xs where xs: "buf_chain h xs bs" "p = last_ptr NULL xs"
    using assms by (auto simp: buf_rep_def)
  let ?v = "\<lparr>hb_prev = p, hb_next = NULL, hb_size = n, hb_data = []\<rparr>"
  obtain a h1 where new: "new_rec ?v h = (a, h1)"
    by (cases "new_rec ?v h")
  have h1: "heap_ok h1" "mem h a = None" "mem h1 = (mem h)(a \<mapsto> ?v)"
    using heap_ok_new [OF _ new] xs(1) by (auto simp: buf_chain_def)
  have a: "a \<notin> set xs"
    using xs(1) h1(2) by (auto simp: buf_chain_def dest!: equalityD2)
  show ?thesis
  proof (cases xs rule: rev_cases)
    case Nil
    then have "buf_chain h1 [a] (bs @ [\<lparr>b_size = n, b_data = []\<rparr>])"
      using xs h1 by (simp add: buf_chain_def buf_of_def)
    then have "buf_rep h1 (Some a) (bs @ [\<lparr>b_size = n, b_data = []\<rparr>])"
      by (auto simp: buf_rep_def intro!: exI [of _ "[a]"])
    then show ?thesis
      using True new xs(2) Nil by (simp add: alloc_buffer_def alloc_buffer_at_def)
  next
    case (snoc ys z)
    obtain u where u: "mem h z = Some u" "hb_next u = NULL" "hb_prev u = last_ptr NULL ys"
      using xs(1) by (auto simp: snoc buf_chain_def dseg_append)
    let ?h = "put_rec z (u\<lparr>hb_next := Some a\<rparr>) h1"
    have z: "z \<noteq> a" "z \<notin> set ys" "a \<notin> set ys"
      using a xs(1) by (auto simp: snoc buf_chain_def)
    have "dseg (mem h) hb_prev hb_next NULL ys (Some z)"
      using xs(1) by (simp add: snoc buf_chain_def dseg_append)
    then have "dseg (mem ?h) hb_prev hb_next NULL (xs @ [a]) NULL"
      using z h1(3) u xs(2) by (simp add: snoc dseg_append)
    moreover have "map (\<lambda>x. map_option buf_of (mem ?h x)) xs = map (\<lambda>x. map_option buf_of (mem h x)) xs"
      using a u(1) h1(3) by (intro map_cong) (auto simp: buf_of_def)
    moreover have "dom (mem ?h) = set (xs @ [a])"
      using xs(1) h1(3) u(1) by (auto simp: buf_chain_def snoc)
    moreover have "heap_ok ?h" "mem ?h a = Some ?v"
      using h1 u(1) z(1) by auto
    ultimately have "buf_chain ?h (xs @ [a]) (bs @ [\<lparr>b_size = n, b_data = []\<rparr>])"
      using xs(1) a unfolding buf_chain_def by (simp add: buf_of_def del: mem_put_rec)
    then have "buf_rep ?h (Some a) (bs @ [\<lparr>b_size = n, b_data = []\<rparr>])"
      by (auto simp: buf_rep_def intro!: exI [of _ "xs @ [a]"])
    moreover have "mem h1 z = Some u"
      using h1(3) u(1) z(1) by simp
    ultimately show ?thesis
      using True new xs(2) by (simp add: alloc_buffer_def alloc_buffer_at_def snoc)
  qed
qed (simp add: alloc_buffer_def alloc_buffer_at_def)

lemma put_buffer_at_spec:
  assumes "buf_rep h p bs" "bs \<noteq> []" "length (b_data (last bs)) + length s \<le> b_size (last bs) + 8"
  shows "\<exists>h'. put_buffer_at s p h = Inr h' \<and> buf_rep h' p (put_buffer s bs)"
proof -
  obtain xs where xs: "buf_chain h xs bs" "p = last_ptr NULL xs"
    using assms(1) by (auto simp: buf_rep_def)
  obtain ys z where ys: "xs = ys @ [z]"
    using xs(1) assms(2) by (cases xs rule: rev_cases) (auto simp: buf_chain_def)
  obtain cs c where cs: "bs = cs @ [c]"
    using assms(2) by (cases bs rule: rev_cases) auto
  obtain u where u: "mem h z = Some u" "buf_of u = c"
    using xs(1) by (auto simp: ys cs buf_chain_def)
  let ?u = "u\<lparr>hb_data := hb_data u @ s\<rparr>"
  have z: "z \<notin> set ys"
    using xs(1) by (auto simp: ys buf_chain_def)
  have "map (\<lambda>x. map_option buf_of (((mem h)(z \<mapsto> ?u)) x)) ys = map (\<lambda>x. map_option buf_of (mem h x)) ys"
    using z by (intro map_cong) auto
  also have "\<dots> = map Some cs"
    using xs(1) by (simp add: ys cs buf_chain_def)
  finally have "buf_chain (put_rec z ?u h) xs (put_buffer s bs)"
    using xs(1) u z by (simp add: ys cs buf_chain_def put_buffer_def dseg_append insert_absorb) (auto simp: buf_of_def)
  moreover have "put_buffer_at s p h = Inr (put_rec z ?u h)"
    using assms(3) u xs(2) by (auto simp: put_buffer_at_def ys cs buf_of_def)
  ultimately show ?thesis
    using xs(2) by (auto simp: buf_rep_def)
qed

lemma room_at_spec:
  assumes "buf_rep h p bs" "bs \<noteq> []"
  shows "room_at p h = Inr (room bs)"
proof -
  obtain a b where "p = Some a" "mem h a = Some b" "last bs = buf_of b"
    using buf_rep_last [OF assms] by metis
  then show ?thesis
    by (simp add: room_at_def room_def buf_of_def)
qed

text \<open>Freeing: nothing is left, and nothing is freed twice.\<close>

lemma free_buffer_loop:
  "dseg (mem h) hb_prev hb_next NULL (xs @ ys) NULL \<Longrightarrow> distinct (xs @ ys) \<Longrightarrow> length xs < n \<Longrightarrow>
    \<exists>h'. free_buffer_at n (last_ptr NULL xs) h = Inr h' \<and> mem h' = mem h |` (- set xs)"
proof (induction xs arbitrary: n ys rule: rev_induct)
  case Nil
  then show ?case
    by (cases n) (auto simp: restrict_map_def)
next
  case (snoc x xs)
  obtain m where n: "n = Suc m"
    using snoc.prems(3) by (cases n) auto
  obtain b where b: "mem h x = Some b" "hb_prev b = last_ptr NULL xs"
    using snoc.prems(1) by (auto simp: dseg_append)
  obtain h' where h': "free_buffer_at m (last_ptr NULL xs) h = Inr h'" "mem h' = mem h |` (- set xs)"
    using snoc.IH [of "x # ys" m] snoc.prems n by auto
  have "x \<notin> set xs"
    using snoc.prems(2) by simp
  then have x: "mem h' x = Some b"
    using b(1) h'(2) by simp
  have "(if hb_prev b \<noteq> NULL then free_buffer_at m (hb_prev b) h else Inr h) = Inr h'"
    using h' b(2) snoc.prems(3) n by (cases m) (auto simp: last_ptr_def split: if_splits)
  then have "free_buffer_at n (last_ptr NULL (xs @ [x])) h = Inr (h'\<lparr>mem := (mem h')(x := None)\<rparr>)"
    using b(1) x by (simp add: n del: not_None_eq split del: if_split)
  then show ?case
    by (auto simp: h'(2) restrict_map_def)
qed

lemma free_buffer_spec:
  assumes "buf_rep h p bs"
  shows "\<exists>h'. free_buffer p h = Inr h' \<and> mem h' = (\<lambda>_. None)"
proof -
  obtain xs where xs: "buf_chain h xs bs" "p = last_ptr NULL xs"
    using assms by (auto simp: buf_rep_def)
  have "length xs \<le> brk h"
    using xs(1) by (intro heap_fuel) (simp_all add: buf_chain_def)
  moreover have "mem h |` (- set xs) = (\<lambda>_. None)"
    using xs(1) by (auto simp: buf_chain_def restrict_map_def fun_eq_iff)
  ultimately show ?thesis
    using free_buffer_loop [of h xs "[]" "Suc (brk h)"] xs by (auto simp: free_buffer_def buf_chain_def)
qed

text \<open>Collecting: the copy loop sees the buffers in order.\<close>

lemma copy_from_spec:
  "dseg (mem h) hb_prev hb_next p xs NULL \<Longrightarrow> map (\<lambda>x. map_option buf_of (mem h x)) xs = map Some bs \<Longrightarrow> length xs < n \<Longrightarrow>
    copy_from n cap dst (first_ptr xs NULL) h = copy_buffers cap dst bs"
proof (induction xs arbitrary: p bs n dst)
  case Nil
  then show ?case
    by (cases n) auto
next
  case (Cons x xs)
  obtain m where n: "n = Suc m"
    using Cons.prems(3) by (cases n) auto
  obtain b where b: "mem h x = Some b" "hb_next b = first_ptr xs NULL" "dseg (mem h) hb_prev hb_next (Some x) xs NULL"
    using Cons.prems(1) by auto
  obtain bs' where bs: "bs = buf_of b # bs'" "map (\<lambda>x. map_option buf_of (mem h x)) xs = map Some bs'"
    using Cons.prems(2) b(1) by (cases bs) auto
  show ?case
    using Cons.IH [OF b(3) bs(2)] Cons.prems(3) b(1,2) by (simp add: n bs(1) buf_of_def)
qed

lemma first_buffer_spec:
  "dseg (mem h) hb_prev hb_next NULL (xs @ ys) NULL \<Longrightarrow> map (\<lambda>x. map_option buf_of (mem h x)) xs = map Some bs \<Longrightarrow>
    xs \<noteq> [] \<Longrightarrow> length xs \<le> n \<Longrightarrow>
    first_buffer n (last_ptr NULL xs) len h = Inr (first_ptr xs NULL, len + sum_list (map (\<lambda>b. length (b_data b)) bs))"
proof (induction xs arbitrary: ys bs n len rule: rev_induct)
  case (snoc x xs)
  obtain m where n: "n = Suc m"
    using snoc.prems(4) by (cases n) auto
  obtain b where b: "mem h x = Some b" "hb_prev b = last_ptr NULL xs"
    using snoc.prems(1) by (auto simp: dseg_append)
  obtain cs where bs: "bs = cs @ [buf_of b]" "map (\<lambda>x. map_option buf_of (mem h x)) xs = map Some cs"
    using snoc.prems(2) b(1) by (cases bs rule: rev_cases) auto
  show ?case
  proof (cases "xs = []")
    case True
    then show ?thesis
      using b bs by (simp add: n buf_of_def)
  next
    case False
    have "last_ptr NULL xs \<noteq> NULL" "first_ptr (xs @ [x]) NULL = first_ptr xs NULL"
      using False by (cases xs; simp add: last_ptr_def)+
    moreover have "first_buffer m (last_ptr NULL xs) (len + length (hb_data b)) h =
        Inr (first_ptr xs NULL, len + length (hb_data b) + sum_list (map (\<lambda>b. length (b_data b)) cs))"
      using snoc.IH [OF _ bs(2) False] snoc.prems(1,4) by (simp add: n)
    ultimately show ?thesis
      using b bs(1) by (simp add: n buf_of_def del: not_None_eq)
  qed
qed simp

lemma collect_buffers_at_spec:
  assumes "buf_rep h p bs"
  shows "collect_buffers_at mok p h = collect_buffers mok bs"
proof (cases "bs = []")
  case True
  then show ?thesis
    using buf_rep_null [OF assms] by (simp add: collect_buffers_at_def collect_buffers_def)
next
  case False
  obtain xs where xs: "buf_chain h xs bs" "p = last_ptr NULL xs"
    using assms by (auto simp: buf_rep_def)
  have c: "dseg (mem h) hb_prev hb_next NULL xs NULL" "map (\<lambda>x. map_option buf_of (mem h x)) xs = map Some bs"
    "length xs \<le> brk h" "xs \<noteq> []"
    using xs(1) False heap_fuel [of h xs] by (auto simp: buf_chain_def)
  obtain x ys b where x: "xs = x # ys" "mem h x = Some b" "hd bs = buf_of b"
    using c by (cases xs; cases bs) auto
  have "first_buffer (Suc (brk h)) p 0 h = Inr (Some x, sum_list (map (\<lambda>b. length (b_data b)) bs))"
    using first_buffer_spec [of h xs "[]" bs "Suc (brk h)" 0] c x(1) xs(2) by simp
  moreover have "copy_from (Suc (brk h)) (hb_size b + 8) 0 (Some x) h = copy_buffers (b_size (hd bs) + 8) 0 bs"
    using copy_from_spec [OF c(1,2), of "Suc (brk h)" "hb_size b + 8" 0] c(3) x by (simp add: buf_of_def)
  ultimately show ?thesis
    using False buf_rep_null [OF assms] x(2)
    by (simp add: collect_buffers_at_def collect_buffers_def Let_def del: first_buffer.simps copy_from.simps not_None_eq)
qed

text \<open>Recording a header line: what fits goes behind the bytes of the current buffer, the rest to a new
  one.\<close>

lemma store_header_full:
  assumes rep: "buf_rep h p bs" "bs \<noteq> []" and last: "length (b_data (last bs)) \<le> b_size (last bs)"
    and full: "room bs < length bol + 1"
  defines "m \<equiv> header_space (length bol + 1 - room bs) 2048" and "bs1 \<equiv> put_buffer (take (room bs) bol) bs"
  shows "\<exists>q h'. rbind (put_buffer_at (take (room bs) bol) p h) (\<lambda>h.
      rbind (alloc_buffer_at mok m p h) (\<lambda>(q, h).
      if q = NULL then Inr (p, h) else rbind (put_buffer_at (drop (room bs) bol @ [lf]) q h) (\<lambda>h. Inr (q, h)))) = Inr (q, h') \<and>
    buf_rep h' q (case alloc_buffer mok m bs1 of None \<Rightarrow> bs1 | Some hs \<Rightarrow> put_buffer (drop (room bs) bol @ [lf]) hs)"
proof -
  have "length (b_data (last bs)) + length (take (room bs) bol) \<le> b_size (last bs) + 8"
    using last by (simp add: room_def)
  then obtain h1 where h1: "put_buffer_at (take (room bs) bol) p h = Inr h1" "buf_rep h1 p bs1"
    using put_buffer_at_spec [OF rep] unfolding bs1_def by blast
  show ?thesis
  proof (cases "alloc_buffer mok m bs1")
    case None
    then show ?thesis
      using alloc_buffer_at_spec [OF h1(2), of mok m] h1 by simp
  next
    case (Some bs2)
    then obtain a h2 where h2: "alloc_buffer_at mok m p h1 = Inr (Some a, h2)" "buf_rep h2 (Some a) bs2"
      using alloc_buffer_at_spec [OF h1(2), of mok m] by auto
    have "bs2 \<noteq> []" "b_data (last bs2) = []" "b_size (last bs2) = m"
      using Some by (auto simp: alloc_buffer_def split: if_splits)
    moreover have "length bol + 1 - room bs < m"
      unfolding m_def by (rule header_space_ge) simp
    ultimately have "bs2 \<noteq> []" "length (b_data (last bs2)) + length (drop (room bs) bol @ [lf]) \<le> b_size (last bs2) + 8"
      using full by simp_all
    then obtain h3 where "put_buffer_at (drop (room bs) bol @ [lf]) (Some a) h2 = Inr h3"
        "buf_rep h3 (Some a) (put_buffer (drop (room bs) bol @ [lf]) bs2)"
      using put_buffer_at_spec [OF h2(2)] by blast
    then show ?thesis
      using h1(1) h2(1) Some by simp
  qed
qed

lemma store_header_at_spec:
  assumes rep: "buf_rep h p bs" and ok: "list_all buffer_ok bs"
  shows "\<exists>q h'. store_header_at mok bol p h = Inr (q, h') \<and> buf_rep h' q (store_header mok bol bs)"
proof -
  define bs0 where "bs0 = (if bs = [] then (case alloc_buffer mok 1024 [] of None \<Rightarrow> [] | Some hs \<Rightarrow> hs) else bs)"
  obtain p0 h0 where start: "(if p = NULL then alloc_buffer_at mok 1024 NULL h else Inr (p, h)) = Inr (p0, h0)" "buf_rep h0 p0 bs0"
    using rep buf_rep_null [OF rep] alloc_buffer_at_spec [OF rep, of mok 1024]
    by (cases "alloc_buffer mok 1024 []") (auto simp: bs0_def split: if_splits)
  note null = buf_rep_null [OF start(2)]
  show ?thesis
  proof (cases "bs0 = [] \<or> bol = []")
    case True
    then show ?thesis
      using null start unfolding store_header_at_def store_header_def bs0_def [symmetric] Let_def by auto
  next
    case False
    have last: "length (b_data (last bs0)) \<le> b_size (last bs0)"
      using ok False by (auto simp: bs0_def alloc_buffer_def list_all_iff buffer_ok_def split: if_splits option.splits)
    have sh: "store_header mok bol bs = (if room bs0 < length bol + 1 then
        (let hs = put_buffer (take (room bs0) bol) bs0 in
         case alloc_buffer mok (header_space (length bol + 1 - room bs0) 2048) hs of
           None \<Rightarrow> hs | Some hs \<Rightarrow> put_buffer (drop (room bs0) bol @ [lf]) hs)
      else put_buffer (bol @ [lf]) bs0)"
      using False unfolding store_header_def bs0_def [symmetric] Let_def by simp
    have at: "store_header_at mok bol p h = (if room bs0 < length bol + 1 then
         rbind (put_buffer_at (take (room bs0) bol) p0 h0) (\<lambda>h.
         rbind (alloc_buffer_at mok (header_space (length bol + 1 - room bs0) 2048) p0 h) (\<lambda>(q, h).
         if q = NULL then Inr (p0, h) else rbind (put_buffer_at (drop (room bs0) bol @ [lf]) q h) (\<lambda>h. Inr (q, h))))
       else rbind (put_buffer_at (bol @ [lf]) p0 h0) (\<lambda>h. Inr (p0, h)))"
      using False null unfolding store_header_at_def start(1) rbind.simps Let_def prod.case
      by (simp add: room_at_spec [OF start(2)] del: not_None_eq)
    show ?thesis
    proof (cases "room bs0 < length bol + 1")
      case True
      then show ?thesis
        using store_header_full [OF start(2) _ last True, of mok] False by (simp add: at sh Let_def)
    next
      case fits: False
      then have "length (b_data (last bs0)) + length (bol @ [lf]) \<le> b_size (last bs0) + 8"
        using last by (simp add: room_def)
      from put_buffer_at_spec [OF start(2) _ this] show ?thesis
        using False fits by (auto simp: at sh)
    qed
  qed
qed

subsection \<open>The life of the buffers\<close>

text \<open>The header lines of a request, one after the other.\<close>

definition store_headers_at :: "(nat \<Rightarrow> bool) \<Rightarrow> string list \<Rightarrow> ptr \<times> hbuf heap \<Rightarrow> fault + ptr \<times> hbuf heap" where
  "store_headers_at mok bols s = foldr_m (\<lambda>(p, h) bol. store_header_at mok bol p h) s bols"

lemma store_headers_at_spec:
  "buf_rep h p bs \<Longrightarrow> list_all buffer_ok bs \<Longrightarrow>
    \<exists>q h'. store_headers_at mok bols (p, h) = Inr (q, h') \<and> buf_rep h' q (foldl (\<lambda>hs bol. store_header mok bol hs) bs bols)"
proof (induction bols arbitrary: p h bs)
  case (Cons bol bols)
  obtain q h1 where 1: "store_header_at mok bol p h = Inr (q, h1)" "buf_rep h1 q (store_header mok bol bs)"
    using store_header_at_spec [OF Cons.prems] by blast
  from Cons.IH [OF 1(2) store_header_ok [OF Cons.prems(2)]] 1(1) show ?case
    by (simp add: store_headers_at_def)
qed (simp add: store_headers_at_def)

text \<open>C38: The linked header buffers are the list that the parser works with: for any header lines and
  whatever allocations fail, recording them on the links never writes outside a buffer or through a
  stale pointer and gives the parser's list; collecting them gives what the parser's operation gives,
  its fault with several buffers included; and freeing from the last leaves no buffer in memory.\<close>

theorem header_buffers_refine:
  "\<exists>p h h'. store_headers_at mok bols (NULL, empty_heap) = Inr (p, h) \<and>
    buf_rep h p (foldl (\<lambda>hs bol. store_header mok bol hs) [] bols) \<and>
    collect_buffers_at mok p h = collect_buffers mok (foldl (\<lambda>hs bol. store_header mok bol hs) [] bols) \<and>
    free_buffer p h = Inr h' \<and> mem h' = (\<lambda>_. None)"
proof -
  have "buf_rep empty_heap NULL []"
    by (auto simp: buf_rep_def buf_chain_def empty_heap_def heap_ok_def intro!: exI [of _ "[]"])
  then obtain p h where "store_headers_at mok bols (NULL, empty_heap) = Inr (p, h)"
      "buf_rep h p (foldl (\<lambda>hs bol. store_header mok bol hs) [] bols)"
    using store_headers_at_spec [of empty_heap NULL "[]" mok bols] by auto
  then show ?thesis
    using collect_buffers_at_spec free_buffer_spec by blast
qed

text \<open>Whatever part of a connection was allocated, freeing it frees its buffers and closes its socket.\<close>

theorem connection_freed:
  assumes "buf_rep h (cm_headers c) bs"
  shows "\<exists>s h'. free_http_connection c h = Inr (s, h') \<and> \<not> is_open s \<and> mem h' = (\<lambda>_. None)"
proof -
  obtain h' where "free_buffer (cm_headers c) h = Inr h'" "mem h' = (\<lambda>_. None)"
    using free_buffer_spec [OF assms] by blast
  moreover have "mem h = (\<lambda>_. None)" if "cm_headers c = NULL"
    using assms that by (auto simp: buf_rep_def buf_chain_def last_ptr_def split: if_split_asm)
  ultimately show ?thesis
    by (auto simp: free_http_connection_def closesocket_def Let_def split: option.split)
qed

end
