(* ===== verification/Therver.thy ===== *)
theory Therver
  imports Heap
begin

text \<open>
  The threaded server, src/therver.c: an acceptor thread puts connections on a queue, worker
  threads take them off and run the function the server was created with.

  The threads are a step relation. A program point of a thread stands before each access to the
  state they share (the flag \<open>active\<close>, the mutex, the queue, the descriptors); a step is one such
  access, and the steps of all threads interleave in every order. Shutting down, forking and
  spurious wake-ups are steps as well.
\<close>

subsection \<open>State\<close>

text \<open>\<open>conn_t\<close> and \<open>qentry_t\<close>; the descriptor is -1 when there is none.\<close>

record 'd tconn =
  conn_s :: int
  conn_data :: "'d option"

record 'd qentry =
  q_prev :: ptr
  q_next :: ptr
  q_c :: "'d tconn"

datatype thread = Worker nat | Acceptor | Forker

text \<open>A mutex of all zeros has not been initialised.\<close>

datatype mutex = MutexZero | Unlocked | LockedBy thread

text \<open>Program points of \<open>worker_thread\<close>, with the local variable \<open>me\<close> where it matters; in
  \<open>W_Return\<close> the connection as the process function is about to leave it.\<close>

datatype 'd wpc =
    W_Loop | W_Lock | W_Test | W_Sleep | W_Check ptr | W_Take ptr | W_Unlock ptr
  | W_Serve ptr | W_Return ptr "'d tconn" | W_Close ptr | W_Exit

record 'd worker =
  w_pc :: "'d wpc"
  w_data :: "'d option"

text \<open>Program points of \<open>accept_thread_run\<close> and of \<open>add_task\<close>, which it calls.\<close>

datatype apc =
    A_Loop | A_Accept | A_Alloc int | A_Lock ptr | A_Enqueue ptr | A_Broadcast | A_Unlock
  | A_Closing | A_Reset | A_Exit

text \<open>\<open>therver_s\<close>: the sentinel \<open>root\<close> is the address of the entry inside the structure. \<open>fds\<close> are
  the descriptors of this server that are open.\<close>

record 'd therver_s =
  active :: bool
  ss :: int
  pool_mutex :: mutex
  root :: nat
  theap :: "'d qentry heap"
  workers :: "'d worker list"
  acceptor :: apc
  fds :: "int set"

text \<open>What the process function may do with a connection: run into a fault, or leave it as another
  one and close its socket, or not.\<close>

type_synonym 'd process_fn = "'d tconn \<Rightarrow> fault + 'd tconn \<times> bool \<Rightarrow> bool"

subsection \<open>The queue\<close>

text \<open>Closing a descriptor that is not open would close one that somebody else got meanwhile; it
  is reported like the use of freed memory.\<close>

definition close_fd :: "int \<Rightarrow> 'd therver_s \<Rightarrow> fault + 'd therver_s" where
  "close_fd s t = (if s \<in> fds t then Inr (t\<lparr>fds := fds t - {s}\<rparr>) else Inl (Undefined UseAfterFree))"

definition enqueue :: "ptr \<Rightarrow> 'd therver_s \<Rightarrow> fault + 'd therver_s" where
  "enqueue me t =
     rbind (deref (theap t) (Some (root t))) (\<lambda>r.
     rbind (assign (theap t) me (\<lambda>q. q\<lparr>q_next := Some (root t), q_prev := q_prev r\<rparr>)) (\<lambda>h.
     rbind (if q_prev r \<noteq> NULL then assign h (q_prev r) (\<lambda>q. q\<lparr>q_next := me\<rparr>) else Inr h) (\<lambda>h.
     rbind (assign h (Some (root t)) (\<lambda>r. r\<lparr>q_prev := me\<rparr>)) (\<lambda>h.
       Inr (t\<lparr>theap := h\<rparr>)))))"

definition dequeue :: "ptr \<Rightarrow> 'd therver_s \<Rightarrow> fault + 'd therver_s" where
  "dequeue me t =
     rbind (deref (theap t) me) (\<lambda>m.
     rbind (assign (theap t) (Some (root t)) (\<lambda>r. r\<lparr>q_next := q_next m\<rparr>)) (\<lambda>h.
     rbind (if q_next m \<noteq> NULL then assign h (q_next m) (\<lambda>q. q\<lparr>q_prev := Some (root t)\<rparr>) else Inr h) (\<lambda>h.
       Inr (t\<lparr>theap := h\<rparr>))))"

definition nothing_queued :: "ptr \<Rightarrow> 'd therver_s \<Rightarrow> bool" where
  "nothing_queued me t \<longleftrightarrow> me = NULL \<or> me = Some (root t)"

text \<open>\<open>pthread_cond_broadcast\<close>: who waits goes on to lock the mutex again.\<close>

definition wake :: "'d worker \<Rightarrow> 'd worker" where
  "wake w = (if w_pc w = W_Sleep then w\<lparr>w_pc := W_Lock\<rparr> else w)"

subsection \<open>Steps of a worker\<close>

definition goto :: "nat \<Rightarrow> 'd wpc \<Rightarrow> 'd therver_s \<Rightarrow> 'd therver_s" where
  "goto i pc t = t\<lparr>workers := (workers t)[i := (workers t ! i)\<lparr>w_pc := pc\<rparr>]\<rparr>"

definition worker_at :: "nat \<Rightarrow> 'd wpc \<Rightarrow> 'd therver_s \<Rightarrow> bool" where
  "worker_at i pc t \<longleftrightarrow> i < length (workers t) \<and> w_pc (workers t ! i) = pc"

text \<open>The entry is taken off the queue, and what the thread keeps as \<open>data\<close> is given to it after
  the mutex is released.\<close>

definition worker_hand_data :: "nat \<Rightarrow> ptr \<Rightarrow> 'd therver_s \<Rightarrow> fault + 'd therver_s" where
  "worker_hand_data i me t =
     rbind (assign (theap t) me (\<lambda>q. q\<lparr>q_c := (q_c q)\<lparr>conn_data := w_data (workers t ! i)\<rparr>\<rparr>)) (\<lambda>h.
       Inr (goto i (W_Serve me) (t\<lparr>theap := h, pool_mutex := Unlocked\<rparr>)))"

text \<open>The process function returns: the entry is as it left it, and its data is kept.\<close>

definition worker_return :: "nat \<Rightarrow> ptr \<Rightarrow> 'd tconn \<Rightarrow> 'd therver_s \<Rightarrow> fault + 'd therver_s" where
  "worker_return i me c t =
     rbind (assign (theap t) me (\<lambda>q. q\<lparr>q_c := c\<rparr>)) (\<lambda>h.
       Inr (t\<lparr>theap := h, workers := (workers t)[i := \<lparr>w_pc = W_Close me, w_data = conn_data c\<rparr>]\<rparr>))"

definition worker_close :: "nat \<Rightarrow> ptr \<Rightarrow> 'd therver_s \<Rightarrow> fault + 'd therver_s" where
  "worker_close i me t =
     rbind (deref (theap t) me) (\<lambda>q.
     rbind (if conn_s (q_c q) \<noteq> - 1 then close_fd (conn_s (q_c q)) t else Inr t) (\<lambda>t.
     rbind (free_rec me (theap t)) (\<lambda>h.
       Inr (goto i W_Loop (t\<lparr>theap := h\<rparr>)))))"

subsection \<open>Steps of the acceptor\<close>

definition accept_alloc :: "int \<Rightarrow> bool \<Rightarrow> 'd therver_s \<Rightarrow> fault + 'd therver_s" where
  "accept_alloc s ok t =
     (if ok then
        (let (a, h) = new_rec \<lparr>q_prev = NULL, q_next = NULL, q_c = \<lparr>conn_s = s, conn_data = None\<rparr>\<rparr> (theap t) in
         Inr (t\<lparr>theap := h, acceptor := A_Lock (Some a)\<rparr>))
      else rbind (close_fd s t) (\<lambda>t. Inr (t\<lparr>acceptor := A_Loop\<rparr>)))"

text \<open>At its end the acceptor closes the listening socket, then resets the field. It holds no lock,
  so the fork handler can read the field in between.\<close>

definition accept_end :: "'d therver_s \<Rightarrow> fault + 'd therver_s" where
  "accept_end t = rbind (close_fd (ss t) t) (\<lambda>t. Inr (t\<lparr>acceptor := A_Reset\<rparr>))"

definition accept_reset :: "'d therver_s \<Rightarrow> 'd therver_s" where
  "accept_reset t = t\<lparr>ss := - 1, acceptor := A_Exit\<rparr>"

subsection \<open>Shutting down and forking\<close>

definition therver_shutdown :: "'d therver_s \<Rightarrow> 'd therver_s" where
  "therver_shutdown t = t\<lparr>active := False\<rparr>"

text \<open>\<open>prefork\<close> for one server: \<open>None\<close> while the mutex is held.\<close>

definition fork_lock :: "'d therver_s \<Rightarrow> (fault + 'd therver_s) option" where
  "fork_lock t =
     (case pool_mutex t of
        MutexZero \<Rightarrow> Some (Inl (Undefined UninitRead))
      | Unlocked \<Rightarrow> Some (Inr (t\<lparr>pool_mutex := LockedBy Forker\<rparr>))
      | LockedBy _ \<Rightarrow> None)"

primrec prefork :: "'d therver_s list \<Rightarrow> (fault + 'd therver_s list) option" where
  "prefork [] = Some (Inr [])"
| "prefork (t # ts) =
     (case fork_lock t of
        None \<Rightarrow> None
      | Some (Inl f) \<Rightarrow> Some (Inl f)
      | Some (Inr t) \<Rightarrow> map_option (\<lambda>r. rbind r (\<lambda>ts. Inr (t # ts))) (prefork ts))"

definition fork_unlock :: "'d therver_s \<Rightarrow> 'd therver_s" where
  "fork_unlock t = t\<lparr>pool_mutex := Unlocked\<rparr>"

definition forked_parent :: "'d therver_s list \<Rightarrow> 'd therver_s list" where
  "forked_parent ts = map fork_unlock ts"

text \<open>In the child: the walk over the queue closes and resets the socket of each entry. The links
  stay, and each address is visited at most once, so \<open>brk\<close> bounds the walk.\<close>

fun close_queued :: "nat \<Rightarrow> ptr \<Rightarrow> 'd therver_s \<Rightarrow> fault + 'd therver_s" where
  "close_queued 0 me t = Inl OutOfFuel"
| "close_queued (Suc n) me t =
     (if nothing_queued me t then Inr t
      else
        rbind (deref (theap t) me) (\<lambda>q.
        rbind (if conn_s (q_c q) \<noteq> - 1 then close_fd (conn_s (q_c q)) t else Inr t) (\<lambda>t.
        rbind (assign (theap t) me (\<lambda>q. q\<lparr>q_c := (q_c q)\<lparr>conn_s := - 1\<rparr>\<rparr>)) (\<lambda>h.
          close_queued n (q_next q) (t\<lparr>theap := h\<rparr>)))))"

definition fork_child :: "'d therver_s \<Rightarrow> fault + 'd therver_s" where
  "fork_child t =
     (let t = t\<lparr>active := False\<rparr> in
      rbind (if ss t \<noteq> - 1 then rbind (close_fd (ss t) t) (\<lambda>t. Inr (t\<lparr>ss := - 1\<rparr>)) else Inr t) (\<lambda>t.
      rbind (deref (theap t) (Some (root t))) (\<lambda>r.
      rbind (close_queued (Suc (brk (theap t))) (q_next r) t) (\<lambda>t.
        Inr (fork_unlock t)))))"

primrec forked_child :: "'d therver_s list \<Rightarrow> fault + 'd therver_s list" where
  "forked_child [] = Inr []"
| "forked_child (t # ts) = rbind (fork_child t) (\<lambda>t. rbind (forked_child ts) (\<lambda>ts. Inr (t # ts)))"

subsection \<open>All threads\<close>

text \<open>What a step shows: a connection is accepted, put on the queue or taken off it, or its socket
  is closed.\<close>

datatype event = Tau | Accepted int | Queued int | Taken int

text \<open>The socket of an entry.\<close>

definition sock_of :: "'d therver_s \<Rightarrow> ptr \<Rightarrow> int" where
  "sock_of t me = (case me of Some a \<Rightarrow> (case mem (theap t) a of Some q \<Rightarrow> conn_s (q_c q) | None \<Rightarrow> - 1) | None \<Rightarrow> - 1)"

inductive step :: "'d process_fn \<Rightarrow> 'd therver_s \<Rightarrow> event \<Rightarrow> fault + 'd therver_s \<Rightarrow> bool" for process where
  w_loop: "worker_at i W_Loop t \<Longrightarrow> step process t Tau (Inr (goto i (if active t then W_Lock else W_Exit) t))"
| w_lock: "worker_at i W_Lock t \<Longrightarrow> pool_mutex t = Unlocked \<Longrightarrow>
    step process t Tau (Inr (goto i W_Test (t\<lparr>pool_mutex := LockedBy (Worker i)\<rparr>)))"
| w_wait: "worker_at i W_Test t \<Longrightarrow> active t \<Longrightarrow> deref (theap t) (Some (root t)) = Inr r \<Longrightarrow> nothing_queued (q_next r) t \<Longrightarrow>
    step process t Tau (Inr (goto i W_Sleep (t\<lparr>pool_mutex := Unlocked\<rparr>)))"
| w_found: "worker_at i W_Test t \<Longrightarrow> active t \<Longrightarrow> deref (theap t) (Some (root t)) = Inr r \<Longrightarrow> \<not> nothing_queued (q_next r) t \<Longrightarrow>
    step process t Tau (Inr (goto i (W_Check (q_next r)) t))"
| w_stop: "worker_at i W_Test t \<Longrightarrow> \<not> active t \<Longrightarrow> step process t Tau (Inr (goto i (W_Check NULL) t))"
| w_spurious: "worker_at i W_Sleep t \<Longrightarrow> step process t Tau (Inr (goto i W_Lock t))"
| w_check: "worker_at i (W_Check me) t \<Longrightarrow> active t \<Longrightarrow> step process t Tau (Inr (goto i (W_Take me) t))"
| w_leave: "worker_at i (W_Check me) t \<Longrightarrow> \<not> active t \<Longrightarrow>
    step process t Tau (Inr (goto i W_Exit (t\<lparr>pool_mutex := Unlocked\<rparr>)))"
| w_take: "worker_at i (W_Take me) t \<Longrightarrow>
    step process t (Taken (sock_of t me)) (rbind (dequeue me t) (\<lambda>t. Inr (goto i (W_Unlock me) t)))"
| w_unlock: "worker_at i (W_Unlock me) t \<Longrightarrow> step process t Tau (worker_hand_data i me t)"
| w_serve: "worker_at i (W_Serve me) t \<Longrightarrow> deref (theap t) me = Inr q \<Longrightarrow> process (q_c q) (Inr (c, closed)) \<Longrightarrow>
    step process t Tau (rbind (if closed then close_fd (conn_s (q_c q)) t else Inr t) (\<lambda>t. Inr (goto i (W_Return me c) t)))"
| w_crash: "worker_at i (W_Serve me) t \<Longrightarrow> deref (theap t) me = Inr q \<Longrightarrow> process (q_c q) (Inl f) \<Longrightarrow> step process t Tau (Inl f)"
| w_return: "worker_at i (W_Return me c) t \<Longrightarrow> step process t Tau (worker_return i me c t)"
| w_close: "worker_at i (W_Close me) t \<Longrightarrow> step process t Tau (worker_close i me t)"
| w_null: "worker_at i W_Test t \<Longrightarrow> active t \<Longrightarrow> deref (theap t) (Some (root t)) = Inl f \<Longrightarrow> step process t Tau (Inl f)"
| w_wild: "worker_at i (W_Serve me) t \<Longrightarrow> deref (theap t) me = Inl f \<Longrightarrow> step process t Tau (Inl f)"
| a_loop: "acceptor t = A_Loop \<Longrightarrow> step process t Tau (Inr (t\<lparr>acceptor := if active t then A_Accept else A_Closing\<rparr>))"
| a_fail: "acceptor t = A_Accept \<Longrightarrow> step process t Tau (Inr (t\<lparr>acceptor := A_Loop\<rparr>))"
| a_accept: "acceptor t = A_Accept \<Longrightarrow> ss t \<in> fds t \<Longrightarrow> 0 \<le> s \<Longrightarrow> s \<notin> fds t \<Longrightarrow>
    step process t (Accepted s) (Inr (t\<lparr>fds := insert s (fds t), acceptor := A_Alloc s\<rparr>))"
| a_alloc: "acceptor t = A_Alloc s \<Longrightarrow> step process t Tau (accept_alloc s ok t)"
| a_lock: "acceptor t = A_Lock me \<Longrightarrow> pool_mutex t = Unlocked \<Longrightarrow>
    step process t Tau (Inr (t\<lparr>pool_mutex := LockedBy Acceptor, acceptor := A_Enqueue me\<rparr>))"
| a_enqueue: "acceptor t = A_Enqueue me \<Longrightarrow>
    step process t (Queued (sock_of t me)) (rbind (enqueue me t) (\<lambda>t. Inr (t\<lparr>acceptor := A_Broadcast\<rparr>)))"
| a_broadcast: "acceptor t = A_Broadcast \<Longrightarrow> step process t Tau (Inr (t\<lparr>workers := map wake (workers t), acceptor := A_Unlock\<rparr>))"
| a_unlock: "acceptor t = A_Unlock \<Longrightarrow> step process t Tau (Inr (t\<lparr>pool_mutex := Unlocked, acceptor := A_Loop\<rparr>))"
| a_end: "acceptor t = A_Closing \<Longrightarrow> step process t Tau (accept_end t)"
| a_reset: "acceptor t = A_Reset \<Longrightarrow> step process t Tau (Inr (accept_reset t))"
| shutdown: "step process t Tau (Inr (therver_shutdown t))"
| fork: "fork_lock t = Some r \<Longrightarrow> step process t Tau r"
| parent: "pool_mutex t = LockedBy Forker \<Longrightarrow> step process t Tau (Inr (fork_unlock t))"

text \<open>Runs, with what they show.\<close>

inductive run :: "'d process_fn \<Rightarrow> 'd therver_s \<Rightarrow> event list \<Rightarrow> 'd therver_s \<Rightarrow> bool" for process where
  run_refl: "run process t [] t"
| run_step: "run process t es u \<Longrightarrow> step process u e (Inr v) \<Longrightarrow> run process t (es @ [e]) v"

text \<open>The sockets that a run put on the queue and took off it, in order.\<close>

definition queued :: "event list \<Rightarrow> int list" where
  "queued es = concat (map (\<lambda>e. case e of Queued s \<Rightarrow> [s] | _ \<Rightarrow> []) es)"

definition taken :: "event list \<Rightarrow> int list" where
  "taken es = concat (map (\<lambda>e. case e of Taken s \<Rightarrow> [s] | _ \<Rightarrow> []) es)"

subsection \<open>Starting a server\<close>

text \<open>What the system answers to \<open>therver\<close>: whether memory can be had, the new socket (or -1),
  whether a host is an address or has one by name, whether \<open>bind\<close> and \<open>listen\<close> succeed, and which
  threads can be created.\<close>

record server_env =
  env_calloc :: bool
  env_socket :: int
  env_parses :: "string \<Rightarrow> bool"
  env_resolves :: "string \<Rightarrow> bool"
  env_bound :: bool
  env_malloc :: bool
  env_spawned :: "nat \<Rightarrow> bool"
  env_acceptor :: bool

text \<open>The structure with all bytes zero, and after \<open>start_threads\<close>. Creating a thread may fail
  without notice.\<close>

definition new_therver :: "int \<Rightarrow> 'd therver_s" where
  "new_therver s =
     (let (a, h) = new_rec \<lparr>q_prev = NULL, q_next = NULL, q_c = \<lparr>conn_s = 0, conn_data = None\<rparr>\<rparr> empty_heap in
      \<lparr>active = True, ss = s, pool_mutex = MutexZero, root = a, theap = h, workers = [], acceptor = A_Exit, fds = {s}\<rparr>)"

definition start_threads :: "server_env \<Rightarrow> nat \<Rightarrow> 'd therver_s \<Rightarrow> int \<times> 'd therver_s" where
  "start_threads env n t =
     (let me = Some (root t); t = t\<lparr>theap := put_rec (root t) \<lparr>q_prev = me, q_next = me, q_c = \<lparr>conn_s = - 1, conn_data = None\<rparr>\<rparr> (theap t)\<rparr> in
      if \<not> env_malloc env then (- 1, t)
      else (0, t\<lparr>pool_mutex := Unlocked,
                 workers := map (\<lambda>i. \<lparr>w_pc = if env_spawned env i then W_Loop else W_Exit, w_data = None\<rparr>) [0..<n],
                 acceptor := if env_acceptor env then A_Loop else A_Exit\<rparr>))"

text \<open>\<open>therver\<close> appends to the list of all servers (for \<open>fork\<close>); the result is the place of the
  new one there. Nothing stops at a failed \<open>gethostbyname\<close>.\<close>

definition therver :: "server_env \<Rightarrow> string option \<Rightarrow> nat \<Rightarrow> 'd therver_s list \<Rightarrow> fault + nat option \<times> 'd therver_s list" where
  "therver env host n ts =
     (if \<not> env_calloc env then Inr (None, ts)
      else if (case host of Some h \<Rightarrow> \<not> env_parses env h \<and> \<not> env_resolves env h | None \<Rightarrow> False) then Inl (Undefined NullDeref)
      else if env_socket env = - 1 \<or> \<not> env_bound env then Inr (None, ts)
      else
        (case start_threads env n (new_therver (env_socket env)) of (r, t) \<Rightarrow>
           if r \<noteq> 0 then Inr (None, ts @ [t\<lparr>fds := fds t - {ss t}, active := False, ss := - 1\<rparr>])
           else Inr (Some (length ts), ts @ [t])))"

end
