(* ===== verification/TherverSafe.thy ===== *)
theory TherverSafe
  imports Therver "HOL-Library.Multiset"
begin

text \<open>
  What holds in every interleaving of the threads of src/therver.c: the queue is a well-formed
  chain, every entry in memory and every open descriptor has exactly one owner, and the mutex is
  held by the thread in the critical section. The locale \<open>process_contract\<close> is what the
  server relies on in the process function it is given.
\<close>

subsection \<open>Who holds what\<close>

text \<open>The queue between the sentinel's links is the list of addresses \<open>qs\<close>.\<close>

definition queue_ok :: "'d therver_s \<Rightarrow> nat list \<Rightarrow> bool" where
  "queue_ok t qs \<longleftrightarrow> heap_ok (theap t) \<and> distinct (root t # qs) \<and>
     dseg (mem (theap t)) q_prev q_next (Some (root t)) qs (Some (root t)) \<and>
     (\<exists>r. mem (theap t) (root t) = Some r \<and> q_next r = first_ptr qs (Some (root t)) \<and> q_prev r = last_ptr (Some (root t)) qs)"

definition addrs :: "ptr \<Rightarrow> nat list" where
  "addrs p = (case p of None \<Rightarrow> [] | Some a \<Rightarrow> [a])"

definition fd_list :: "int \<Rightarrow> int list" where
  "fd_list s = (if s = - 1 then [] else [s])"

definition esock :: "'d qentry heap \<Rightarrow> nat \<Rightarrow> int" where
  "esock h a = conn_s (q_c (the (mem h a)))"

lemma addrs_simps [simp]: "addrs None = []" "addrs (Some a) = [a]"
  by (simp_all add: addrs_def)

lemma fd_list_simps [simp]: "fd_list (- 1) = []" "s \<noteq> - 1 \<Longrightarrow> fd_list s = [s]"
  by (simp_all add: fd_list_def)

text \<open>The entries and the open sockets that belong to a thread at a program point.\<close>

fun w_ents :: "'d wpc \<Rightarrow> nat list" where
  "w_ents (W_Unlock p) = addrs p"
| "w_ents (W_Serve p) = addrs p"
| "w_ents (W_Return p c) = addrs p"
| "w_ents (W_Close p) = addrs p"
| "w_ents _ = []"

fun w_socks :: "(nat \<Rightarrow> int) \<Rightarrow> 'd wpc \<Rightarrow> int list" where
  "w_socks sk (W_Return p c) = fd_list (conn_s c)"
| "w_socks sk pc = concat (map (\<lambda>a. fd_list (sk a)) (w_ents pc))"

fun a_ents :: "apc \<Rightarrow> nat list" where
  "a_ents (A_Lock p) = addrs p"
| "a_ents (A_Enqueue p) = addrs p"
| "a_ents _ = []"

fun a_socks :: "(nat \<Rightarrow> int) \<Rightarrow> apc \<Rightarrow> int list" where
  "a_socks sk (A_Alloc s) = fd_list s"
| "a_socks sk pc = concat (map (\<lambda>a. fd_list (sk a)) (a_ents pc))"

text \<open>The listening socket, as long as it is open: the acceptor closes it before it resets the field.\<close>

definition lfd :: "apc \<Rightarrow> int \<Rightarrow> int" where
  "lfd ac s = (if ac = A_Reset then - 1 else s)"

lemma lfd_simps [simp]: "lfd A_Reset s = - 1" "ac \<noteq> A_Reset \<Longrightarrow> lfd ac s = s"
  by (simp_all add: lfd_def)

definition wsum :: "('d wpc \<Rightarrow> 'a list) \<Rightarrow> 'd worker list \<Rightarrow> 'a multiset" where
  "wsum f ws = (\<Sum>w\<leftarrow>ws. mset (f (w_pc w)))"

text \<open>Every entry has one owner, and there are no others in memory.\<close>

definition mem_ok :: "'d therver_s \<Rightarrow> nat list \<Rightarrow> bool" where
  "mem_ok t qs \<longleftrightarrow> finite (dom (mem (theap t))) \<and>
     mset (root t # qs) + wsum w_ents (workers t) + mset (a_ents (acceptor t)) = mset_set (dom (mem (theap t)))"

text \<open>Every open socket has one owner, and no other descriptor is open.\<close>

definition held :: "'d therver_s \<Rightarrow> nat list \<Rightarrow> int multiset" where
  "held t qs = (let sk = esock (theap t) in
     mset (map sk qs) + wsum (w_socks sk) (workers t) + mset (a_socks sk (acceptor t)) + mset (fd_list (lfd (acceptor t) (ss t))))"

definition fds_ok :: "'d therver_s \<Rightarrow> nat list \<Rightarrow> bool" where
  "fds_ok t qs \<longleftrightarrow> finite (fds t) \<and> held t qs = mset_set (fds t)"

text \<open>Inside the critical section.\<close>

fun w_crit :: "'d wpc \<Rightarrow> bool" where
  "w_crit W_Test = True"
| "w_crit (W_Check p) = True"
| "w_crit (W_Take p) = True"
| "w_crit (W_Unlock p) = True"
| "w_crit _ = False"

fun a_crit :: "apc \<Rightarrow> bool" where
  "a_crit (A_Enqueue p) = True"
| "a_crit A_Broadcast = True"
| "a_crit A_Unlock = True"
| "a_crit _ = False"

text \<open>What holds of the locals at a program point.\<close>

fun w_local :: "bool \<Rightarrow> nat list \<Rightarrow> apc \<Rightarrow> (nat \<Rightarrow> int) \<Rightarrow> 'd wpc \<Rightarrow> bool" where
  "w_local act qs ac sk W_Sleep = (qs = [] \<or> ac = A_Broadcast)"
| "w_local act qs ac sk (W_Check p) = (act \<longrightarrow> qs \<noteq> [] \<and> p = Some (hd qs))"
| "w_local act qs ac sk (W_Take p) = (qs \<noteq> [] \<and> p = Some (hd qs))"
| "w_local act qs ac sk (W_Unlock p) = (\<exists>a. p = Some a \<and> sk a \<noteq> - 1)"
| "w_local act qs ac sk (W_Serve p) = (\<exists>a. p = Some a \<and> sk a \<noteq> - 1)"
| "w_local act qs ac sk (W_Return p c) = (p \<noteq> NULL)"
| "w_local act qs ac sk (W_Close p) = (p \<noteq> NULL)"
| "w_local act qs ac sk _ = True"

fun a_local :: "int \<Rightarrow> (nat \<Rightarrow> int) \<Rightarrow> apc \<Rightarrow> bool" where
  "a_local s sk (A_Alloc c) = (s \<noteq> - 1 \<and> c \<noteq> - 1)"
| "a_local s sk (A_Lock p) = (s \<noteq> - 1 \<and> (\<exists>a. p = Some a \<and> sk a \<noteq> - 1))"
| "a_local s sk (A_Enqueue p) = (s \<noteq> - 1 \<and> (\<exists>a. p = Some a \<and> sk a \<noteq> - 1))"
| "a_local s sk A_Exit = True"
| "a_local s sk _ = (s \<noteq> - 1)"

definition locals_ok :: "'d therver_s \<Rightarrow> nat list \<Rightarrow> bool" where
  "locals_ok t qs \<longleftrightarrow> (let sk = esock (theap t) in
     (\<forall>i<length (workers t). w_local (active t) qs (acceptor t) sk (w_pc (workers t ! i))) \<and>
     a_local (ss t) sk (acceptor t) \<and> (\<forall>a\<in>set qs. sk a \<noteq> - 1))"

text \<open>The mutex is held by the thread that is in the critical section.\<close>

definition lock_ok :: "'d therver_s \<Rightarrow> bool" where
  "lock_ok t \<longleftrightarrow> pool_mutex t \<noteq> MutexZero \<and> (a_crit (acceptor t) \<longleftrightarrow> pool_mutex t = LockedBy Acceptor) \<and>
     (\<forall>i. pool_mutex t = LockedBy (Worker i) \<longleftrightarrow> i < length (workers t) \<and> w_crit (w_pc (workers t ! i)))"

definition therver_ok :: "'d therver_s \<Rightarrow> nat list \<Rightarrow> bool" where
  "therver_ok t qs \<longleftrightarrow> queue_ok t qs \<and> mem_ok t qs \<and> fds_ok t qs \<and> locals_ok t qs \<and> lock_ok t"

lemma wsum_update:
  assumes "i < length ws"
  shows "\<exists>R. wsum f ws = mset (f (w_pc (ws ! i))) + R \<and>
    (\<forall>g x. (\<forall>j<length ws. j \<noteq> i \<longrightarrow> g (w_pc (ws ! j)) = f (w_pc (ws ! j))) \<longrightarrow> wsum g (ws[i := x]) = mset (g (w_pc x)) + R)"
proof -
  have ws: "ws = take i ws @ ws ! i # drop (Suc i) ws"
    using assms by (rule id_take_nth_drop)
  let ?R = "wsum f (take i ws) + wsum f (drop (Suc i) ws)"
  have "wsum f ws = mset (f (w_pc (ws ! i))) + ?R"
    using arg_cong [OF ws, of "wsum f"] by (simp add: wsum_def)
  moreover have "wsum g (ws[i := x]) = mset (g (w_pc x)) + ?R"
    if g: "\<forall>j<length ws. j \<noteq> i \<longrightarrow> g (w_pc (ws ! j)) = f (w_pc (ws ! j))" for g x
  proof -
    have "wsum g (take i ws) = wsum f (take i ws)" "wsum g (drop (Suc i) ws) = wsum f (drop (Suc i) ws)"
      unfolding wsum_def using g assms by (auto intro!: arg_cong [where f = sum_list] simp: in_set_conv_nth)
    then show ?thesis
      using assms by (simp add: upd_conv_take_nth_drop wsum_def)
  qed
  ultimately show ?thesis
    by blast
qed

lemma wsum_same: "i < length ws \<Longrightarrow> f (w_pc x) = f (w_pc (ws ! i)) \<Longrightarrow> wsum f (ws[i := x]) = wsum f ws"
  using wsum_update [of i ws f] by auto

lemma wsum_member: "i < length ws \<Longrightarrow> a \<in> set (f (w_pc (ws ! i))) \<Longrightarrow> a \<in># wsum f ws"
  using wsum_update [of i ws f] by auto

subsection \<open>Steps that only move a thread\<close>

lemmas ok_defs = therver_ok_def mem_ok_def fds_ok_def held_def locals_ok_def lock_ok_def Let_def

lemma goto_simps [simp]:
  "active (goto i pc t) = active t" "ss (goto i pc t) = ss t" "pool_mutex (goto i pc t) = pool_mutex t"
  "root (goto i pc t) = root t" "theap (goto i pc t) = theap t" "acceptor (goto i pc t) = acceptor t"
  "fds (goto i pc t) = fds t" "workers (goto i pc t) = (workers t)[i := (workers t ! i)\<lparr>w_pc := pc\<rparr>]"
  by (simp_all add: goto_def)

lemma queue_ok_cong: "theap t' = theap t \<Longrightarrow> root t' = root t \<Longrightarrow> queue_ok t' qs = queue_ok t qs"
  by (simp add: queue_ok_def)

text \<open>The mutex after a step of a worker to a new program point.\<close>

definition mutex_after :: "nat \<Rightarrow> 'd wpc \<Rightarrow> 'd wpc \<Rightarrow> mutex \<Rightarrow> mutex" where
  "mutex_after i pc pc' M = (if w_crit pc' then LockedBy (Worker i) else if w_crit pc then Unlocked else M)"

lemma lock_moves:
  assumes lk: "lock_ok t" and at: "worker_at i pc t" and free: "w_crit (w_pc w) \<Longrightarrow> w_crit pc \<or> pool_mutex t = Unlocked"
    and t': "workers t' = (workers t)[i := w]" "acceptor t' = acceptor t" "pool_mutex t' = mutex_after i pc (w_pc w) (pool_mutex t)"
  shows "lock_ok t'"
proof -
  let ?M = "mutex_after i pc (w_pc w) (pool_mutex t)"
  have i: "i < length (workers t)" "w_pc (workers t ! i) = pc"
    using at by (simp_all add: worker_at_def)
  have lk: "pool_mutex t \<noteq> MutexZero" "a_crit (acceptor t) \<longleftrightarrow> pool_mutex t = LockedBy Acceptor"
    "\<And>j. pool_mutex t = LockedBy (Worker j) \<longleftrightarrow> j < length (workers t) \<and> w_crit (w_pc (workers t ! j))"
    using lk by (simp_all add: lock_ok_def)
  have "?M = LockedBy (Worker j) \<longleftrightarrow> j < length (workers t') \<and> w_crit (w_pc (workers t' ! j))" for j
  proof (cases "j = i")
    case True
    then show ?thesis
      using i lk(3) [of i] by (simp add: mutex_after_def t'(1))
  next
    case False
    then show ?thesis
      using i lk(3) [of i] lk(3) [of j] free by (cases "w_crit pc") (auto simp: mutex_after_def t'(1))
  qed
  moreover have "a_crit (acceptor t) \<longleftrightarrow> ?M = LockedBy Acceptor"
    using i lk(2) lk(3) [of i] free by (cases "w_crit pc") (auto simp: mutex_after_def)
  ultimately show ?thesis
    using lk(1) by (simp add: lock_ok_def t'(2,3)) (simp add: mutex_after_def)
qed

lemma goto_ok:
  assumes ok: "therver_ok t qs" and at: "worker_at i pc t"
    and same: "w_ents pc' = w_ents pc" "w_socks (esock (theap t)) pc' = w_socks (esock (theap t)) pc"
    and loc: "w_local (active t) qs (acceptor t) (esock (theap t)) pc'"
    and M: "M = mutex_after i pc pc' (pool_mutex t)" and free: "w_crit pc' \<Longrightarrow> w_crit pc \<or> pool_mutex t = Unlocked"
  shows "therver_ok (goto i pc' (t\<lparr>pool_mutex := M\<rparr>)) qs"
proof -
  have i: "i < length (workers t)" "w_pc (workers t ! i) = pc"
    using at by (simp_all add: worker_at_def)
  let ?ws = "(workers t)[i := (workers t ! i)\<lparr>w_pc := pc'\<rparr>]"
  have sums: "wsum w_ents ?ws = wsum w_ents (workers t)"
    "wsum (w_socks (esock (theap t))) ?ws = wsum (w_socks (esock (theap t))) (workers t)"
    using i same by (simp_all add: wsum_same)
  have "lock_ok (goto i pc' (t\<lparr>pool_mutex := M\<rparr>))"
    by (rule lock_moves [OF _ at, of "(workers t ! i)\<lparr>w_pc := pc'\<rparr>"]) (use ok free in \<open>simp_all add: therver_ok_def M\<close>)
  moreover have "locals_ok (goto i pc' (t\<lparr>pool_mutex := M\<rparr>)) qs"
    using ok i loc by (auto simp: ok_defs nth_list_update)
  ultimately show ?thesis
    using ok sums queue_ok_cong [of "goto i pc' (t\<lparr>pool_mutex := M\<rparr>)" t qs] by (simp add: ok_defs)
qed

subsection \<open>Steps on the entry that a worker owns\<close>

lemma w_socks_cong: "(\<And>a. a \<in> set (w_ents pc) \<Longrightarrow> sk' a = sk a) \<Longrightarrow> w_socks sk' pc = w_socks sk pc"
  by (cases pc) (simp_all add: addrs_def split: option.splits)

lemma w_local_cong: "(\<And>a. a \<in> set (w_ents pc) \<Longrightarrow> sk' a = sk a) \<Longrightarrow> w_local act qs ac sk' pc = w_local act qs ac sk pc"
  by (cases pc) auto

lemma a_socks_cong: "(\<And>a. a \<in> set (a_ents ac) \<Longrightarrow> sk' a = sk a) \<Longrightarrow> a_socks sk' ac = a_socks sk ac"
  by (cases ac) (simp_all add: addrs_def split: option.splits)

lemma a_local_cong: "(\<And>a. a \<in> set (a_ents ac) \<Longrightarrow> sk' a = sk a) \<Longrightarrow> a_local s sk' ac = a_local s sk ac"
  by (cases ac) auto

lemma w_ents_one: "a \<in> set (w_ents pc) \<Longrightarrow> w_ents pc = [a]"
  by (cases pc) (auto simp: addrs_def split: option.splits)

lemma count_one: "finite A \<Longrightarrow> M = mset_set A \<Longrightarrow> count M a \<le> 1"
  by (simp add: count_mset_set')

lemma count_rest: "count (A + ({#a#} + R) + B) a \<le> 1 \<Longrightarrow> a \<notin># A \<and> a \<notin># R \<and> a \<notin># B"
  by (simp add: not_in_iff)

lemma owner_unique:
  assumes ok: "mem_ok t qs" and at: "worker_at i pc t" and a: "a \<in> set (w_ents pc)"
  shows "a \<noteq> root t" "a \<notin> set qs" "a \<notin> set (a_ents (acceptor t))" "a \<in> dom (mem (theap t))"
    "\<And>j. j < length (workers t) \<Longrightarrow> j \<noteq> i \<Longrightarrow> a \<notin> set (w_ents (w_pc (workers t ! j)))"
proof -
  have i: "i < length (workers t)" "w_pc (workers t ! i) = pc"
    using at by (simp_all add: worker_at_def)
  obtain R where R: "wsum w_ents (workers t) = mset (w_ents pc) + R"
    "\<And>x. wsum w_ents ((workers t)[i := x]) = mset (w_ents (w_pc x)) + R"
    using wsum_update [OF i(1), of w_ents] i(2) by auto
  have "count (mset (root t # qs) + ({#a#} + R) + mset (a_ents (acceptor t))) a \<le> 1"
    using ok w_ents_one [OF a] by (intro count_one [of "dom (mem (theap t))"]) (auto simp: mem_ok_def R(1))
  note rest = count_rest [OF this]
  then show "a \<noteq> root t" "a \<notin> set qs" "a \<notin> set (a_ents (acceptor t))"
    by auto
  have "a \<in># mset (root t # qs) + wsum w_ents (workers t) + mset (a_ents (acceptor t))"
    using a by (simp add: R(1))
  moreover have "finite (dom (mem (theap t)))"
    "mset (root t # qs) + wsum w_ents (workers t) + mset (a_ents (acceptor t)) = mset_set (dom (mem (theap t)))"
    using ok by (simp_all add: mem_ok_def)
  ultimately show "a \<in> dom (mem (theap t))"
    by (simp del: mset.simps)
  fix j assume j: "j < length (workers t)" "j \<noteq> i"
  have "a \<notin># wsum w_ents ((workers t)[i := \<lparr>w_pc = W_Loop, w_data = None\<rparr>])"
    using rest by (simp add: R(2))
  then show "a \<notin> set (w_ents (w_pc (workers t ! j)))"
    using j wsum_member [of j "(workers t)[i := \<lparr>w_pc = W_Loop, w_data = None\<rparr>]" a w_ents] by auto
qed

subsection \<open>The queue operations\<close>

lemma assign_field:
  assumes "mem h a = Some q" "q_c (f q) = q_c q"
  shows "assign h (Some a) f = Inr (put_rec a (f q) h)" "esock (put_rec a (f q) h) = esock h"
    "dom (mem (put_rec a (f q) h)) = dom (mem h)" "heap_ok h \<Longrightarrow> heap_ok (put_rec a (f q) h)"
  using assms by (auto simp: esock_def)

lemma dequeue_ok:
  assumes "queue_ok t (a # qs)"
  shows "\<exists>h. dequeue (Some a) t = Inr (t\<lparr>theap := h\<rparr>) \<and> queue_ok (t\<lparr>theap := h\<rparr>) qs \<and>
    dom (mem h) = dom (mem (theap t)) \<and> esock h = esock (theap t)"
proof -
  obtain r v where r: "mem (theap t) (root t) = Some r" and v: "mem (theap t) a = Some v" "q_next v = first_ptr qs (Some (root t))"
    and t: "heap_ok (theap t)" "distinct (root t # a # qs)" "q_prev r = last_ptr (Some (root t)) (a # qs)"
      "dseg (mem (theap t)) q_prev q_next (Some a) qs (Some (root t))"
    using assms by (auto simp: queue_ok_def)
  let ?r = "r\<lparr>q_next := q_next v\<rparr>"
  let ?h = "put_rec (root t) ?r (theap t)"
  have h: "assign (theap t) (Some (root t)) (\<lambda>r. r\<lparr>q_next := q_next v\<rparr>) = Inr ?h" "esock ?h = esock (theap t)"
      "dom (mem ?h) = dom (mem (theap t))" "heap_ok ?h"
    using assign_field [OF r, of "\<lambda>r. r\<lparr>q_next := q_next v\<rparr>"] t(1) by simp_all
  show ?thesis
  proof (cases qs)
    case Nil
    let ?h' = "put_rec (root t) (?r\<lparr>q_prev := Some (root t)\<rparr>) ?h"
    have h': "assign ?h (Some (root t)) (\<lambda>q. q\<lparr>q_prev := Some (root t)\<rparr>) = Inr ?h'" "esock ?h' = esock ?h"
        "dom (mem ?h') = dom (mem ?h)" "heap_ok ?h'"
      using assign_field [of ?h "root t" ?r "\<lambda>q. q\<lparr>q_prev := Some (root t)\<rparr>"] h(4) by simp_all
    have "dequeue (Some a) t = Inr (t\<lparr>theap := ?h'\<rparr>)"
      using h(1) h'(1) v Nil by (simp add: dequeue_def)
    moreover have "queue_ok (t\<lparr>theap := ?h'\<rparr>) qs"
      using h'(4) Nil v(2) by (auto simp: queue_ok_def)
    ultimately show ?thesis
      using h(2,3) h'(2,3) by (intro exI [of _ ?h']) simp
  next
    case (Cons b bs)
    obtain w where w: "mem (theap t) b = Some w" "q_next w = first_ptr bs (Some (root t))"
        "dseg (mem (theap t)) q_prev q_next (Some b) bs (Some (root t))"
      using t(4) Cons by auto
    let ?h' = "put_rec b (w\<lparr>q_prev := Some (root t)\<rparr>) ?h"
    have b: "mem ?h b = Some w"
      using t(2) w(1) Cons by auto
    have h': "assign ?h (Some b) (\<lambda>q. q\<lparr>q_prev := Some (root t)\<rparr>) = Inr ?h'" "esock ?h' = esock ?h"
        "dom (mem ?h') = dom (mem ?h)" "heap_ok ?h'"
      using assign_field [OF b, of "\<lambda>q. q\<lparr>q_prev := Some (root t)\<rparr>"] h(4) by simp_all
    have "dequeue (Some a) t = Inr (t\<lparr>theap := ?h'\<rparr>)"
      using h(1) h'(1) v Cons by (simp add: dequeue_def)
    moreover have "queue_ok (t\<lparr>theap := ?h'\<rparr>) qs"
      using h'(4) Cons v(2) w t(2,3) by (auto simp: queue_ok_def)
    ultimately show ?thesis
      using h(2,3) h'(2,3) by (intro exI [of _ ?h']) simp
  qed
qed

lemma last_ptr_pair [simp]: "last_ptr p (xs @ [x, y]) = Some y"
  by (simp add: last_ptr_def)

lemma enqueue_ok:
  assumes q: "queue_ok t qs" and a: "a \<noteq> root t" "a \<notin> set qs" "mem (theap t) a = Some q"
  shows "\<exists>h. enqueue (Some a) t = Inr (t\<lparr>theap := h\<rparr>) \<and> queue_ok (t\<lparr>theap := h\<rparr>) (qs @ [a]) \<and>
    dom (mem h) = dom (mem (theap t)) \<and> esock h = esock (theap t)"
proof -
  obtain r where r: "mem (theap t) (root t) = Some r" "q_next r = first_ptr qs (Some (root t))" "q_prev r = last_ptr (Some (root t)) qs"
    and t: "heap_ok (theap t)" "distinct (root t # qs)" "dseg (mem (theap t)) q_prev q_next (Some (root t)) qs (Some (root t))"
    using q by (auto simp: queue_ok_def)
  let ?f = "\<lambda>q. q\<lparr>q_next := Some (root t), q_prev := q_prev r\<rparr>"
  let ?h1 = "put_rec a (?f q) (theap t)"
  have h1: "assign (theap t) (Some a) ?f = Inr ?h1" "esock ?h1 = esock (theap t)" "dom (mem ?h1) = dom (mem (theap t))" "heap_ok ?h1"
    using assign_field [OF a(3), of ?f] t(1) by simp_all
  obtain z v where z: "q_prev r = Some z" "mem ?h1 z = Some v" "z \<noteq> a" "z = root t \<and> qs = [] \<and> v = r \<or> (\<exists>ys. qs = ys @ [z])"
    using r a t(2,3) by (cases qs rule: rev_cases) (auto simp: dseg_append)
  let ?g = "\<lambda>q. q\<lparr>q_next := Some a\<rparr>"
  let ?h2 = "put_rec z (?g v) ?h1"
  have h2: "assign ?h1 (Some z) ?g = Inr ?h2" "esock ?h2 = esock ?h1" "dom (mem ?h2) = dom (mem ?h1)" "heap_ok ?h2"
    using assign_field [OF z(2), of ?g] h1(4) by simp_all
  obtain r' where r': "mem ?h2 (root t) = Some r'" "r' = (if qs = [] then ?g r else r)"
    using z r(1) a(1) t(2) by auto
  let ?k = "\<lambda>q. q\<lparr>q_prev := Some a\<rparr>"
  let ?h3 = "put_rec (root t) (?k r') ?h2"
  have h3: "assign ?h2 (Some (root t)) ?k = Inr ?h3" "esock ?h3 = esock ?h2" "dom (mem ?h3) = dom (mem ?h2)" "heap_ok ?h3"
    using assign_field [OF r'(1), of ?k] h2(4) by simp_all
  have "enqueue (Some a) t = Inr (t\<lparr>theap := ?h3\<rparr>)"
    using r(1) h1(1) h2(1) h3(1) z(1) by (simp add: enqueue_def)
  moreover have "queue_ok (t\<lparr>theap := ?h3\<rparr>) (qs @ [a])"
  proof (cases qs rule: rev_cases)
    case Nil
    then show ?thesis
      using h3(4) z r' a r by (auto simp: queue_ok_def)
  next
    case (snoc ys y)
    then show ?thesis
      using h3(4) z r' a r t by (auto simp: queue_ok_def dseg_append)
  qed
  ultimately show ?thesis
    using h1(2,3) h2(2,3) h3(2,3) by (intro exI [of _ ?h3]) simp
qed

subsection \<open>What a worker does with its entry\<close>

lemma dom_change:
  assumes "\<And>b. b \<noteq> a \<Longrightarrow> mem h' b = mem h b" "a \<in> dom (mem h)"
  shows "dom (mem h') = (if mem h' a = None then dom (mem h) - {a} else dom (mem h))"
proof -
  have "b \<in> dom (mem h') \<longleftrightarrow> b \<in> (if mem h' a = None then dom (mem h) - {a} else dom (mem h))" for b
    using assms by (cases "b = a") (auto simp: dom_def)
  then show ?thesis
    by blast
qed

text \<open>A change of the sockets that spares the entries of the others is not seen by them.\<close>

lemma owner_socks:
  assumes "mem_ok t qs" "worker_at i pc t" "a \<in> set (w_ents pc)" and sk: "\<forall>b. b \<noteq> a \<longrightarrow> sk' b = sk b"
  shows "\<forall>b\<in>set qs. sk' b = sk b" "a_socks sk' (acceptor t) = a_socks sk (acceptor t)"
    "a_local s sk' (acceptor t) = a_local s sk (acceptor t)"
    "j < length (workers t) \<Longrightarrow> j \<noteq> i \<Longrightarrow> w_socks sk' (w_pc (workers t ! j)) = w_socks sk (w_pc (workers t ! j))"
    "j < length (workers t) \<Longrightarrow> j \<noteq> i \<Longrightarrow>
      w_local act qs ac sk' (w_pc (workers t ! j)) = w_local act qs ac sk (w_pc (workers t ! j))"
proof -
  note own = owner_unique [OF assms(1-3)]
  show "\<forall>b\<in>set qs. sk' b = sk b"
    using sk own(2) by metis
  have acc: "sk' b = sk b" if "b \<in> set (a_ents (acceptor t))" for b
    using sk own(3) that by metis
  then show "a_socks sk' (acceptor t) = a_socks sk (acceptor t)" "a_local s sk' (acceptor t) = a_local s sk (acceptor t)"
    by (auto intro!: a_socks_cong a_local_cong)
  assume "j < length (workers t)" "j \<noteq> i"
  note other = own(5) [OF this]
  have "sk' b = sk b" if "b \<in> set (w_ents (w_pc (workers t ! j)))" for b
    using sk other that by metis
  then show "w_socks sk' (w_pc (workers t ! j)) = w_socks sk (w_pc (workers t ! j))"
    "w_local act qs ac sk' (w_pc (workers t ! j)) = w_local act qs ac sk (w_pc (workers t ! j))"
    by (auto intro!: w_socks_cong w_local_cong)
qed

lemma owner_mem:
  assumes ok: "mem_ok t qs" and at: "worker_at i pc t" and a: "a \<in> set (w_ents pc)"
    and h: "\<And>b. b \<noteq> a \<Longrightarrow> mem h b = mem (theap t) b" "w_ents (w_pc w) = (if mem h a = None then [] else [a])"
    and t': "theap t' = h" "root t' = root t" "acceptor t' = acceptor t" "workers t' = (workers t)[i := w]"
  shows "mem_ok t' qs"
proof -
  note own = owner_unique(4) [OF ok at a]
  obtain R where R: "wsum w_ents (workers t) = mset (w_ents pc) + R"
    "\<And>x. wsum w_ents ((workers t)[i := x]) = mset (w_ents (w_pc x)) + R"
    using wsum_update [of i "workers t" w_ents] at by (auto simp: worker_at_def)
  have fin: "finite (dom (mem (theap t)))"
    and eq: "mset (root t # qs) + (mset [a] + R) + mset (a_ents (acceptor t)) = mset_set (dom (mem (theap t)))"
    using ok w_ents_one [OF a] by (simp_all add: mem_ok_def R(1))
  have dom: "dom (mem h) = (if mem h a = None then dom (mem (theap t)) - {a} else dom (mem (theap t)))"
    by (rule dom_change [OF h(1) own])
  then have "mset (root t # qs) + (mset (w_ents (w_pc w)) + R) + mset (a_ents (acceptor t)) = mset_set (dom (mem h))"
    using eq [symmetric] fin own by (simp add: h(2) mset_set_Diff)
  then show ?thesis
    using fin dom by (simp add: mem_ok_def t' R(2))
qed

lemma owner_fds:
  assumes ok: "mem_ok t qs" "fds_ok t qs" and at: "worker_at i pc t" and a: "a \<in> set (w_ents pc)"
    and sk: "\<forall>b. b \<noteq> a \<longrightarrow> esock h b = esock (theap t) b"
    and F: "finite F" "mset_set F + mset (w_socks (esock (theap t)) pc) = mset_set (fds t) + mset (w_socks (esock h) (w_pc w))"
    and t': "theap t' = h" "ss t' = ss t" "acceptor t' = acceptor t" "workers t' = (workers t)[i := w]" "fds t' = F"
  shows "fds_ok t' qs"
proof -
  note same = owner_socks [OF ok(1) at a sk]
  obtain R where R: "wsum (w_socks (esock (theap t))) (workers t) = mset (w_socks (esock (theap t)) pc) + R"
    "\<And>x. wsum (w_socks (esock h)) ((workers t)[i := x]) = mset (w_socks (esock h) (w_pc x)) + R"
    using wsum_update [of i "workers t" "w_socks (esock (theap t))"] same(4) at that by (auto simp: worker_at_def)
  have "image_mset (esock h) (mset qs) = image_mset (esock (theap t)) (mset qs)"
    using same(1) by (intro image_mset_cong) simp
  moreover have "held t qs = mset_set (fds t)"
    using ok(2) by (simp add: fds_ok_def)
  ultimately have "held t' qs = mset_set F"
    using F(2) same(2) by (auto simp: held_def Let_def R t' ac_simps dest!: sym [of _ "mset_set (fds t)"])
  then show ?thesis
    using F(1) by (simp add: fds_ok_def t')
qed

lemma owner_locals:
  assumes ok: "mem_ok t qs" "locals_ok t qs" and at: "worker_at i pc t" and a: "a \<in> set (w_ents pc)"
    and sk: "\<forall>b. b \<noteq> a \<longrightarrow> esock h b = esock (theap t) b"
    and loc: "w_local (active t) qs (acceptor t) (esock h) (w_pc w)"
    and t': "theap t' = h" "ss t' = ss t" "active t' = active t" "acceptor t' = acceptor t" "workers t' = (workers t)[i := w]"
  shows "locals_ok t' qs"
proof -
  note same = owner_socks [OF ok(1) at a sk]
  have "w_local (active t) qs (acceptor t) (esock h) (w_pc ((workers t)[i := w] ! j))" if "j < length (workers t)" for j
    using that loc ok(2) same(5) [OF that] by (cases "j = i") (auto simp: locals_ok_def Let_def)
  then show ?thesis
    using ok(2) same(1,3) by (simp add: locals_ok_def Let_def t')
qed

lemma owner_step:
  assumes ok: "therver_ok t qs" and at: "worker_at i pc t" and a: "a \<in> set (w_ents pc)"
    and h: "\<And>b. b \<noteq> a \<Longrightarrow> mem h b = mem (theap t) b" "heap_ok h" "w_ents (w_pc w) = (if mem h a = None then [] else [a])"
    and F: "finite F" "mset_set F + mset (w_socks (esock (theap t)) pc) = mset_set (fds t) + mset (w_socks (esock h) (w_pc w))"
    and loc: "w_local (active t) qs (acceptor t) (esock h) (w_pc w)"
    and t': "t' = t\<lparr>pool_mutex := mutex_after i pc (w_pc w) (pool_mutex t), theap := h, workers := (workers t)[i := w], fds := F\<rparr>"
    and crit: "\<not> w_crit (w_pc w)"
  shows "therver_ok t' qs" "map (esock (theap t')) qs = map (esock (theap t)) qs"
proof -
  have parts: "queue_ok t qs" "mem_ok t qs" "fds_ok t qs" "locals_ok t qs" "lock_ok t"
    using ok by (simp_all add: therver_ok_def)
  have sk: "\<forall>b. b \<noteq> a \<longrightarrow> esock h b = esock (theap t) b"
    using h(1) by (simp add: esock_def)
  show "map (esock (theap t')) qs = map (esock (theap t)) qs"
    using owner_socks(1) [OF parts(2) at a sk] by (simp add: t')
  note own = owner_unique(1,2) [OF parts(2) at a]
  have "\<forall>b\<in>set qs. mem h b = mem (theap t) b"
    using h(1) own(2) by metis
  then have "dseg (mem h) q_prev q_next (Some (root t)) qs (Some (root t)) =
    dseg (mem (theap t)) q_prev q_next (Some (root t)) qs (Some (root t))"
    by (intro dseg_cong) simp
  then have "queue_ok t' qs"
    using parts(1) own(1) h(1,2) by (auto simp: queue_ok_def t')
  moreover have "mem_ok t' qs"
    by (rule owner_mem [OF parts(2) at a h(1,3)]) (simp_all add: t')
  moreover have "fds_ok t' qs"
    by (rule owner_fds [OF parts(2,3) at a sk F]) (simp_all add: t')
  moreover have "locals_ok t' qs"
    by (rule owner_locals [OF parts(2,4) at a sk loc]) (simp_all add: t')
  moreover have "lock_ok t'"
    by (rule lock_moves [OF parts(5) at, of w]) (use crit in \<open>simp_all add: t'\<close>)
  ultimately show "therver_ok t' qs"
    by (simp add: therver_ok_def)
qed

text \<open>What a step does to the sockets that wait in the queue.\<close>

definition waiting :: "'d therver_s \<Rightarrow> nat list \<Rightarrow> int list" where
  "waiting t qs = map (esock (theap t)) qs"

fun moved :: "event \<Rightarrow> int list \<Rightarrow> int list \<Rightarrow> bool" where
  "moved (Queued s) xs ys = (ys = xs @ [s])"
| "moved (Taken s) xs ys = (xs = s # ys)"
| "moved _ xs ys = (ys = xs)"

definition step_ok :: "'d therver_s \<Rightarrow> nat list \<Rightarrow> event \<Rightarrow> fault + 'd therver_s \<Rightarrow> bool" where
  "step_ok t qs e r \<longleftrightarrow> (\<exists>t' qs'. r = Inr t' \<and> therver_ok t' qs' \<and> moved e (waiting t qs) (waiting t' qs'))"

lemma step_okI: "therver_ok t' qs' \<Longrightarrow> moved e (waiting t qs) (waiting t' qs') \<Longrightarrow> step_ok t qs e (Inr t')"
  by (auto simp: step_ok_def)

lemma worker_atD: "worker_at i pc t \<Longrightarrow> i < length (workers t)" "worker_at i pc t \<Longrightarrow> w_pc (workers t ! i) = pc"
  by (simp_all add: worker_at_def)

lemma w_localD: "therver_ok t qs \<Longrightarrow> worker_at i pc t \<Longrightarrow> w_local (active t) qs (acceptor t) (esock (theap t)) pc"
  by (auto simp: therver_ok_def locals_ok_def Let_def worker_at_def)

lemma owned_entry:
  assumes "therver_ok t qs" "worker_at i pc t" "w_ents pc = [a]"
  shows "\<exists>q. mem (theap t) a = Some q \<and> esock (theap t) a = conn_s (q_c q)"
  using owner_unique(4) [of t qs i pc a] assms by (auto simp: therver_ok_def esock_def)

lemma owned_open:
  assumes "therver_ok t qs" "worker_at i pc t" "s \<in> set (w_socks (esock (theap t)) pc)"
  shows "s \<in> fds t"
proof -
  have "s \<in># held t qs"
    using wsum_member [of i "workers t" s "w_socks (esock (theap t))"] assms worker_atD [OF assms(2)]
    by (simp add: held_def Let_def)
  then show ?thesis
    using assms(1) by (simp add: therver_ok_def fds_ok_def)
qed

lemma same_fds [simp]: "t\<lparr>fds := fds t\<rparr> = t"
  by simp

lemma mset_set_remove: "finite A \<Longrightarrow> x \<in> A \<Longrightarrow> add_mset x (mset_set (A - {x})) = mset_set A"
  by (simp add: mset_set.remove)

lemma hand_data_ok:
  assumes ok: "therver_ok t qs" and at: "worker_at i (W_Unlock me) t"
  shows "step_ok t qs Tau (worker_hand_data i me t)"
proof -
  obtain a where a: "me = Some a" "esock (theap t) a \<noteq> - 1"
    using w_localD [OF assms] by auto
  then obtain q where q: "mem (theap t) a = Some q"
    using owned_entry [OF assms, of a] by auto
  let ?f = "\<lambda>q. q\<lparr>q_c := (q_c q)\<lparr>conn_data := w_data (workers t ! i)\<rparr>\<rparr>"
  let ?h = "put_rec a (?f q) (theap t)"
  have "esock ?h = esock (theap t)"
    using q by (auto simp: esock_def)
  note os = owner_step [OF ok at, of a ?h "(workers t ! i)\<lparr>w_pc := W_Serve me\<rparr>" "fds t" "goto i (W_Serve me) (t\<lparr>theap := ?h, pool_mutex := Unlocked\<rparr>)"]
  have "therver_ok (goto i (W_Serve me) (t\<lparr>theap := ?h, pool_mutex := Unlocked\<rparr>)) qs"
    using ok a q by (intro os(1)) (auto simp: goto_def mutex_after_def esock_def therver_ok_def fds_ok_def queue_ok_def)
  moreover have "waiting (goto i (W_Serve me) (t\<lparr>theap := ?h, pool_mutex := Unlocked\<rparr>)) qs = waiting t qs"
    using q by (auto simp: waiting_def esock_def)
  ultimately show ?thesis
    using q a by (auto simp: worker_hand_data_def intro: step_okI)
qed

lemma serve_ok:
  assumes ok: "therver_ok t qs" and at: "worker_at i (W_Serve me) t" and q: "deref (theap t) me = Inr q"
    and c: "conn_s c = (if closed then - 1 else conn_s (q_c q))"
  shows "step_ok t qs Tau (rbind (if closed then close_fd (conn_s (q_c q)) t else Inr t) (\<lambda>t. Inr (goto i (W_Return me c) t)))"
proof -
  obtain a where a: "me = Some a" "esock (theap t) a \<noteq> - 1"
    using w_localD [OF ok at] by auto
  have q: "mem (theap t) a = Some q" "esock (theap t) a = conn_s (q_c q)"
    using q a by (auto simp: deref_Inr_iff esock_def)
  let ?F = "if closed then fds t - {conn_s (q_c q)} else fds t" and ?w = "(workers t ! i)\<lparr>w_pc := W_Return me c\<rparr>"
  let ?t = "t\<lparr>fds := ?F, workers := (workers t)[i := ?w]\<rparr>"
  have s: "conn_s (q_c q) \<in> fds t"
    using owned_open [OF ok at] a q by simp
  have F: "finite (fds t)" "heap_ok (theap t)"
    using ok by (simp_all add: therver_ok_def fds_ok_def queue_ok_def)
  note os = owner_step [OF ok at, of a "theap t" ?w ?F ?t]
  have "therver_ok ?t qs"
    using a q s F c by (intro os(1)) (auto simp: mutex_after_def mset_set_remove)
  moreover have "waiting ?t qs = waiting t qs"
    by (simp add: waiting_def)
  ultimately have "step_ok t qs Tau (Inr ?t)"
    by (auto intro: step_okI)
  then show ?thesis
    using s by (cases closed) (simp_all add: close_fd_def goto_def)
qed

lemma return_ok:
  assumes ok: "therver_ok t qs" and at: "worker_at i (W_Return me c) t"
  shows "step_ok t qs Tau (worker_return i me c t)"
proof -
  obtain a where a: "me = Some a"
    using w_localD [OF assms] by auto
  then obtain q where q: "mem (theap t) a = Some q"
    using owned_entry [OF assms, of a] by auto
  let ?h = "put_rec a (q\<lparr>q_c := c\<rparr>) (theap t)" and ?w = "\<lparr>w_pc = W_Close me, w_data = conn_data c\<rparr>"
  let ?t = "t\<lparr>theap := ?h, workers := (workers t)[i := ?w]\<rparr>"
  note os = owner_step [OF ok at, of a ?h ?w "fds t" ?t]
  have "therver_ok ?t qs"
    using ok a q by (intro os(1)) (auto simp: mutex_after_def esock_def therver_ok_def fds_ok_def queue_ok_def)
  moreover have "waiting ?t qs = waiting t qs"
    unfolding waiting_def using ok a q by (intro os(2)) (auto simp: mutex_after_def esock_def therver_ok_def fds_ok_def queue_ok_def)
  ultimately show ?thesis
    using q a by (auto simp: worker_return_def intro: step_okI)
qed

lemma close_ok:
  assumes ok: "therver_ok t qs" and at: "worker_at i (W_Close me) t"
  shows "step_ok t qs Tau (worker_close i me t)"
proof -
  obtain a where a: "me = Some a"
    using w_localD [OF assms] by auto
  then obtain q where q: "mem (theap t) a = Some q" "esock (theap t) a = conn_s (q_c q)"
    using owned_entry [OF assms, of a] by auto
  let ?s = "conn_s (q_c q)" and ?h = "(theap t)\<lparr>mem := (mem (theap t))(a := None)\<rparr>" and ?w = "(workers t ! i)\<lparr>w_pc := W_Loop\<rparr>"
  let ?F = "if ?s \<noteq> - 1 then fds t - {?s} else fds t"
  let ?t = "t\<lparr>fds := ?F, theap := ?h, workers := (workers t)[i := ?w]\<rparr>"
  have s: "?s \<noteq> - 1 \<Longrightarrow> ?s \<in> fds t"
    using owned_open [OF ok at] a q by simp
  have F: "finite (fds t)" "heap_ok (theap t)"
    using ok by (simp_all add: therver_ok_def fds_ok_def queue_ok_def)
  note os = owner_step [OF ok at, of a ?h ?w ?F ?t]
  have "therver_ok ?t qs"
    using F a q s by (intro os(1)) (auto simp: mutex_after_def mset_set_remove)
  moreover have "waiting ?t qs = waiting t qs"
    unfolding waiting_def using F a q s by (intro os(2)) (auto simp: mutex_after_def mset_set_remove)
  ultimately have "step_ok t qs Tau (Inr ?t)"
    by (auto intro: step_okI)
  then show ?thesis
    using s q a by (cases "?s = - 1") (simp_all add: worker_close_def close_fd_def goto_def)
qed

subsection \<open>Moves of a worker\<close>

lemma crit_mutex: "therver_ok t qs \<Longrightarrow> worker_at i pc t \<Longrightarrow> w_crit pc \<Longrightarrow> pool_mutex t = LockedBy (Worker i)"
  by (auto simp: therver_ok_def lock_ok_def worker_at_def)

lemma queue_first:
  assumes "queue_ok t qs"
  shows "\<exists>r. deref (theap t) (Some (root t)) = Inr r \<and> nothing_queued (q_next r) t = (qs = []) \<and> (qs \<noteq> [] \<longrightarrow> q_next r = Some (hd qs))"
  using assms by (cases qs) (auto simp: queue_ok_def nothing_queued_def)

lemma goto_step:
  assumes "therver_ok t qs" "worker_at i pc t" "w_ents pc = []" "w_ents pc' = []"
    "w_local (active t) qs (acceptor t) (esock (theap t)) pc'"
    "M = mutex_after i pc pc' (pool_mutex t)" "w_crit pc' \<Longrightarrow> w_crit pc \<or> pool_mutex t = Unlocked"
  shows "step_ok t qs Tau (Inr (goto i pc' (t\<lparr>pool_mutex := M\<rparr>)))"
proof -
  have none: "w_socks sk p = []" if "w_ents p = []" "\<And>q c. p \<noteq> W_Return q c" for sk p
    using that(1) by (cases p) (use that(2) in auto)
  have "pc \<noteq> W_Return q c" "pc' \<noteq> W_Return q c" for q c
    using assms(3-5) w_localD [OF assms(1,2)] by auto
  then have "w_socks (esock (theap t)) pc' = w_socks (esock (theap t)) pc"
    using none [of pc] none [of pc'] assms(3,4) by simp
  then show ?thesis
    using assms by (intro step_okI goto_ok) (simp_all add: waiting_def)
qed

lemma same_mutex [simp]: "t\<lparr>pool_mutex := pool_mutex t\<rparr> = t"
  by simp

lemma move_step:
  assumes "therver_ok t qs" "worker_at i pc t" "w_ents pc = []" "w_ents pc' = []"
    "w_local (active t) qs (acceptor t) (esock (theap t)) pc'" "w_crit pc' = w_crit pc"
  shows "step_ok t qs Tau (Inr (goto i pc' t))"
proof -
  have "pool_mutex t = mutex_after i pc pc' (pool_mutex t)"
    using assms(6) crit_mutex [OF assms(1,2)] by (simp add: mutex_after_def)
  from goto_step [OF assms(1-5) this] show ?thesis
    using assms(6) by simp
qed

lemma w_local_queue: "\<not> w_crit pc \<Longrightarrow> pc \<noteq> W_Sleep \<Longrightarrow> w_local act qs' ac' sk pc = w_local act qs ac sk pc"
  by (cases pc) auto

lemma alone:
  assumes "therver_ok t qs" "worker_at i pc t" "w_crit pc"
  shows "\<not> a_crit (acceptor t)" "j < length (workers t) \<Longrightarrow> j \<noteq> i \<Longrightarrow> \<not> w_crit (w_pc (workers t ! j))"
proof -
  note M = crit_mutex [OF assms]
  show "\<not> a_crit (acceptor t)"
    using assms(1) M by (simp add: therver_ok_def lock_ok_def)
  assume j: "j < length (workers t)" "j \<noteq> i"
  show "\<not> w_crit (w_pc (workers t ! j))"
    using crit_mutex [OF assms(1), of j "w_pc (workers t ! j)"] M j by (auto simp: worker_at_def)
qed

lemma take_ok:
  assumes ok: "therver_ok t qs" and at: "worker_at i (W_Take me) t"
  shows "step_ok t qs (Taken (sock_of t me)) (rbind (dequeue me t) (\<lambda>t. Inr (goto i (W_Unlock me) t)))"
proof -
  obtain a qs' where qs: "qs = a # qs'" "me = Some a"
    using w_localD [OF ok at] by (cases qs) auto
  note ok' = ok [unfolded therver_ok_def]
  have i: "i < length (workers t)" "w_pc (workers t ! i) = W_Take me"
    using worker_atD [OF at] by simp_all
  obtain h where h: "dequeue me t = Inr (t\<lparr>theap := h\<rparr>)" "queue_ok (t\<lparr>theap := h\<rparr>) qs'" "dom (mem h) = dom (mem (theap t))"
      "esock h = esock (theap t)"
    using dequeue_ok [of t a qs'] ok' qs by auto
  let ?t = "goto i (W_Unlock me) (t\<lparr>theap := h\<rparr>)"
  let ?w = "(workers t ! i)\<lparr>w_pc := W_Unlock me\<rparr>"
  have sk: "esock (theap t) a \<noteq> - 1"
    using ok' qs by (simp add: locals_ok_def Let_def)
  have ents: "mset (root t # qs') + wsum w_ents ((workers t)[i := ?w]) = mset (root t # qs) + wsum w_ents (workers t)"
    using wsum_update [OF i(1), of w_ents] i(2) qs by auto
  have socks: "mset (map (esock h) qs') + wsum (w_socks (esock h)) ((workers t)[i := ?w]) =
      mset (map (esock (theap t)) qs) + wsum (w_socks (esock (theap t))) (workers t)"
    using wsum_update [OF i(1), of "w_socks (esock (theap t))"] i(2) qs sk h(4) by auto
  have "w_local (active t) qs' (acceptor t) (esock h) (w_pc (workers t ! j))" if j: "j < length (workers t)" "j \<noteq> i" for j
  proof -
    have "\<not> w_crit (w_pc (workers t ! j))" "acceptor t \<noteq> A_Broadcast"
      using alone [OF ok at] j by auto
    moreover have "w_local (active t) qs (acceptor t) (esock h) (w_pc (workers t ! j))"
      using ok' j h(4) by (simp add: locals_ok_def Let_def)
    ultimately show ?thesis
      using w_local_queue [of "w_pc (workers t ! j)" "active t" qs'] qs by (cases "w_pc (workers t ! j) = W_Sleep") auto
  qed
  then have "locals_ok ?t qs'"
    using ok' qs sk h(4) i(1) by (auto simp: locals_ok_def Let_def nth_list_update)
  moreover have "lock_ok ?t"
    by (rule lock_moves [OF _ at, of ?w]) (use ok' crit_mutex [OF ok at] in \<open>simp_all add: mutex_after_def\<close>)
  moreover have "queue_ok ?t qs'"
    using h(2) by (simp add: queue_ok_def)
  ultimately have "therver_ok ?t qs'"
    using ok' ents socks h(3,4) by (simp add: therver_ok_def mem_ok_def fds_ok_def held_def Let_def)
  moreover have "sock_of t me = esock (theap t) a"
    using ok' qs by (auto simp: sock_of_def esock_def queue_ok_def)
  ultimately show ?thesis
    using h(1,4) qs by (auto simp: waiting_def intro: step_okI)
qed

subsection \<open>Steps of the acceptor\<close>

definition acc_mutex :: "apc \<Rightarrow> apc \<Rightarrow> mutex \<Rightarrow> mutex" where
  "acc_mutex ac ac' M = (if a_crit ac' then LockedBy Acceptor else if a_crit ac then Unlocked else M)"

lemma acc_lock:
  assumes lk: "lock_ok t" and free: "a_crit ac' \<Longrightarrow> a_crit (acceptor t) \<or> pool_mutex t = Unlocked"
    and t': "length (workers t') = length (workers t)" "acceptor t' = ac'" "pool_mutex t' = acc_mutex (acceptor t) ac' (pool_mutex t)"
      "\<And>j. j < length (workers t) \<Longrightarrow> w_crit (w_pc (workers t' ! j)) = w_crit (w_pc (workers t ! j))"
  shows "lock_ok t'"
proof -
  have lk: "pool_mutex t \<noteq> MutexZero" "a_crit (acceptor t) \<longleftrightarrow> pool_mutex t = LockedBy Acceptor"
    "\<And>j. pool_mutex t = LockedBy (Worker j) \<longleftrightarrow> j < length (workers t) \<and> w_crit (w_pc (workers t ! j))"
    using lk by (simp_all add: lock_ok_def)
  have "pool_mutex t' = LockedBy (Worker j) \<longleftrightarrow> j < length (workers t') \<and> w_crit (w_pc (workers t' ! j))" for j
    using lk(2) lk(3) [of j] free t'(4) [of j]
    by (cases "a_crit (acceptor t)") (auto simp: t'(1-3) acc_mutex_def)
  moreover have "a_crit (acceptor t') \<longleftrightarrow> pool_mutex t' = LockedBy Acceptor"
    using lk(2) free by (auto simp: t'(2,3) acc_mutex_def)
  ultimately show ?thesis
    using lk(1) by (simp add: lock_ok_def) (simp add: t'(3) acc_mutex_def)
qed

lemma in_memory:
  assumes "mem_ok t qs"
  shows "set qs \<subseteq> dom (mem (theap t))" "set (a_ents (acceptor t)) \<subseteq> dom (mem (theap t))" "root t \<in> dom (mem (theap t))"
    "i < length (workers t) \<Longrightarrow> set (w_ents (w_pc (workers t ! i))) \<subseteq> dom (mem (theap t))"
proof -
  have eq: "set_mset (mset (root t # qs) + wsum w_ents (workers t) + mset (a_ents (acceptor t))) = dom (mem (theap t))"
    using assms by (simp only: mem_ok_def) simp
  show "set qs \<subseteq> dom (mem (theap t))" "set (a_ents (acceptor t)) \<subseteq> dom (mem (theap t))" "root t \<in> dom (mem (theap t))"
    unfolding eq [symmetric] by auto
  assume "i < length (workers t)"
  then show "set (w_ents (w_pc (workers t ! i))) \<subseteq> dom (mem (theap t))"
    unfolding eq [symmetric] using wsum_member [of i "workers t" _ w_ents] by auto
qed

lemma acc_mem:
  assumes ok: "mem_ok t qs" and h: "finite (dom (mem h))"
      "mset_set (dom (mem h)) + mset (a_ents (acceptor t)) = mset_set (dom (mem (theap t))) + mset (a_ents ac')"
    and t': "theap t' = h" "root t' = root t" "workers t' = workers t" "acceptor t' = ac'"
  shows "mem_ok t' qs"
proof -
  have "mset (root t # qs) + wsum w_ents (workers t) + mset (a_ents (acceptor t)) = mset_set (dom (mem (theap t)))"
    using ok by (simp add: mem_ok_def)
  then have "mset (root t # qs) + wsum w_ents (workers t) + mset (a_ents ac') + mset (a_ents (acceptor t)) =
    mset_set (dom (mem h)) + mset (a_ents (acceptor t))"
    using h(2) by (simp add: ac_simps del: mset.simps)
  then show ?thesis
    using h(1) by (simp add: mem_ok_def t' del: mset.simps)
qed

lemma acc_fds:
  assumes ok: "fds_ok t qs" and skq: "\<forall>b\<in>set qs. esock h b = esock (theap t) b"
    and sum: "wsum (w_socks (esock h)) (workers t) = wsum (w_socks (esock (theap t))) (workers t)"
    and F: "finite F" "mset_set F + (mset (a_socks (esock (theap t)) (acceptor t)) + mset (fd_list (lfd (acceptor t) (ss t)))) =
      mset_set (fds t) + (mset (a_socks (esock h) ac') + mset (fd_list (lfd ac' s')))"
    and t': "theap t' = h" "workers t' = workers t" "acceptor t' = ac'" "ss t' = s'" "fds t' = F"
  shows "fds_ok t' qs"
proof -
  let ?W = "image_mset (esock (theap t)) (mset qs) + wsum (w_socks (esock (theap t))) (workers t)"
  let ?old = "mset (a_socks (esock (theap t)) (acceptor t)) + mset (fd_list (lfd (acceptor t) (ss t)))"
  let ?new = "mset (a_socks (esock h) ac') + mset (fd_list (lfd ac' s'))"
  have "?W + ?old = mset_set (fds t)"
    using ok by (simp add: fds_ok_def held_def Let_def add.assoc)
  then have "?W + ?new + ?old = mset_set F + ?old"
    using F(2) by (simp add: ac_simps)
  then have "?W + ?new = mset_set F"
    by (simp only: add_right_cancel)
  moreover have "image_mset (esock h) (mset qs) = image_mset (esock (theap t)) (mset qs)"
    using skq by (intro image_mset_cong) simp
  ultimately show ?thesis
    using F(1) by (simp add: fds_ok_def held_def Let_def t' sum add.assoc)
qed

lemma acc_step:
  assumes ok: "therver_ok t qs" and ac: "acceptor t \<noteq> A_Broadcast" "ac' \<noteq> A_Broadcast"
    and h: "\<And>b. b \<in> dom (mem (theap t)) \<Longrightarrow> mem h b = mem (theap t) b" "heap_ok h" "finite (dom (mem h))"
      "mset_set (dom (mem h)) + mset (a_ents (acceptor t)) = mset_set (dom (mem (theap t))) + mset (a_ents ac')"
    and F: "finite F" "mset_set F + (mset (a_socks (esock (theap t)) (acceptor t)) + mset (fd_list (lfd (acceptor t) (ss t)))) =
      mset_set (fds t) + (mset (a_socks (esock h) ac') + mset (fd_list (lfd ac' s')))"
    and loc: "a_local s' (esock h) ac'" and free: "a_crit ac' \<Longrightarrow> a_crit (acceptor t) \<or> pool_mutex t = Unlocked"
    and t': "t' = t\<lparr>ss := s', pool_mutex := acc_mutex (acceptor t) ac' (pool_mutex t), theap := h, acceptor := ac', fds := F\<rparr>"
  shows "therver_ok t' qs \<and> waiting t' qs = waiting t qs"
proof -
  note ok' = ok [unfolded therver_ok_def]
  note mem = in_memory [of t qs, OF conjunct1 [OF conjunct2 [OF ok']]]
  have sk: "esock h b = esock (theap t) b" if "b \<in> dom (mem (theap t))" for b
    using h(1) [OF that] by (simp add: esock_def)
  have skq: "\<forall>b\<in>set qs. esock h b = esock (theap t) b"
    using sk mem(1) by blast
  have skw: "w_socks (esock h) (w_pc (workers t ! i)) = w_socks (esock (theap t)) (w_pc (workers t ! i))"
    "w_local act qs ac (esock h) (w_pc (workers t ! i)) = w_local act qs ac (esock (theap t)) (w_pc (workers t ! i))"
    if "i < length (workers t)" for i act ac
    using mem(4) [OF that] sk by (auto intro!: w_socks_cong w_local_cong)
  have sum: "wsum (w_socks (esock h)) (workers t) = wsum (w_socks (esock (theap t))) (workers t)"
    unfolding wsum_def using skw(1) by (intro arg_cong [where f = sum_list]) (auto simp: in_set_conv_nth)
  have "\<forall>b\<in>set qs. mem h b = mem (theap t) b" "mem h (root t) = mem (theap t) (root t)"
    using h(1) mem(1,3) by blast+
  then have "queue_ok t' qs"
    using ok' h(2) dseg_cong [of qs "mem h" "mem (theap t)" q_prev q_next "Some (root t)" "Some (root t)"]
    by (simp add: queue_ok_def t')
  moreover have "mem_ok t' qs"
    by (rule acc_mem [OF _ h(3,4)]) (use ok' in \<open>simp_all add: t'\<close>)
  moreover have "fds_ok t' qs"
    by (rule acc_fds [OF _ skq sum F]) (use ok' in \<open>simp_all add: t'\<close>)
  moreover have "locals_ok t' qs"
  proof -
    have "w_local (active t) qs ac' (esock h) (w_pc (workers t ! i))" if "i < length (workers t)" for i
    proof -
      have "w_local (active t) qs (acceptor t) (esock (theap t)) (w_pc (workers t ! i))"
        using ok' that by (simp add: locals_ok_def Let_def)
      then show ?thesis
        using ac by (simp add: skw(2) [OF that]) (cases "w_pc (workers t ! i)"; simp)
    qed
    then show ?thesis
      using ok' loc skq by (simp add: locals_ok_def Let_def t')
  qed
  moreover have "lock_ok t'"
    by (rule acc_lock [of t ac']) (use ok' free in \<open>simp_all add: t'\<close>)
  moreover have "waiting t' qs = waiting t qs"
    using skq by (simp add: waiting_def t')
  ultimately show ?thesis
    by (simp add: therver_ok_def)
qed

lemma acc_localD: "therver_ok t qs \<Longrightarrow> a_local (ss t) (esock (theap t)) (acceptor t)"
  by (simp add: therver_ok_def locals_ok_def Let_def)

lemma ok_finite: "therver_ok t qs \<Longrightarrow> finite (fds t)" "therver_ok t qs \<Longrightarrow> heap_ok (theap t)"
  "therver_ok t qs \<Longrightarrow> finite (dom (mem (theap t)))"
  by (simp_all add: therver_ok_def fds_ok_def queue_ok_def mem_ok_def)

lemma acc_open:
  assumes "therver_ok t qs" "s \<in> set (a_socks (esock (theap t)) (acceptor t)) \<union> set (fd_list (lfd (acceptor t) (ss t)))"
  shows "s \<in> fds t"
proof -
  have "s \<in># held t qs"
    using assms(2) by (auto simp: held_def Let_def)
  then show ?thesis
    using assms(1) by (simp add: therver_ok_def fds_ok_def)
qed

lemma acc_move:
  assumes "therver_ok t qs" "acceptor t \<noteq> A_Broadcast" "ac' \<noteq> A_Broadcast" "acceptor t \<noteq> A_Reset" "ac' \<noteq> A_Reset"
    "a_ents ac' = a_ents (acceptor t)"
    "a_socks (esock (theap t)) ac' = a_socks (esock (theap t)) (acceptor t)" "a_local (ss t) (esock (theap t)) ac'"
    "a_crit ac' \<Longrightarrow> a_crit (acceptor t) \<or> pool_mutex t = Unlocked"
    "M = acc_mutex (acceptor t) ac' (pool_mutex t)"
  shows "step_ok t qs Tau (Inr (t\<lparr>pool_mutex := M, acceptor := ac'\<rparr>))"
proof -
  note as = acc_step [OF assms(1-3), of "theap t" "fds t" "ss t" "t\<lparr>pool_mutex := M, acceptor := ac'\<rparr>"]
  have "therver_ok (t\<lparr>pool_mutex := M, acceptor := ac'\<rparr>) qs \<and> waiting (t\<lparr>pool_mutex := M, acceptor := ac'\<rparr>) qs = waiting t qs"
    by (rule as) (use assms ok_finite [OF assms(1)] in simp_all)
  then show ?thesis
    by (auto intro: step_okI)
qed

lemma accept_ok:
  assumes ok: "therver_ok t qs" and ac: "acceptor t = A_Accept" and s: "0 \<le> s" "s \<notin> fds t"
  shows "step_ok t qs (Accepted s) (Inr (t\<lparr>fds := insert s (fds t), acceptor := A_Alloc s\<rparr>))"
proof -
  let ?t = "t\<lparr>fds := insert s (fds t), acceptor := A_Alloc s\<rparr>"
  note as = acc_step [OF ok, of "A_Alloc s" "theap t" "insert s (fds t)" "ss t" ?t]
  have "therver_ok ?t qs \<and> waiting ?t qs = waiting t qs"
    by (rule as) (use ac s ok_finite [OF ok] acc_localD [OF ok] in \<open>auto simp: acc_mutex_def fd_list_def\<close>)
  then show ?thesis
    by (auto intro: step_okI)
qed

lemma accept_alloc_ok:
  assumes ok: "therver_ok t qs" and ac: "acceptor t = A_Alloc s"
  shows "step_ok t qs Tau (accept_alloc s b t)"
proof (cases b)
  case True
  let ?q = "\<lparr>q_prev = NULL, q_next = NULL, q_c = \<lparr>conn_s = s, conn_data = None\<rparr>\<rparr>"
  obtain a h where n: "new_rec ?q (theap t) = (a, h)"
    by (cases "new_rec ?q (theap t)")
  have h: "heap_ok h" "mem (theap t) a = None" "mem h = (mem (theap t))(a \<mapsto> ?q)"
    using heap_ok_new [OF ok_finite(2) [OF ok] n] by auto
  let ?t = "t\<lparr>theap := h, acceptor := A_Lock (Some a)\<rparr>"
  note as = acc_step [OF ok, of "A_Lock (Some a)" h "fds t" "ss t" ?t]
  have "therver_ok ?t qs \<and> waiting ?t qs = waiting t qs"
    by (rule as) (use ac h ok_finite [OF ok] acc_localD [OF ok] in \<open>auto simp: acc_mutex_def esock_def domIff\<close>)
  then show ?thesis
    using True n by (auto simp: accept_alloc_def intro: step_okI)
next
  case False
  have s: "s \<noteq> - 1" "s \<in> fds t"
    using acc_localD [OF ok] acc_open [OF ok, of s] ac by auto
  let ?t = "t\<lparr>fds := fds t - {s}, acceptor := A_Loop\<rparr>"
  note as = acc_step [OF ok, of A_Loop "theap t" "fds t - {s}" "ss t" ?t]
  have "therver_ok ?t qs \<and> waiting ?t qs = waiting t qs"
    by (rule as) (use ac s ok_finite [OF ok] acc_localD [OF ok] in \<open>auto simp: acc_mutex_def mset_set_remove\<close>)
  then show ?thesis
    using False s by (auto simp: accept_alloc_def close_fd_def intro: step_okI)
qed

lemma accept_end_ok:
  assumes ok: "therver_ok t qs" and ac: "acceptor t = A_Closing"
  shows "step_ok t qs Tau (accept_end t)"
proof -
  have s: "ss t \<noteq> - 1" "ss t \<in> fds t"
    using acc_localD [OF ok] acc_open [OF ok, of "ss t"] ac by auto
  let ?t = "t\<lparr>fds := fds t - {ss t}, acceptor := A_Reset\<rparr>"
  note as = acc_step [OF ok, of A_Reset "theap t" "fds t - {ss t}" "ss t" ?t]
  have "therver_ok ?t qs \<and> waiting ?t qs = waiting t qs"
    by (rule as) (use ac s ok_finite [OF ok] in \<open>auto simp: acc_mutex_def mset_set_remove\<close>)
  then show ?thesis
    using s by (auto simp: accept_end_def close_fd_def intro: step_okI)
qed

lemma accept_reset_ok:
  assumes ok: "therver_ok t qs" and ac: "acceptor t = A_Reset"
  shows "step_ok t qs Tau (Inr (accept_reset t))"
proof -
  note as = acc_step [OF ok, of A_Exit "theap t" "fds t" "- 1" "accept_reset t"]
  have "therver_ok (accept_reset t) qs \<and> waiting (accept_reset t) qs = waiting t qs"
    by (rule as) (use ac ok_finite [OF ok] in \<open>auto simp: accept_reset_def acc_mutex_def\<close>)
  then show ?thesis
    by (auto intro: step_okI)
qed

lemma acc_alone:
  assumes "therver_ok t qs" "a_crit (acceptor t)"
  shows "pool_mutex t = LockedBy Acceptor" "i < length (workers t) \<Longrightarrow> \<not> w_crit (w_pc (workers t ! i))"
proof -
  have lk: "a_crit (acceptor t) \<longleftrightarrow> pool_mutex t = LockedBy Acceptor"
    using assms(1) by (simp add: therver_ok_def lock_ok_def)
  then show "pool_mutex t = LockedBy Acceptor"
    using assms(2) by simp
  then show "i < length (workers t) \<Longrightarrow> \<not> w_crit (w_pc (workers t ! i))"
    using crit_mutex [OF assms(1), of i "w_pc (workers t ! i)"] by (auto simp: worker_at_def)
qed

lemma enqueue_step_ok:
  assumes ok: "therver_ok t qs" and ac: "acceptor t = A_Enqueue me"
  shows "step_ok t qs (Queued (sock_of t me)) (rbind (enqueue me t) (\<lambda>t. Inr (t\<lparr>acceptor := A_Broadcast\<rparr>)))"
proof -
  note ok' = ok [unfolded therver_ok_def]
  obtain a where a: "me = Some a" "esock (theap t) a \<noteq> - 1" "ss t \<noteq> - 1"
    using acc_localD [OF ok] ac by auto
  have "count (mset (root t # qs) + ({#a#} + wsum w_ents (workers t)) + {#}) a \<le> 1"
    using ok' ac a by (intro count_one [of "dom (mem (theap t))"]) (simp_all add: mem_ok_def)
  from count_rest [OF this] have new: "a \<noteq> root t" "a \<notin> set qs"
    by auto
  obtain q where q: "mem (theap t) a = Some q"
    using in_memory(2) [of t qs] ok' ac a by auto
  obtain h where h: "enqueue me t = Inr (t\<lparr>theap := h\<rparr>)" "queue_ok (t\<lparr>theap := h\<rparr>) (qs @ [a])" "dom (mem h) = dom (mem (theap t))"
      "esock h = esock (theap t)"
    using enqueue_ok [of t qs a q] ok' new q a by auto
  let ?t = "t\<lparr>theap := h, acceptor := A_Broadcast\<rparr>"
  have "w_local (active t) (qs @ [a]) A_Broadcast (esock h) (w_pc (workers t ! i))" if "i < length (workers t)" for i
  proof -
    have "w_local (active t) qs (acceptor t) (esock h) (w_pc (workers t ! i))" "\<not> w_crit (w_pc (workers t ! i))"
      using ok' that h(4) acc_alone(2) [OF ok _ that] ac by (simp_all add: locals_ok_def Let_def)
    then show ?thesis
      by (cases "w_pc (workers t ! i)") simp_all
  qed
  then have "locals_ok ?t (qs @ [a])"
    using ok' a h(4) by (auto simp: locals_ok_def Let_def)
  moreover have "lock_ok ?t"
    by (rule acc_lock [of t A_Broadcast]) (use ok' ac acc_alone(1) [OF ok] in \<open>simp_all add: acc_mutex_def\<close>)
  moreover have "queue_ok ?t (qs @ [a])"
    using h(2) by (simp add: queue_ok_def)
  moreover have "mem_ok ?t (qs @ [a])" "fds_ok ?t (qs @ [a])"
    using ok' ac a h(3,4) by (simp_all add: mem_ok_def fds_ok_def held_def Let_def add_mset_commute)
  ultimately have "therver_ok ?t (qs @ [a])"
    by (simp add: therver_ok_def)
  moreover have "sock_of t me = esock (theap t) a"
    using q a by (simp add: sock_of_def esock_def)
  ultimately show ?thesis
    using h(1,4) by (auto simp: waiting_def intro!: step_okI)
qed

lemma broadcast_ok:
  assumes ok: "therver_ok t qs" and ac: "acceptor t = A_Broadcast"
  shows "step_ok t qs Tau (Inr (t\<lparr>workers := map wake (workers t), acceptor := A_Unlock\<rparr>))"
proof -
  note ok' = ok [unfolded therver_ok_def]
  let ?t = "t\<lparr>workers := map wake (workers t), acceptor := A_Unlock\<rparr>"
  have sums: "wsum f (map wake (workers t)) = wsum f (workers t)" if "f W_Sleep = f W_Lock" for f :: "'a wpc \<Rightarrow> 'b list"
    using that unfolding wsum_def by (intro arg_cong [where f = sum_list]) (auto simp: wake_def)
  have "w_local (active t) qs A_Unlock (esock (theap t)) (w_pc (wake (workers t ! i)))" if "i < length (workers t)" for i
  proof -
    have "w_local (active t) qs (acceptor t) (esock (theap t)) (w_pc (workers t ! i))"
      using ok' that by (simp add: locals_ok_def Let_def)
    then show ?thesis
      by (cases "w_pc (workers t ! i)") (simp_all add: wake_def)
  qed
  then have "locals_ok ?t qs"
    using ok' ac by (simp add: locals_ok_def Let_def)
  moreover have "lock_ok ?t"
    by (rule acc_lock [of t A_Unlock]) (use ok' ac acc_alone(1) [OF ok] in \<open>simp_all add: acc_mutex_def wake_def\<close>)
  moreover have "queue_ok ?t qs"
    using ok' by (simp add: queue_ok_def)
  moreover have "mem_ok ?t qs" "fds_ok ?t qs"
    using ok' ac sums [of w_ents] sums [of "w_socks (esock (theap t))"] by (simp_all add: mem_ok_def fds_ok_def held_def Let_def)
  ultimately show ?thesis
    by (auto simp: therver_ok_def waiting_def intro!: step_okI)
qed

text \<open>The flag and the mutex seen from outside.\<close>

lemma shutdown_ok:
  assumes ok: "therver_ok t qs"
  shows "step_ok t qs Tau (Inr (therver_shutdown t))"
proof -
  have "w_local False qs (acceptor t) (esock (theap t)) pc" if "w_local (active t) qs (acceptor t) (esock (theap t)) pc" for pc
    using that by (cases pc) simp_all
  then have "locals_ok (therver_shutdown t) qs"
    using ok by (auto simp: therver_ok_def locals_ok_def Let_def therver_shutdown_def)
  then have "therver_ok (therver_shutdown t) qs"
    using ok by (simp add: therver_ok_def mem_ok_def fds_ok_def held_def lock_ok_def queue_ok_def therver_shutdown_def)
  then show ?thesis
    by (auto simp: waiting_def therver_shutdown_def intro: step_okI)
qed

lemma set_mutex_ok:
  assumes ok: "therver_ok t qs" and M: "pool_mutex t \<in> {Unlocked, LockedBy Forker}" "M \<in> {Unlocked, LockedBy Forker}"
  shows "step_ok t qs Tau (Inr (t\<lparr>pool_mutex := M\<rparr>))"
proof -
  have lk: "pool_mutex t \<noteq> MutexZero" "a_crit (acceptor t) \<longleftrightarrow> pool_mutex t = LockedBy Acceptor"
    "\<And>j. pool_mutex t = LockedBy (Worker j) \<longleftrightarrow> j < length (workers t) \<and> w_crit (w_pc (workers t ! j))"
    using ok by (simp_all add: therver_ok_def lock_ok_def)
  have "M = LockedBy (Worker j) \<longleftrightarrow> pool_mutex t = LockedBy (Worker j)" for j
    using M by auto
  moreover have "M \<noteq> MutexZero" "M = LockedBy Acceptor \<longleftrightarrow> pool_mutex t = LockedBy Acceptor"
    using M by auto
  ultimately have "lock_ok (t\<lparr>pool_mutex := M\<rparr>)"
    using lk by (simp add: lock_ok_def)
  then have "therver_ok (t\<lparr>pool_mutex := M\<rparr>) qs"
    using ok by (simp add: ok_defs queue_ok_def)
  then show ?thesis
    by (auto simp: waiting_def intro: step_okI)
qed

lemma fork_ok:
  assumes "therver_ok t qs" "fork_lock t = Some r"
  shows "step_ok t qs Tau r"
  using assms set_mutex_ok [OF assms(1), of "LockedBy Forker"]
  by (auto simp: fork_lock_def therver_ok_def lock_ok_def split: mutex.splits)

subsection \<open>The contract of the process function\<close>

text \<open>A fault of the process function itself, on the connection that a worker has handed to it.\<close>

definition process_fault :: "'d process_fn \<Rightarrow> 'd therver_s \<Rightarrow> fault \<Rightarrow> bool" where
  "process_fault process t f \<longleftrightarrow> (\<exists>i me q. worker_at i (W_Serve me) t \<and> deref (theap t) me = Inr q \<and> process (q_c q) (Inl f))"

text \<open>As the header asks of it: a process function that closes the socket also sets \<open>s\<close> to -1,
  and otherwise leaves the descriptor alone.\<close>

locale process_contract =
  fixes process :: "'d process_fn"
  assumes closes: "process c (Inr (c', closed)) \<Longrightarrow> conn_s c' = (if closed then - 1 else conn_s c)"
begin

lemma step_kept:
  assumes "step process t e r" "therver_ok t qs"
  shows "step_ok t qs e r \<or> (\<exists>f. r = Inl f \<and> process_fault process t f)"
  using assms(1)
proof cases
  case (w_loop i)
  then show ?thesis
    using assms(2) by (auto intro: move_step)
next
  case (w_lock i)
  then show ?thesis
    using goto_step [OF assms(2), of i W_Lock W_Test] by (auto simp: mutex_after_def)
next
  case (w_wait i r)
  then have "qs = []"
    using queue_first [of t qs] assms(2) by (auto simp: therver_ok_def)
  then show ?thesis
    using goto_step [OF assms(2), of i W_Test W_Sleep] w_wait by (auto simp: mutex_after_def)
next
  case (w_found i r)
  then show ?thesis
    using move_step [OF assms(2), of i W_Test "W_Check (q_next r)"] queue_first [of t qs] assms(2)
    by (auto simp: therver_ok_def)
next
  case (w_stop i)
  then show ?thesis
    using move_step [OF assms(2), of i W_Test "W_Check NULL"] by auto
next
  case (w_spurious i)
  then show ?thesis
    using move_step [OF assms(2), of i W_Sleep W_Lock] by auto
next
  case (w_check i me)
  then show ?thesis
    using move_step [OF assms(2), of i "W_Check me" "W_Take me"] w_localD [OF assms(2), of i "W_Check me"] by auto
next
  case (w_leave i me)
  then show ?thesis
    using goto_step [OF assms(2), of i "W_Check me" W_Exit] by (auto simp: mutex_after_def)
next
  case (w_serve i me q c closed)
  then show ?thesis
    using serve_ok [OF assms(2), of i me q c closed] closes by auto
next
  case (w_crash i me q f)
  then show ?thesis
    by (auto simp: process_fault_def)
next
  case (w_null i f)
  then show ?thesis
    using queue_first [of t qs] assms(2) by (auto simp: therver_ok_def)
next
  case (w_wild i me f)
  then show ?thesis
    using w_localD [OF assms(2), of i "W_Serve me"] owned_entry [OF assms(2), of i "W_Serve me"] by auto
next
  case a_loop
  then show ?thesis
    using acc_move [OF assms(2), of "acceptor (projr r)" "pool_mutex t"] acc_localD [OF assms(2)] by (auto simp: acc_mutex_def)
next
  case a_fail
  then show ?thesis
    using acc_move [OF assms(2), of A_Loop "pool_mutex t"] acc_localD [OF assms(2)] by (auto simp: acc_mutex_def)
next
  case (a_lock me)
  then show ?thesis
    using acc_move [OF assms(2), of "A_Enqueue me" "LockedBy Acceptor"] acc_localD [OF assms(2)] by (auto simp: acc_mutex_def)
next
  case a_unlock
  then show ?thesis
    using acc_move [OF assms(2), of A_Loop Unlocked] acc_localD [OF assms(2)] by (auto simp: acc_mutex_def)
next
  case parent
  then show ?thesis
    using set_mutex_ok [OF assms(2), of Unlocked] by (simp add: fork_unlock_def)
qed (use assms(2) in \<open>simp_all add: take_ok hand_data_ok return_ok close_ok accept_ok accept_alloc_ok accept_end_ok accept_reset_ok
    enqueue_step_ok broadcast_ok shutdown_ok fork_ok\<close>)

lemma run_kept:
  assumes "run process t es u" "therver_ok t qs"
  shows "\<exists>qs'. therver_ok u qs' \<and> waiting t qs @ queued es = taken es @ waiting u qs'"
  using assms
proof (induction rule: run.induct)
  case (run_refl t)
  then show ?case
    by (intro exI [of _ qs]) (simp add: queued_def taken_def)
next
  case (run_step t es u e v)
  then obtain us where us: "therver_ok u us" "waiting t qs @ queued es = taken es @ waiting u us"
    by auto
  obtain vs where vs: "therver_ok v vs" "moved e (waiting u us) (waiting v vs)"
    using step_kept [OF run_step.hyps(2) us(1)] by (auto simp: step_ok_def)
  from vs(2) have "waiting t qs @ queued (es @ [e]) = taken (es @ [e]) @ waiting v vs"
    using us(2) by (cases e) (auto simp: queued_def taken_def)
  with vs(1) show ?case
    by blast
qed

end

subsection \<open>A started server\<close>

lemma wsum_none: "(\<And>w. w \<in> set ws \<Longrightarrow> f (w_pc w) = []) \<Longrightarrow> wsum f ws = {#}"
  unfolding wsum_def by (induction ws) auto

lemma started_ok:
  assumes "env_malloc env" "s \<noteq> - 1"
  shows "therver_ok (snd (start_threads env n (new_therver s)) :: 'd therver_s) []"
proof -
  let ?t = "snd (start_threads env n (new_therver s)) :: 'd therver_s"
  have pcs: "w_pc w \<in> {W_Loop, W_Exit}" if "w \<in> set (workers ?t)" for w
    using that assms by (auto simp: start_threads_def new_therver_def new_rec_def Let_def split: if_splits)
  then have "w_ents (w_pc w) = [] \<and> w_socks sk (w_pc w) = []" if "w \<in> set (workers ?t)" for w sk
    using that by fastforce
  then have "wsum w_ents (workers ?t) = {#}" "wsum (w_socks sk) (workers ?t) = {#}" for sk
    by (auto intro!: wsum_none)
  moreover have "\<not> w_crit (w_pc (workers ?t ! i)) \<and> w_local b qs ac sk (w_pc (workers ?t ! i))" if "i < length (workers ?t)" for i b qs ac sk
    using pcs [OF nth_mem [OF that]] by auto
  ultimately show ?thesis
    using assms by (auto simp: ok_defs queue_ok_def start_threads_def new_therver_def new_rec_def empty_heap_def heap_ok_def)
qed

subsection \<open>Forking\<close>

lemma dseg_seg: "dseg m pv nx p qs q \<Longrightarrow> seg m nx (first_ptr qs q) qs q"
  by (induction qs arbitrary: p) auto

lemma close_queued_spec:
  assumes "seg (mem (theap t)) q_next p qs (Some (root t))" "distinct (root t # qs)" "length qs < n"
    "distinct (map (esock (theap t)) qs)" "\<forall>a\<in>set qs. esock (theap t) a \<noteq> - 1 \<and> esock (theap t) a \<in> fds t"
  shows "\<exists>h. close_queued n p t = Inr (t\<lparr>theap := h, fds := fds t - esock (theap t) ` set qs\<rparr>)"
  using assms
proof (induction qs arbitrary: n p t)
  case Nil
  then show ?case
    by (cases n) (auto simp: nothing_queued_def intro: exI [of _ "theap t"])
next
  case (Cons a qs)
  obtain q where q: "mem (theap t) a = Some q" "seg (mem (theap t)) q_next (q_next q) qs (Some (root t))" "p = Some a"
    using Cons.prems(1) by auto
  obtain k where k: "n = Suc k" "length qs < k"
    using Cons.prems(3) by (cases n) auto
  let ?s = "conn_s (q_c q)" and ?q = "q\<lparr>q_c := (q_c q)\<lparr>conn_s := - 1\<rparr>\<rparr>"
  let ?t = "t\<lparr>fds := fds t - {?s}, theap := put_rec a ?q (theap t)\<rparr>"
  have s: "?s \<in> fds t" "?s \<noteq> - 1" "esock (theap t) a = ?s"
    using Cons.prems(5) q(1) by (auto simp: esock_def)
  have same: "\<forall>b\<in>set qs. esock (theap ?t) b = esock (theap t) b"
    using Cons.prems(2) by (auto simp: esock_def)
  have maps: "map (esock (theap ?t)) qs = map (esock (theap t)) qs" "esock (theap ?t) ` set qs = esock (theap t) ` set qs"
    using same by (auto intro: image_cong)
  have "\<exists>h. close_queued k (q_next q) ?t = Inr (?t\<lparr>theap := h, fds := fds ?t - esock (theap ?t) ` set qs\<rparr>)"
  proof (rule Cons.IH)
    show "distinct (map (esock (theap ?t)) qs)"
      using Cons.prems(4) by (simp only: maps) simp
    have "?s \<notin> esock (theap t) ` set qs"
      using Cons.prems(4) s(3) by simp
    then show "\<forall>b\<in>set qs. esock (theap ?t) b \<noteq> - 1 \<and> esock (theap ?t) b \<in> fds ?t"
      using Cons.prems(5) same by (auto simp: image_iff)
    have "a \<notin> set qs"
      using Cons.prems(2) by simp
    then have "seg ((mem (theap t))(a \<mapsto> ?q)) q_next (q_next q) qs (Some (root t))"
      by (subst seg_upd_other) (assumption, rule q(2))
    then show "seg (mem (theap ?t)) q_next (q_next q) qs (Some (root ?t))"
      by simp
  qed (use Cons.prems(2) q(2) k(2) in simp_all)
  note this [unfolded maps]
  then obtain h where "close_queued k (q_next q) ?t = Inr (t\<lparr>theap := h, fds := fds t - {?s} - esock (theap t) ` set qs\<rparr>)"
    by auto
  moreover have "fds t - {?s} - esock (theap t) ` set qs = fds t - esock (theap t) ` set (a # qs)"
    using s(3) by auto
  ultimately show ?case
    using q(1,3) s(1,2) k(1) Cons.prems(2) by (intro exI [of _ h]) (simp add: nothing_queued_def close_fd_def)
qed

lemma subset_distinct:
  assumes "finite A" "mset xs \<subseteq># mset_set A"
  shows "distinct xs \<and> set xs \<subseteq> A"
proof -
  obtain ys where ys: "mset_set A = mset (xs @ ys)"
    using assms(2) by (metis mset_append ex_mset mset_subset_eq_exists_conv)
  obtain zs where zs: "set zs = A" "distinct zs"
    using finite_distinct_list [OF assms(1)] by blast
  then have "mset (xs @ ys) = mset zs"
    using ys mset_set_set [OF zs(2)] by simp
  from mset_eq_imp_distinct_iff [OF this] mset_eq_setD [OF this] zs show ?thesis
    by auto
qed

lemma waiting_open:
  assumes "therver_ok t qs"
  shows "distinct (waiting t qs)" "set (waiting t qs) \<subseteq> fds t"
    "acceptor t \<noteq> A_Reset \<Longrightarrow> ss t \<noteq> - 1 \<Longrightarrow> ss t \<in> fds t \<and> ss t \<notin> set (waiting t qs)"
proof -
  let ?s = "lfd (acceptor t) (ss t)"
  have eq: "held t qs = mset_set (fds t)" and fin: "finite (fds t)"
    using assms by (simp_all add: therver_ok_def fds_ok_def)
  then have "mset (waiting t qs) + mset (fd_list ?s) \<subseteq># mset_set (fds t)"
    unfolding eq [symmetric] held_def Let_def waiting_def by (simp add: ac_simps)
  then have "mset (waiting t qs @ fd_list ?s) \<subseteq># mset_set (fds t)"
    by simp
  from subset_distinct [OF fin this] have "distinct (waiting t qs @ fd_list ?s)" "set (waiting t qs @ fd_list ?s) \<subseteq> fds t"
    by auto
  then show "distinct (waiting t qs)" "set (waiting t qs) \<subseteq> fds t"
    "acceptor t \<noteq> A_Reset \<Longrightarrow> ss t \<noteq> - 1 \<Longrightarrow> ss t \<in> fds t \<and> ss t \<notin> set (waiting t qs)"
    by auto
qed

text \<open>-1 is not an open descriptor.\<close>

lemma no_minus_one:
  assumes ok: "therver_ok t qs"
  shows "- 1 \<notin> fds t"
proof -
  have "- 1 \<notin> set (w_socks sk pc)" for sk :: "nat \<Rightarrow> int" and pc :: "'a wpc"
    by (cases pc) (auto simp: fd_list_def split: if_splits)
  then have "- 1 \<notin># wsum (w_socks sk) ws" for sk and ws :: "'a worker list"
    unfolding wsum_def by (induction ws) auto
  moreover have "- 1 \<notin> set (a_socks sk ac)" for sk ac
    by (cases ac) (auto simp: fd_list_def split: if_splits)
  moreover have "- 1 \<notin> set (waiting t qs)" "- 1 \<notin> set (fd_list (lfd (acceptor t) (ss t)))"
    using ok by (auto simp: therver_ok_def locals_ok_def Let_def waiting_def fd_list_def)
  ultimately have "- 1 \<notin># held t qs"
    by (simp add: held_def Let_def waiting_def)
  then show ?thesis
    using ok by (simp add: therver_ok_def fds_ok_def)
qed

lemma fork_child_spec:
  assumes ok: "therver_ok t qs" and ac: "acceptor t \<noteq> A_Reset"
  shows "\<exists>h. fork_child t = Inr (t\<lparr>active := False, ss := - 1, pool_mutex := Unlocked, theap := h,
    fds := fds t - {ss t} - set (waiting t qs)\<rparr>)"
proof -
  let ?t = "t\<lparr>active := False, ss := - 1, fds := fds t - {ss t}\<rparr>"
  note ok' = ok [unfolded therver_ok_def]
  note open_fds = waiting_open [OF ok]
  obtain r where r: "mem (theap t) (root t) = Some r" "q_next r = first_ptr qs (Some (root t))"
    and d: "dseg (mem (theap t)) q_prev q_next (Some (root t)) qs (Some (root t))" "distinct (root t # qs)" "heap_ok (theap t)"
    using ok' by (auto simp: queue_ok_def)
  have "set qs \<subseteq> {..<brk (theap t)}"
    using in_memory(1) [of t qs] ok' d(3) by (auto simp: heap_ok_def)
  then have len: "length qs < Suc (brk (theap t))"
    using card_mono [of "{..<brk (theap t)}" "set qs"] distinct_card [of qs] d(2) by simp
  note none = no_minus_one [OF ok]
  have first: "(if ss t \<noteq> - 1 then rbind (close_fd (ss t) (t\<lparr>active := False\<rparr>)) (\<lambda>t. Inr (t\<lparr>ss := - 1\<rparr>)) else Inr (t\<lparr>active := False\<rparr>)) = Inr ?t"
    using open_fds(3) [OF ac] none by (cases "ss t = - 1") (auto simp: close_fd_def intro!: therver_s.equality)
  have "seg (mem (theap ?t)) q_next (q_next r) qs (Some (root ?t))"
    using dseg_seg [OF d(1)] r(2) by simp
  moreover have "\<forall>a\<in>set qs. esock (theap ?t) a \<noteq> - 1 \<and> esock (theap ?t) a \<in> fds ?t"
    using ok' open_fds(1,2) open_fds(3) [OF ac] none by (cases "ss t = - 1") (auto simp: locals_ok_def Let_def waiting_def image_iff)
  ultimately obtain h where "close_queued (Suc (brk (theap t))) (q_next r) ?t =
    Inr (?t\<lparr>theap := h, fds := fds ?t - esock (theap ?t) ` set qs\<rparr>)"
    using close_queued_spec [of ?t "q_next r" qs "Suc (brk (theap t))"] d(2) len open_fds(1) by (auto simp: waiting_def)
  then have walk: "rbind (deref (theap ?t) (Some (root ?t))) (\<lambda>r. rbind (close_queued (Suc (brk (theap ?t))) (q_next r) ?t) (\<lambda>t. Inr (fork_unlock t))) =
      Inr (t\<lparr>active := False, ss := - 1, pool_mutex := Unlocked, theap := h, fds := fds t - {ss t} - set (waiting t qs)\<rparr>)"
    using r(1) by (simp add: fork_unlock_def waiting_def del: close_queued.simps)
  have "fork_child t = rbind (if ss t \<noteq> - 1 then rbind (close_fd (ss t) (t\<lparr>active := False\<rparr>)) (\<lambda>t. Inr (t\<lparr>ss := - 1\<rparr>)) else Inr (t\<lparr>active := False\<rparr>))
      (\<lambda>t. rbind (deref (theap t) (Some (root t))) (\<lambda>r. rbind (close_queued (Suc (brk (theap t))) (q_next r) t) (\<lambda>t. Inr (fork_unlock t))))"
    by (simp add: fork_child_def Let_def del: close_queued.simps)
  then show ?thesis
    unfolding first rbind.simps walk by blast
qed

text \<open>What stays open in the child are the sockets that the threads of the parent hold.\<close>

lemma child_open:
  assumes ok: "therver_ok t qs" and ac: "acceptor t \<noteq> A_Reset"
  shows "mset_set (fds t - {ss t} - set (waiting t qs)) =
    wsum (w_socks (esock (theap t))) (workers t) + mset (a_socks (esock (theap t)) (acceptor t))"
proof -
  let ?T = "wsum (w_socks (esock (theap t))) (workers t) + mset (a_socks (esock (theap t)) (acceptor t))"
  have fin: "finite (fds t)" and held: "mset (waiting t qs @ fd_list (ss t)) + ?T = mset_set (fds t)"
    using ok ac by (auto simp: therver_ok_def fds_ok_def held_def Let_def waiting_def ac_simps)
  have sub: "mset (waiting t qs @ fd_list (ss t)) \<subseteq># mset_set (fds t)"
    unfolding held [symmetric] by simp
  note d = subset_distinct [OF fin sub]
  have "?T = mset_set (fds t) - mset_set (set (waiting t qs @ fd_list (ss t)))"
  proof -
    have "mset_set (set (waiting t qs @ fd_list (ss t))) = mset (waiting t qs @ fd_list (ss t))"
      using d by (intro mset_set_set) blast
    then show ?thesis
      unfolding held [symmetric] by (simp only: add_diff_cancel_left')
  qed
  also have "\<dots> = mset_set (fds t - set (waiting t qs @ fd_list (ss t)))"
    using fin d by (simp add: mset_set_Diff)
  also have "fds t - set (waiting t qs @ fd_list (ss t)) = fds t - {ss t} - set (waiting t qs)"
    using no_minus_one [OF ok] by (cases "ss t = - 1") auto
  finally show ?thesis
    by simp
qed

end
