(* ===== verification/TherverRun.thy ===== *)
theory TherverRun
  imports TherverSafe
begin

text \<open>
  Runs of the threaded server: what the invariant says of every server that \<open>therver\<close> started, a
  run that loses a connection after the server was shut down, and what \<open>fork\<close> meets.
\<close>

subsection \<open>A run that strands a connection\<close>

text \<open>A server with one worker, in a state given by what changes.\<close>

definition demo_env :: server_env where
  "demo_env = \<lparr>env_calloc = True, env_socket = 3, env_parses = (\<lambda>_. True), env_resolves = (\<lambda>_. True), env_bound = True,
     env_malloc = True, env_spawned = (\<lambda>_. True), env_acceptor = True\<rparr>"

definition demo_server :: "'d therver_s" where
  "demo_server = snd (start_threads demo_env 1 (new_therver 3))"

definition demo_state :: "bool \<Rightarrow> int \<Rightarrow> mutex \<Rightarrow> 'd qentry heap \<Rightarrow> 'd wpc \<Rightarrow> apc \<Rightarrow> int set \<Rightarrow> 'd therver_s" where
  "demo_state act s mx h pc ac F = \<lparr>active = act, ss = s, pool_mutex = mx, root = 0, theap = h,
     workers = [\<lparr>w_pc = pc, w_data = None\<rparr>], acceptor = ac, fds = F\<rparr>"

definition demo_heap :: "(nat \<rightharpoonup> 'd qentry) \<Rightarrow> nat \<Rightarrow> 'd qentry heap" where
  "demo_heap m n = \<lparr>mem = m, brk = n\<rparr>"

definition demo_entry :: "ptr \<Rightarrow> ptr \<Rightarrow> int \<Rightarrow> 'd qentry" where
  "demo_entry p n s = \<lparr>q_prev = p, q_next = n, q_c = \<lparr>conn_s = s, conn_data = None\<rparr>\<rparr>"

lemma run_first:
  assumes "run p u es v" "step p t e (Inr u)"
  shows "run p t (e # es) v"
  using assms
proof (induction rule: run.induct)
  case (run_refl u)
  then show ?case
    using run_step [OF run.run_refl] by fastforce
next
  case (run_step u es v f w)
  then show ?case
    using run.run_step [of p t "e # es" v f w] by simp
qed

lemma run_next: "step p t e r \<Longrightarrow> e = e' \<Longrightarrow> r = Inr u \<Longrightarrow> run p u es v \<Longrightarrow> run p t (e' # es) v"
  using run_first by blast

lemma demo_fds: "insert 5 {3} - {3} = {5 :: int}"
  by auto

lemmas demo_defs = demo_fds demo_state_def goto_def worker_at_def nothing_queued_def wake_def deref_def therver_shutdown_def
  demo_heap_def demo_entry_def accept_alloc_def new_rec_def accept_end_def accept_reset_def close_fd_def enqueue_def assign_def put_rec_def
  sock_of_def

lemma demo_start:
  "demo_server = demo_state True 3 Unlocked (demo_heap [0 \<mapsto> demo_entry (Some 0) (Some 0) (- 1)] 1) W_Loop A_Loop {3}"
  by (simp add: demo_server_def demo_env_def start_threads_def new_therver_def new_rec_def empty_heap_def Let_def
    demo_state_def demo_heap_def demo_entry_def put_rec_def)

lemma demo_run:
  "\<exists>h. run p demo_server
    [Tau, Tau, Tau, Tau, Tau, Accepted 5, Tau, Tau, Queued 5, Tau, Tau, Tau, Tau, Tau, Tau, Tau, Tau]
    (demo_state False (- 1) Unlocked h W_Exit A_Exit {5})"
  unfolding demo_start
  apply (rule exI)
  apply (rule run_next [OF step.w_loop [where i = 0]], (simp add: demo_defs)+)
  apply (rule run_next [OF step.w_lock [where i = 0]], (simp add: demo_defs)+)
  apply (rule run_next [OF step.w_wait [where i = 0 and r = "demo_entry (Some 0) (Some 0) (- 1)"]], (simp add: demo_defs)+)
  apply (rule run_next [OF step.a_loop], (simp add: demo_defs)+)
  apply (rule run_next [OF step.shutdown], (simp add: demo_defs)+)
  apply (rule run_next [OF step.a_accept [where s = 5]], (simp add: demo_defs)+)
  apply (rule run_next [OF step.a_alloc [where ok = True]], (simp add: demo_defs)+)
  apply (rule run_next [OF step.a_lock], (simp add: demo_defs)+)
  apply (rule run_next [OF step.a_enqueue], (simp add: demo_defs)+)
  apply (rule run_next [OF step.a_broadcast], (simp add: demo_defs)+)
  apply (rule run_next [OF step.a_unlock], (simp add: demo_defs)+)
  apply (rule run_next [OF step.w_lock [where i = 0]], (simp add: demo_defs)+)
  apply (rule run_next [OF step.w_stop [where i = 0]], (simp add: demo_defs)+)
  apply (rule run_next [OF step.w_leave [where i = 0]], (simp add: demo_defs)+)
  apply (rule run_next [OF step.a_loop], (simp add: demo_defs)+)
  apply (rule run_next [OF step.a_end], (simp add: demo_defs)+)
  apply (rule run_next [OF step.a_reset], (simp add: demo_defs)+)
  apply (rule run_refl)
  done

lemma demo_started: "therver demo_env None 1 [] = Inr (Some 0, [] @ [demo_server])"
  by (simp add: therver_def demo_env_def demo_server_def start_threads_def new_therver_def new_rec_def Let_def)

subsection \<open>Every started server\<close>

lemma therver_result:
  assumes "therver env host n ts = Inr (Some k, ts @ [t])"
  shows "therver_ok t []"
proof -
  have "env_socket env \<noteq> - 1" "env_malloc env" "t = snd (start_threads env n (new_therver (env_socket env)))"
    using assms by (auto simp: therver_def start_threads_def Let_def split: if_splits)
  then show ?thesis
    using started_ok by metis
qed

text \<open>Shut down, with all workers at their end.\<close>

definition stopped :: "'d therver_s \<Rightarrow> bool" where
  "stopped t \<longleftrightarrow> \<not> active t \<and> list_all (\<lambda>w. w_pc w = W_Exit) (workers t)"

lemma stopped_at: "stopped t \<Longrightarrow> worker_at i pc t \<Longrightarrow> pc = W_Exit"
  by (auto simp: stopped_def worker_at_def list_all_length)

lemma stopped_step:
  assumes "step p t e r" "r = Inr u" "stopped t"
  shows "stopped u \<and> taken [e] = []"
  using assms(1,2) stopped_at [OF assms(3)] assms(3)
  by (cases rule: step.cases)
    (auto simp: taken_def stopped_def accept_alloc_def accept_end_def accept_reset_def enqueue_def therver_shutdown_def
      fork_lock_def fork_unlock_def close_fd_def rbind_iffs wake_def list_all_iff Let_def dest: stopped_at
      split: if_splits mutex.splits prod.splits)

lemma stopped_run: "run p t es u \<Longrightarrow> stopped t \<Longrightarrow> stopped u \<and> taken es = []"
  by (induction rule: run.induct) (auto simp: taken_def dest!: stopped_step [OF _ refl])

text \<open>Between the two steps at the end of the acceptor the field names a descriptor that is closed.\<close>

lemma reset_step:
  assumes "step p t e r" "r = Inr u" "acceptor t = A_Reset \<Longrightarrow> ss t \<notin> fds t" "acceptor u = A_Reset"
  shows "ss u \<notin> fds u"
  using assms
  by (cases rule: step.cases)
    (auto simp: goto_def dequeue_def worker_hand_data_def worker_return_def worker_close_def accept_alloc_def accept_end_def
      accept_reset_def enqueue_def therver_shutdown_def fork_lock_def fork_unlock_def close_fd_def rbind_iffs Let_def
      split: if_splits mutex.splits prod.splits)

lemma reset_run: "run p t es u \<Longrightarrow> acceptor t \<noteq> A_Reset \<Longrightarrow> acceptor u = A_Reset \<Longrightarrow> ss u \<notin> fds u"
proof (induction rule: run.induct)
  case (run_step t es u e v)
  from reset_step [OF run_step.hyps(2) refl run_step.IH [OF run_step.prems(1)] run_step.prems(2)] show ?case .
qed simp

lemma started_acceptor:
  assumes "therver env host n ts = Inr (Some k, ts @ [t])"
  shows "acceptor t \<noteq> A_Reset"
  using assms by (auto simp: therver_def start_threads_def Let_def split: if_splits)

context process_contract
begin

lemma started_run:
  assumes "therver env host n ts = Inr (Some k, ts @ [t])" "run process t es u"
  shows "\<exists>qs. therver_ok u qs \<and> queued es = taken es @ waiting u qs"
  using run_kept [OF assms(2) therver_result [OF assms(1)]] by (simp add: waiting_def)

lemma no_fault:
  assumes "therver env host n ts = Inr (Some k, ts @ [t])" "run process t es u" "step process u e r"
  shows "(\<exists>v. r = Inr v) \<or> (\<exists>f. r = Inl f \<and> process_fault process u f)"
  using started_run [OF assms(1,2)] step_kept [OF assms(3)] by (auto simp: step_ok_def)

lemma sleeping:
  assumes "therver env host n ts = Inr (Some k, ts @ [t])" "run process t es u" "worker_at i W_Sleep u" "acceptor u \<noteq> A_Broadcast"
  shows "queued es = taken es"
proof -
  obtain qs where qs: "therver_ok u qs" "queued es = taken es @ waiting u qs"
    using started_run [OF assms(1,2)] by blast
  then show ?thesis
    using w_localD [OF qs(1) assms(3)] assms(4) by (simp add: waiting_def)
qed

lemma one_owner:
  assumes "therver env host n ts = Inr (Some k, ts @ [t])" "run process t es u"
  shows "\<exists>qs. queue_ok u qs \<and> mset_set (fds u) = held u qs"
  using started_run [OF assms] by (auto simp: therver_ok_def fds_ok_def)

text \<open>A server that was shut down and whose workers have ended takes nothing off its queue, and keeps
  what waits there open.\<close>

lemma stranded:
  assumes "therver env host n ts = Inr (Some k, ts @ [t])" "run process t es u" "stopped u" "run process u es' v"
  shows "taken es' = [] \<and> (\<exists>qs rest. queue_ok v qs \<and> map (esock (theap v)) qs = rest @ queued es' \<and>
    queued es = taken es @ rest \<and> set rest \<subseteq> fds v)"
proof -
  obtain qs where qs: "therver_ok u qs" "queued es = taken es @ waiting u qs"
    using started_run [OF assms(1,2)] by blast
  obtain qs' where qs': "therver_ok v qs'" "waiting u qs @ queued es' = taken es' @ waiting v qs'"
    using run_kept [OF assms(4) qs(1)] by blast
  have none: "taken es' = []"
    using stopped_run [OF assms(4,3)] by simp
  then have "waiting v qs' = waiting u qs @ queued es'"
    using qs'(2) by simp
  moreover have "set (waiting u qs) \<subseteq> fds v"
    using waiting_open(2) [OF qs'(1)] calculation by simp
  ultimately show ?thesis
    using none qs(2) qs'(1) by (auto simp: therver_ok_def waiting_def)
qed

end

end
