(* ===== verification/Osrv.thy ===== *)
theory Osrv
  imports Obj FdSfs HttpOut TherverRun
begin

text \<open>
  The TCP object server, \<open>do_process\<close> of src/osrv.c: it reads a request line from a 64k
  buffer, runs GET, HAS, DEL or PUT against the object store and answers.
\<close>

subsection \<open>The request buffer\<close>

text \<open>
  After \<open>recv\<close> the buffer holds the received bytes and a NUL. The rest of the buffer is never
  read: the scans stop at that NUL. Positions are indices into this string.
\<close>

definition MAX_BUF :: nat where "MAX_BUF = 65536"
definition FETCH_SIZE :: nat where "FETCH_SIZE = 512 * 1024"

text \<open>A scan forward over characters of a class.\<close>

definition span_from :: "(char \<Rightarrow> bool) \<Rightarrow> string \<Rightarrow> nat \<Rightarrow> nat" where
  "span_from P buf d = d + length (takeWhile P (drop d buf))"

text \<open>\<open>strchr(buf, '\n')\<close>, then back over the line end; the result is the position behind the
  last character of the line, counted with the loop's \<open>d++\<close>.\<close>

definition find_newline :: "string \<Rightarrow> nat option" where
  "find_newline buf = (if CHR 0x0A \<in> set (cstr buf) then Some (length (takeWhile (\<lambda>c. c \<noteq> CHR 0x0A) buf)) else None)"

primrec trim_back :: "string \<Rightarrow> nat \<Rightarrow> nat" where
  "trim_back buf 0 = 0"
| "trim_back buf (Suc d) = (if is_eol (buf ! d) then trim_back buf d else Suc d)"

text \<open>The request: command, argument, the position \<open>d\<close> of the line's end (null when there was
  no newline) and the buffer, in which the line's end and the command's end are now NUL. No
  request comes out when the line has nothing after the command.\<close>

record request =
  rq_cmd :: string
  rq_arg :: string
  rq_d :: "nat option"
  rq_mem :: string

definition parse_request :: "string \<Rightarrow> request option" where
  "parse_request bs =
     (let buf = bs @ [nul];
          d = map_option (\<lambda>i. trim_back buf (Suc i)) (find_newline buf);
          buf = (case d of None \<Rightarrow> buf | Some p \<Rightarrow> buf[p := nul]);
          e = span_from is_upper buf 0 in
      if buf ! e = nul then None
      else
        (let a = span_from is_blank buf e;
             buf = buf[e := nul] in
         Some \<lparr>rq_cmd = cstr buf, rq_arg = cstr (drop a buf), rq_d = d, rq_mem = buf\<rparr>))"

text \<open>\<open>atol\<close>: the digits from \<open>d\<close> on, saturated at the largest long.\<close>

definition atol_at :: "string \<Rightarrow> nat \<Rightarrow> nat" where
  "atol_at buf d = min (dec_digits (takeWhile is_digit (drop d buf))) (2 ^ 63 - 1)"

text \<open>The size line of PUT: invalid, unknown size, or a size with the position of the payload.
  A request without newline has no position to start from; the code increments and reads
  through the null pointer.\<close>

datatype put_size = PutInvalid | PutUnknown | PutSize nat nat

definition put_header :: "string \<Rightarrow> nat option \<Rightarrow> nat \<Rightarrow> fault + put_size" where
  "put_header buf d be =
     (case d of
        None \<Rightarrow> Inl (Undefined NullDeref)
      | Some p \<Rightarrow>
          if \<not> p < be then Inr PutInvalid
          else
            (let d = span_from is_eol buf (Suc p) in
             if buf ! d = CHR ''?'' \<and> is_eol (buf ! (d + 1)) then Inr PutUnknown
             else if is_digit (buf ! d) then
               (let len = atol_at buf d; d = span_from is_digit buf d in
                if \<not> is_eol (buf ! d) then Inr PutInvalid
                else (let d = (if buf ! d = CHR 0x0D \<and> buf ! (d + 1) = CHR 0x0A then d + 1 else d) in
                      Inr (PutSize len (d + 1))))
             else Inr PutInvalid))"

subsection \<open>Serving a request\<close>

text \<open>The loop that fetches the rest of a payload; what it received is not used afterwards.\<close>

function fetch_rest :: "nat \<Rightarrow> sock \<Rightarrow> sock" where
  "fetch_rest left s =
     (if 0 < left then
        (let (n, bs, s) = sock_recv (if FETCH_SIZE < left then FETCH_SIZE else left) s in
         if n < 1 then s else fetch_rest (left - nat n) s)
      else s)"
  by pat_completeness auto
termination
  by (relation "measure fst") auto

declare fetch_rest.simps [simp del]

text \<open>Each command returns whether the connection goes on (\<open>False\<close> is the loop's \<open>break\<close>).
  A pointer into the store is followed when it is used.\<close>

type_synonym served = "fault + bool \<times> sock \<times> store"

definition reply :: "string \<Rightarrow> sock \<Rightarrow> store \<Rightarrow> served" where
  "reply msg s w = (case send_buf (msg @ [CHR 0x0A]) s of (r, s) \<Rightarrow> Inr (r = 0, s, w))"

definition serve_get :: "bool \<Rightarrow> string \<Rightarrow> sock \<Rightarrow> store \<Rightarrow> served" where
  "serve_get has a s w =
     rbind (obj_get a False w) (\<lambda>(p, w).
       if p = NULL then reply ''NF'' s w
       else if has then reply ''OK'' s w
       else
         rbind (deref (oheap w) p) (\<lambda>v.
         case o_obj v of
           None \<Rightarrow>
             rbind (reply ''OK ?'' s w) (\<lambda>(go, s, w).
               if \<not> go then Inr (False, s, w)
               else (case o_sWhat v of
                       None \<Rightarrow> Inl (Undefined NullDeref)
                     | Some x \<Rightarrow> rbind (fd_store s x) (\<lambda>s. Inr (False, s, w))))
         | Some data \<Rightarrow>
             rbind (reply (''OK '' @ dec_string (unat (o_len v))) s w) (\<lambda>(go, s, w).
               if \<not> go then Inr (False, s, w)
               else rbind (read_mem (unat (o_len v)) data) (\<lambda>bs.
                      case send_buf bs s of (r, s) \<Rightarrow> Inr (r = 0, s, w)))))"

definition serve_del :: "string \<Rightarrow> sock \<Rightarrow> store \<Rightarrow> served" where
  "serve_del a s w =
     rbind (obj_get a True w) (\<lambda>(p, w). reply (if p \<noteq> NULL then ''OK'' else ''NF'') s w)"

definition serve_put :: "(nat \<Rightarrow> bool) \<Rightarrow> request \<Rightarrow> nat \<Rightarrow> sock \<Rightarrow> store \<Rightarrow> served" where
  "serve_put mok rq be s w =
     rbind (put_header (rq_mem rq) (rq_d rq) be) (\<lambda>h.
       case h of
         PutInvalid \<Rightarrow> rbind (reply ''INV'' s w) (\<lambda>(go, s, w). Inr (False, s, w))
       | PutUnknown \<Rightarrow> reply ''UNSUPP'' s w
       | PutSize len d \<Rightarrow>
           if len = 0 then reply ''UNSUPP'' s w
           else if \<not> mok len then rbind (reply ''ERR'' s w) (\<lambda>(go, s, w). Inr (False, s, w))
           else if d < be \<and> len \<le> be - d then
             rbind (obj_add mok (rq_arg rq) None (Some (take len (drop d (rq_mem rq)))) (of_nat len) w) (\<lambda>w.
             rbind (reply ''OK'' s w) (\<lambda>(go, s, w). Inr (\<not> len < be - d, s, w)))
           else Inr (True, fetch_rest (len - (if d < be then be - d else 0)) s, w))"

definition serve :: "(nat \<Rightarrow> bool) \<Rightarrow> string \<Rightarrow> sock \<Rightarrow> store \<Rightarrow> served" where
  "serve mok bs s w =
     (case parse_request bs of
        None \<Rightarrow> Inr (False, s, w)
      | Some rq \<Rightarrow>
          if rq_cmd rq = ''GET'' \<or> rq_cmd rq = ''HAS'' then serve_get (rq_cmd rq = ''HAS'') (rq_arg rq) s w
          else if rq_cmd rq = ''DEL'' then serve_del (rq_arg rq) s w
          else if rq_cmd rq = ''PUT'' then serve_put mok rq (length bs) s w
          else reply ''UNSUPP'' s w)"

subsection \<open>The connection loop\<close>

lemma send_buf_rx: "send_buf bs s = (r, s') \<Longrightarrow> rx_size s' = rx_size s"
  using send_loop_spec [of bs s r s'] by (simp add: send_buf_def rx_size_def)

lemma fetch_rest_rx: "rx_size (fetch_rest left s) \<le> rx_size s"
proof (induction left s rule: fetch_rest.induct)
  case (1 left s)
  show ?case
  proof (cases "0 < left")
    case True
    let ?cap = "if FETCH_SIZE < left then FETCH_SIZE else left"
    obtain n bs s1 where r: "sock_recv ?cap s = (n, bs, s1)"
      by (cases "sock_recv ?cap s")
    have le: "rx_size s1 \<le> rx_size s"
      using r sock_recv_size [OF r]
      by (cases "n = 0") (auto simp: sock_recv_def rx_size_def split: list.splits rx_event.splits if_splits)
    show ?thesis
    proof (cases "n < 1")
      case False
      have "rx_size (fetch_rest (left - nat n) s1) \<le> rx_size s1"
        using "1.IH" [OF True refl r [symmetric] refl False] .
      with le True False r show ?thesis
        by (subst fetch_rest.simps) simp
    qed (use le True r in \<open>subst fetch_rest.simps, simp\<close>)
  qed (simp add: fetch_rest.simps)
qed

lemma reply_rx: "reply msg s w = Inr (go, s', w') \<Longrightarrow> rx_size s' = rx_size s"
  by (cases "send_buf (msg @ [CHR 0x0A]) s") (auto simp: reply_def dest: send_buf_rx)

lemma serve_get_rx: "serve_get has a s w = Inr (True, s', w') \<Longrightarrow> rx_size s' = rx_size s"
proof -
  have "rx_size s2 = rx_size s1" if "(case send_buf bs s1 of (r, s) \<Rightarrow> Inr (r = 0, s, w)) = Inr (go, s2, w2)"
    for bs s1 s2 w w2 go
    using that by (cases "send_buf bs s1") (auto dest: send_buf_rx)
  then show "serve_get has a s w = Inr (True, s', w') \<Longrightarrow> ?thesis"
    unfolding serve_get_def
    by (fastforce simp: rbind_iffs dest: reply_rx split: option.split_asm if_split_asm)
qed

lemma serve_del_rx: "serve_del a s w = Inr (True, s', w') \<Longrightarrow> rx_size s' = rx_size s"
  unfolding serve_del_def by (auto simp: rbind_iffs dest: reply_rx)

lemma serve_put_rx:
  assumes "serve_put mok rq be s w = Inr (True, s', w')"
  shows "rx_size s' \<le> rx_size s"
proof -
  obtain h where h: "put_header (rq_mem rq) (rq_d rq) be = Inr h"
    using assms by (auto simp: serve_put_def rbind_iffs)
  show ?thesis
  proof (cases h)
    case (PutSize len d)
    consider "len = 0" | "0 < len" "\<not> mok len" | "0 < len" "mok len" "d < be \<and> len \<le> be - d"
      | "0 < len" "mok len" "\<not> (d < be \<and> len \<le> be - d)"
      by blast
    then show ?thesis
    proof cases
      case 4
      then show ?thesis
        using assms h PutSize fetch_rest_rx unfolding serve_put_def by auto
    qed (use assms h PutSize in \<open>auto simp: serve_put_def rbind_iffs dest!: reply_rx\<close>)
  qed (use assms h in \<open>auto simp: serve_put_def rbind_iffs dest!: reply_rx\<close>)
qed

lemma serve_rx: "serve mok bs s w = Inr (True, s', w') \<Longrightarrow> rx_size s' \<le> rx_size s"
  unfolding serve_def
  by (auto dest: reply_rx serve_get_rx serve_del_rx serve_put_rx split: option.split_asm if_split_asm)

function do_loop :: "(nat \<Rightarrow> bool) \<Rightarrow> sock \<Rightarrow> store \<Rightarrow> fault + sock \<times> store" where
  "do_loop mok s w =
     (let (n, bs, s) = sock_recv (MAX_BUF - 1) s in
      if n < 1 then Inr (s, w)
      else rbind (serve mok bs s w) (\<lambda>(go, s, w). if go then do_loop mok s w else Inr (s, w)))"
  by pat_completeness auto
termination
proof (relation "measure (\<lambda>(mok, s, w). rx_size s)")
  fix mok s w x n y bs s1 r z go s2 w2 
  assume "x = sock_recv (MAX_BUF - 1) s" "(n, y) = x" "(bs, s1) = y" "\<not> n < (1 :: int)"
    and "serve mok bs s1 w = Inr r" "(go, z) = r" "(s2, w2) = z" go
  then show "((mok, s2, w2), (mok, s, w)) \<in> measure (\<lambda>(mok, s, w). rx_size s)"
    using sock_recv_size [of "MAX_BUF - 1" s n bs s1] serve_rx [of mok bs s1 w s2 w2] by auto
qed simp

declare do_loop.simps [simp del]

text \<open>A connection: its socket, whether the descriptor is still valid (the code sets it to -1
  after closing), and whether the worker's buffer is allocated. Without a descriptor or a
  buffer the connection is left alone; at the end it is closed.\<close>

record conn =
  c_sock :: sock
  c_valid :: bool
  c_data :: bool

definition do_process :: "(nat \<Rightarrow> bool) \<Rightarrow> conn \<Rightarrow> store \<Rightarrow> fault + conn \<times> store" where
  "do_process mok c w =
     (if \<not> c_valid c \<or> \<not> c_data c \<and> \<not> mok (8 + MAX_BUF + 2048) then Inr (c, w)
      else rbind (do_loop mok (c_sock c) w) (\<lambda>(s, w).
        Inr (\<lparr>c_sock = closesocket s, c_valid = False, c_data = True\<rparr>, w)))"

text \<open>What it does with a connection of the threaded server, whatever the client sends and the store
  holds: it runs into a fault, or leaves the connection. It keeps the contract of a process function:
  the socket is closed exactly when \<open>s\<close> was set to -1.\<close>

definition osrv_conn :: "unit process_fn" where
  "osrv_conn c r \<longleftrightarrow>
     (\<exists>mok s w. is_open s \<and>
        (case do_process mok \<lparr>c_sock = s, c_valid = (0 \<le> conn_s c), c_data = (conn_data c \<noteq> None)\<rparr> w of
           Inl f \<Rightarrow> r = Inl f
         | Inr (v, w') \<Rightarrow>
             r = Inr (\<lparr>conn_s = (if c_valid v = (0 \<le> conn_s c) then conn_s c else - 1),
                       conn_data = (if c_data v then Some () else None)\<rparr>, \<not> is_open (c_sock v))))"

interpretation osrv_therver: process_contract osrv_conn
  by unfold_locales (auto simp: osrv_conn_def do_process_def closesocket_def rbind_iffs split: if_splits sum.splits)

subsection \<open>Parsing well-formed requests\<close>

definition key_ok :: "string \<Rightarrow> bool" where
  "key_ok k \<longleftrightarrow> k \<noteq> [] \<and> nul \<notin> set k \<and> list_all (\<lambda>c. \<not> is_eol c) k \<and> \<not> is_blank (hd k)"

lemma span_from_stop:
  "length pre = n \<Longrightarrow> list_all P xs \<Longrightarrow> \<not> P y \<Longrightarrow> span_from P (pre @ xs @ y # ys) n = n + length xs"
  by (simp add: span_from_def takeWhile_stop)

lemma parse_request_line:
  assumes cmd: "cmd \<noteq> []" "list_all is_upper cmd" "nul \<notin> set cmd" "CHR 0x0A \<notin> set cmd" and k: "key_ok k"
  shows "parse_request (cmd @ CHR '' '' # k @ CHR 0x0A # rest) =
    Some \<lparr>rq_cmd = cmd, rq_arg = k, rq_d = Some (length cmd + 1 + length k),
      rq_mem = cmd @ nul # k @ nul # rest @ [nul]\<rparr>"
proof -
  let ?p = "length cmd + 1 + length k"
  let ?buf = "cmd @ CHR '' '' # k @ CHR 0x0A # rest @ [nul]"
  have kl: "CHR 0x0A \<notin> set k" "nul \<notin> set k" "k \<noteq> []"
    using k by (auto simp: key_ok_def is_eol_def list_all_iff)
  have "cstr ((cmd @ CHR '' '' # k @ [CHR 0x0A]) @ rest @ [nul]) =
      (cmd @ CHR '' '' # k @ [CHR 0x0A]) @ cstr (rest @ [nul])"
    unfolding cstr_def by (rule takeWhile_append2) (use cmd(3) kl(2) in auto)
  then have "CHR 0x0A \<in> set (cstr ?buf)"
    by simp
  moreover have "takeWhile (\<lambda>c. c \<noteq> CHR 0x0A) ?buf = cmd @ CHR '' '' # k"
  proof -
    have "list_all (\<lambda>c. c \<noteq> CHR 0x0A) (cmd @ CHR '' '' # k)"
      using cmd(4) kl(1) by (auto simp: list_all_iff)
    from takeWhile_stop [OF this, of "CHR 0x0A" "rest @ [nul]"] show ?thesis
      by simp
  qed
  ultimately have nl: "find_newline ?buf = Some ?p"
    by (simp add: find_newline_def)
  have at_p: "?buf ! ?p = CHR 0x0A"
    by (simp add: nth_append)
  obtain c where c: "?buf ! (length cmd + length k) = c" "\<not> is_eol c"
  proof
    have "?buf ! (length cmd + length k) = last k"
      using kl(3) by (simp add: nth_append nth_Cons' last_conv_nth)
    then show "?buf ! (length cmd + length k) = last k" .
    show "\<not> is_eol (last k)"
      using k kl(3) by (auto simp: key_ok_def list_all_iff)
  qed
  have tb: "trim_back ?buf (Suc ?p) = ?p"
    using at_p c by (simp add: is_eol_def)
  have m1: "?buf[?p := nul] = cmd @ CHR '' '' # k @ nul # rest @ [nul]"
    by (simp add: list_update_append)
  have e: "span_from is_upper (cmd @ CHR '' '' # k @ nul # rest @ [nul]) 0 = length cmd"
    using span_from_stop [of "[]" 0 is_upper cmd "CHR '' ''" "k @ nul # rest @ [nul]"] cmd(2) by simp
  obtain k0 ks where kc: "k = k0 # ks" "\<not> is_blank k0"
    using k by (cases k) (auto simp: key_ok_def)
  have a: "span_from is_blank (cmd @ CHR '' '' # k @ nul # rest @ [nul]) (length cmd) = length cmd + 1"
    using span_from_stop [of cmd "length cmd" is_blank "[CHR '' '']" k0 "ks @ nul # rest @ [nul]"] kc
    by (simp add: is_blank_def)
  have "cstr (k @ nul # rest @ [nul]) = k" "cstr (cmd @ nul # k @ nul # rest @ [nul]) = cmd"
    using kl(2) cmd(3) by simp_all
  then show ?thesis
    unfolding parse_request_def Let_def
    using nl tb m1 e a by (simp add: nth_append)
qed

subsection \<open>Numbers\<close>

lemma is_digit_not: "\<not> is_digit nul" "\<not> is_digit (CHR 0x0A)" "is_digit c \<Longrightarrow> \<not> is_eol c \<and> c \<noteq> CHR ''?''"
  by (auto simp: is_digit_def is_eol_def less_eq_char_def)

lemma put_header_line:
  assumes pre: "length pre = p" and be: "p < be" and n: "n < 2 ^ 63"
  shows "put_header (pre @ nul # dec_string n @ CHR 0x0A # load @ [nul]) (Some p) be =
    Inr (PutSize n (p + 1 + length (dec_string n) + 1))"
proof -
  let ?ds = "dec_string n" and ?buf = "pre @ nul # dec_string n @ CHR 0x0A # load @ [nul]"
  obtain c cs where ds: "?ds = c # cs" "is_digit c"
    using dec_string_digits [of n] dec_string_nonempty [of n] by (cases ?ds) auto
  have e: "span_from is_eol ?buf (Suc p) = Suc p"
    using span_from_stop [of "pre @ [nul]" "Suc p" is_eol "[]" c "cs @ CHR 0x0A # load @ [nul]"] pre ds is_digit_not(3)
    by simp
  have at: "?buf ! Suc p = c"
    using pre ds by (simp add: nth_append)
  have tw: "takeWhile is_digit (drop (Suc p) ?buf) = ?ds"
    using pre takeWhile_stop [OF dec_string_digits is_digit_not(2), of n "load @ [nul]"] by simp
  have d: "span_from is_digit ?buf (Suc p) = Suc p + length ?ds"
    by (simp only: span_from_def tw)
  have at2: "?buf ! (Suc p + length ?ds) = CHR 0x0A"
    using pre by (simp add: nth_append)
  have "atol_at ?buf (Suc p) = n"
    unfolding atol_at_def tw dec_digits_dec_string using n by simp
  then show ?thesis
    using be e at ds(2) d at2 is_digit_not(3) [OF ds(2)] unfolding put_header_def Let_def
    by (simp add: is_eol_def)
qed

subsection \<open>Serving, with a peer that reads\<close>

lemma send_loop_keeps: "send_loop buf s = (r, s') \<Longrightarrow> accepts m s \<Longrightarrow> accepts m s'"
proof (induction buf s arbitrary: r s' rule: send_loop.induct)
  case (1 buf s)
  show ?case
  proof (cases "buf = []")
    case True
    then show ?thesis using "1.prems" by (simp add: send_loop.simps [of "[]"])
  next
    case False
    let ?ts = "if MAX_SEND < length buf then MAX_SEND else length buf"
    obtain n s1 where s1: "sock_send (take ?ts buf) s = (n, s1)"
      by (cases "sock_send (take ?ts buf) s")
    have acc: "accepts m s1"
      using sock_send_accepts [OF "1.prems"(2) s1] by simp
    show ?thesis
    proof (cases "n < 1")
      case True
      then show ?thesis
        using "1.prems" False s1 acc by (auto simp: send_loop.simps [of buf] Let_def split: if_splits)
    next
      case nlt: False
      then have "send_loop (drop (nat n) buf) s1 = (r, s')"
        using "1.prems" False s1 by (simp add: send_loop.simps [of buf] Let_def)
      from "1.IH" [OF False refl s1 [symmetric] refl nlt this acc] show ?thesis .
    qed
  qed
qed

lemma send_buf_accepts:
  assumes "accepts m s" "1 \<le> m"
  shows "\<exists>s'. send_buf bs s = (0, s') \<and> accepts m s' \<and> tx s' = tx s @ bs \<and> rx s' = rx s"
proof -
  obtain s' where "send_loop bs s = (0, s')" "tx s' = tx s @ bs" "rx s' = rx s"
    using send_loop_accepts [OF accepts_mono [OF assms]] by blast
  with send_loop_keeps assms(1) show ?thesis
    unfolding send_buf_def by blast
qed

lemma reply_accepts:
  "accepts m s \<Longrightarrow> 1 \<le> m \<Longrightarrow>
    \<exists>s'. reply msg s w = Inr (True, s', w) \<and> accepts m s' \<and> tx s' = tx s @ msg @ [CHR 0x0A] \<and> rx s' = rx s"
  using send_buf_accepts [of m s "msg @ [CHR 0x0A]"] by (auto simp: reply_def)

definition line :: "string \<Rightarrow> string \<Rightarrow> string" where
  "line cmd k = cmd @ CHR '' '' # k @ [CHR 0x0A]"

definition put_request :: "string \<Rightarrow> nat \<Rightarrow> string \<Rightarrow> string" where
  "put_request k n load = line ''PUT'' k @ dec_string n @ CHR 0x0A # load"

lemma parse_line:
  assumes "cmd \<in> {''GET'', ''HAS'', ''DEL'', ''PUT''}" "key_ok k"
  shows "parse_request (line cmd k @ rest) =
    Some \<lparr>rq_cmd = cmd, rq_arg = k, rq_d = Some (length cmd + 1 + length k), rq_mem = cmd @ nul # k @ nul # rest @ [nul]\<rparr>"
  using parse_request_line [of cmd k rest] assms
  by (auto simp: line_def is_upper_def less_eq_char_def)

lemma key_ok_cstr: "key_ok k \<Longrightarrow> cstr k = k"
  by (simp add: key_ok_def cstr_id)

lemma slice: "length a = n \<Longrightarrow> take (length b) (drop n (a @ b @ c)) = b"
  by simp

lemma serve_put_whole:
  assumes s: "accepts m s" "1 \<le> m" and w: "store_rep w kvs" and k: "key_ok k"
    and n: "load \<noteq> []" "length load < 2 ^ 63" and mok: "\<And>n. mok n"
  shows "\<exists>s' w'. serve mok (put_request k (length load) load) s w = Inr (True, s', w') \<and> accepts m s' \<and>
    tx s' = tx s @ ''OK'' @ [CHR 0x0A] \<and> rx s' = rx s \<and>
    store_rep w' ((k, of_nat (length load), Some load, None) # kvs)"
proof -
  let ?rest = "dec_string (length load) @ CHR 0x0A # load"
  let ?p = "4 + length k" and ?l = "length (dec_string (length load))"
  let ?buf = "''PUT'' @ nul # k @ nul # ?rest @ [nul]"
  have rq: "parse_request (put_request k (length load) load) =
      Some \<lparr>rq_cmd = ''PUT'', rq_arg = k, rq_d = Some ?p, rq_mem = ?buf\<rparr>"
    using parse_line [of "''PUT''" k ?rest] k by (simp add: put_request_def)
  have be: "length (put_request k (length load) load) = ?p + 1 + ?l + 1 + length load"
    by (simp add: put_request_def line_def)
  have hd: "put_header ?buf (Some ?p) (?p + 1 + ?l + 1 + length load) = Inr (PutSize (length load) (?p + 1 + ?l + 1))"
    using put_header_line [of "''PUT'' @ nul # k" ?p "?p + 1 + ?l + 1 + length load" "length load" load] n(2) by simp
  have tk: "take (length load) (drop (?p + 1 + ?l + 1) ?buf) = load"
    using slice [of "''PUT'' @ nul # k @ nul # dec_string (length load) @ [CHR 0x0A]" "?p + 1 + ?l + 1" load "[nul]"]
    by simp
  obtain w' where w': "obj_add (\<lambda>_. True) k None (Some load) (of_nat (length load)) w = Inr w'"
      "store_rep w' ((k, of_nat (length load), Some load, None) # kvs)"
    using objs.add [OF w, of k "(of_nat (length load), Some load, None)"] key_ok_cstr [OF k]
    by (auto simp: store_add_def)
  have mt: "mok = (\<lambda>_. True)"
    using mok by auto
  obtain s' where s': "reply ''OK'' s w' = Inr (True, s', w')" "accepts m s'" "tx s' = tx s @ ''OK'' @ [CHR 0x0A]" "rx s' = rx s"
    using reply_accepts [OF s, of "''OK''" w'] by blast
  have "serve_put mok \<lparr>rq_cmd = ''PUT'', rq_arg = k, rq_d = Some ?p, rq_mem = ?buf\<rparr> (?p + 1 + ?l + 1 + length load) s w =
      Inr (True, s', w')"
    unfolding serve_put_def request.simps hd rbind.simps put_size.case tk
    using n w'(1) s'(1) by (simp add: mt)
  then have "serve mok (put_request k (length load) load) s w = Inr (True, s', w')"
    unfolding serve_def rq option.case be request.simps by simp
  with s' w' show ?thesis by blast
qed

lemma store_lookup:
  assumes "store_rep w kvs" "map_of kvs k = Some v" "key_ok k"
  shows "\<exists>a en. obj_get k False w = Inr (Some a, w) \<and> mem (oheap w) a = Some en \<and> binding en = (k, v)"
proof -
  obtain xs ys where "chains w xs ys" "bindings w xs kvs"
    using assms(1) by (auto simp: store_rep_def obj_rep_def)
  from obj_get_spec [OF this, of k] assms(2) key_ok_cstr [OF assms(3)] show ?thesis
    by auto
qed

lemma serve_get_data:
  assumes s: "accepts m s" "1 \<le> m" and w: "store_rep w kvs" and k: "key_ok k"
    and v: "map_of kvs k = Some (len, Some data, what)" "unat len = length data"
  shows "\<exists>s'. serve mok (line ''GET'' k) s w = Inr (True, s', w) \<and> accepts m s' \<and> rx s' = rx s \<and>
    tx s' = tx s @ (''OK '' @ dec_string (length data) @ [CHR 0x0A]) @ data"
proof -
  obtain a en where a: "obj_get k False w = Inr (Some a, w)" "mem (oheap w) a = Some en" "o_len en = len" "o_obj en = Some data"
    using store_lookup [OF w v(1) k] by (auto simp: binding_def)
  let ?msg = "''OK '' @ dec_string (length data)"
  obtain s1 where s1: "reply ?msg s w = Inr (True, s1, w)" "accepts m s1" "tx s1 = tx s @ ?msg @ [CHR 0x0A]" "rx s1 = rx s"
    using reply_accepts [OF s] by blast
  obtain s2 where s2: "send_buf data s1 = (0, s2)" "accepts m s2" "tx s2 = tx s1 @ data" "rx s2 = rx s1"
    using send_buf_accepts [OF s1(2) s(2)] by blast
  have "serve mok (line ''GET'' k) s w = Inr (True, s2, w)"
    using parse_line [of "''GET''" k "[]"] k a v(2) s1(1) s2(1)
    by (simp add: serve_def serve_get_def read_mem_def)
  with s1 s2 show ?thesis by auto
qed

lemma serve_get_object:
  assumes s: "accepts 8 s" and w: "store_rep w kvs" and k: "key_ok k"
    and v: "map_of kvs k = Some (len, None, Some x)" and x: "wf_sexp x"
  shows "\<exists>s'. serve mok (line ''GET'' k) s w = Inr (False, s', w) \<and> tx s' = tx s @ (''OK ?'' @ [CHR 0x0A]) @ wire x"
proof -
  obtain a en where a: "obj_get k False w = Inr (Some a, w)" "mem (oheap w) a = Some en" "o_sWhat en = Some x" "o_obj en = None"
    using store_lookup [OF w v k] by (auto simp: binding_def)
  obtain s1 where s1: "reply ''OK ?'' s w = Inr (True, s1, w)" "accepts 8 s1" "tx s1 = tx s @ ''OK ?'' @ [CHR 0x0A]"
    using reply_accepts [OF s, of "''OK ?''" w] by auto
  obtain s2 where "fd_store s1 x = Inr s2" "tx s2 = tx s1 @ wire x"
    using fd_store_wire [OF s1(2) x] by blast
  with parse_line [of "''GET''" k "[]"] k a s1 show ?thesis
    by (auto simp: serve_def serve_get_def)
qed

lemma serve_del_key:
  assumes s: "accepts m s" "1 \<le> m" and w: "store_rep w kvs" and k: "key_ok k"
  shows "\<exists>s' w'. serve mok (line ''DEL'' k) s w = Inr (True, s', w') \<and> accepts m s' \<and> rx s' = rx s \<and>
    tx s' = tx s @ (if map_of kvs k = None then ''NF'' else ''OK'') @ [CHR 0x0A] \<and> store_rep w' (drop_key k kvs)"
proof -
  obtain xs ys where c: "chains w xs ys" "bindings w xs kvs"
    using w by (auto simp: store_rep_def obj_rep_def)
  obtain p w' where p: "obj_get k True w = Inr (p, w')" "p = NULL \<longleftrightarrow> map_of kvs k = None"
    using obj_remove_spec [OF c, of k] key_ok_cstr [OF k] by (cases "map_of kvs k") auto
  have "store_rep w' (drop_key k kvs)"
    using objs.remove [OF w, of k] p(1) key_ok_cstr [OF k]
    by (auto simp: store_remove_def follow_def rbind_iffs split: if_splits)
  moreover obtain s' where "reply (if p \<noteq> NULL then ''OK'' else ''NF'') s w' = Inr (True, s', w')" "accepts m s'"
      "tx s' = tx s @ (if p \<noteq> NULL then ''OK'' else ''NF'') @ [CHR 0x0A]" "rx s' = rx s"
    using reply_accepts [OF s] by blast
  ultimately show ?thesis
    using parse_line [of "''DEL''" k "[]"] k p by (auto simp: serve_def serve_del_def)
qed

lemma serve_missing:
  assumes s: "accepts m s" "1 \<le> m" and w: "store_rep w kvs" and k: "key_ok k" "map_of kvs k = None"
    and cmd: "cmd = ''GET'' \<or> cmd = ''HAS''"
  shows "\<exists>s'. serve mok (line cmd k) s w = Inr (True, s', w) \<and> accepts m s' \<and> tx s' = tx s @ ''NF'' @ [CHR 0x0A]"
proof -
  obtain xs ys where c: "chains w xs ys" "bindings w xs kvs"
    using w by (auto simp: store_rep_def obj_rep_def)
  have "obj_get k False w = Inr (NULL, w)"
    using obj_get_spec [OF c, of k] key_ok_cstr [OF k(1)] k(2) by auto
  moreover obtain s' where "reply ''NF'' s w = Inr (True, s', w)" "accepts m s'" "tx s' = tx s @ ''NF'' @ [CHR 0x0A]"
    using reply_accepts [OF s] by blast
  ultimately show ?thesis
    using parse_line [of cmd k "[]"] k(1) cmd by (auto simp: serve_def serve_get_def)
qed

subsection \<open>Whole connections\<close>

lemma do_loop_step:
  assumes "rx s = RxData bs # es" "bs \<noteq> []" "length bs < MAX_BUF"
  shows "do_loop mok s w =
    rbind (serve mok bs (s\<lparr>rx := es\<rparr>) w) (\<lambda>(go, s, w). if go then do_loop mok s w else Inr (s, w))"
proof -
  have "sock_recv (MAX_BUF - 1) s = (int (length bs), bs, s\<lparr>rx := es\<rparr>)" "0 < length bs"
    using assms by (auto simp: sock_recv_def MAX_BUF_def)
  then show ?thesis
    using assms(2) by (subst do_loop.simps) simp
qed

lemma do_loop_end: "rx s = [] \<Longrightarrow> do_loop mok s w = Inr (s, w)"
  by (subst do_loop.simps) (simp add: sock_recv_def MAX_BUF_def)

lemma put_get_session:
  assumes c: "c_valid c" "accepts 1 (c_sock c)"
      "rx (c_sock c) = [RxData (put_request k (length load) load), RxData (line ''GET'' k)]"
    and w: "store_rep w kvs" and k: "key_ok k" and mok: "\<And>n. mok n"
    and n: "load \<noteq> []" "length (put_request k (length load) load) < MAX_BUF"
  shows "\<exists>c' w'. do_process mok c w = Inr (c', w') \<and> \<not> c_valid c' \<and> \<not> is_open (c_sock c') \<and>
    tx (c_sock c') = tx (c_sock c) @ ''OK'' @ [CHR 0x0A] @ ''OK '' @ dec_string (length load) @ [CHR 0x0A] @ load \<and>
    store_rep w' ((k, of_nat (length load), Some load, None) # kvs)"
proof -
  let ?put = "put_request k (length load) load" and ?get = "line ''GET'' k"
  have len: "length load < 2 ^ 63" "length ?get < MAX_BUF"
    using n(2) by (simp_all add: put_request_def line_def MAX_BUF_def)
  let ?s1 = "c_sock c\<lparr>rx := [RxData ?get]\<rparr>"
  have "accepts 1 ?s1"
    using c(2) by (simp add: accepts_def)
  from serve_put_whole [OF this _ w k n(1) len(1), of mok] mok
  obtain s2 w2 where s2: "serve mok ?put ?s1 w = Inr (True, s2, w2)" "accepts 1 s2"
      "tx s2 = tx (c_sock c) @ ''OK'' @ [CHR 0x0A]" "rx s2 = [RxData ?get]"
      "store_rep w2 ((k, of_nat (length load), Some load, None) # kvs)"
    by auto
  have "accepts 1 (s2\<lparr>rx := []\<rparr>)"
    using s2(2) by (simp add: accepts_def)
  from serve_get_data [OF this _ s2(5) k, of "of_nat (length load)" load None mok] len(1)
  obtain s3 where s3: "serve mok ?get (s2\<lparr>rx := []\<rparr>) w2 = Inr (True, s3, w2)" "rx s3 = []"
      "tx s3 = tx s2 @ (''OK '' @ dec_string (length load) @ [CHR 0x0A]) @ load"
    by (auto simp: unat_of_nat take_bit_nat_eq_self_iff)
  have "do_loop mok (c_sock c) w = do_loop mok s2 w2"
    using do_loop_step [OF c(3), of mok w] n(2) s2(1) by (simp add: put_request_def line_def)
  also have "\<dots> = do_loop mok s3 w2"
    using do_loop_step [OF s2(4), of mok w2] len(2) s3(1) by (simp add: line_def)
  finally have "do_loop mok (c_sock c) w = Inr (s3, w2)"
    using do_loop_end [OF s3(2)] by simp
  with c(1) mok s2(3,5) s3(3) show ?thesis
    by (auto simp: do_process_def closesocket_def)
qed

lemma fetch_rest_tx: "tx (fetch_rest left s) = tx s"
proof (induction left s rule: fetch_rest.induct)
  case (1 left s)
  let ?cap = "if FETCH_SIZE < left then FETCH_SIZE else left"
  obtain n bs s1 where r: "sock_recv ?cap s = (n, bs, s1)"
    by (cases "sock_recv ?cap s")
  then show ?case
    using "1.IH" [OF _ refl r [symmetric] refl] sock_recv_frame [OF r]
    by (subst fetch_rest.simps) simp
qed

lemma serve_put_partial:
  assumes k: "key_ok k" and n: "length load < n" "n < 2 ^ 63" "mok n"
  shows "\<exists>s'. serve mok (put_request k n load) s w = Inr (True, s', w) \<and> tx s' = tx s"
proof -
  let ?rest = "dec_string n @ CHR 0x0A # load"
  let ?p = "4 + length k" and ?l = "length (dec_string n)"
  let ?buf = "''PUT'' @ nul # k @ nul # ?rest @ [nul]"
  have rq: "parse_request (put_request k n load) = Some \<lparr>rq_cmd = ''PUT'', rq_arg = k, rq_d = Some ?p, rq_mem = ?buf\<rparr>"
    using parse_line [of "''PUT''" k ?rest] k by (simp add: put_request_def)
  have be: "length (put_request k n load) = ?p + 1 + ?l + 1 + length load"
    by (simp add: put_request_def line_def)
  have hd: "put_header ?buf (Some ?p) (?p + 1 + ?l + 1 + length load) = Inr (PutSize n (?p + 1 + ?l + 1))"
    using put_header_line [of "''PUT'' @ nul # k" ?p "?p + 1 + ?l + 1 + length load" n load] n(2) by simp
  have "\<exists>left. serve_put mok \<lparr>rq_cmd = ''PUT'', rq_arg = k, rq_d = Some ?p, rq_mem = ?buf\<rparr> (?p + 1 + ?l + 1 + length load) s w =
      Inr (True, fetch_rest left s, w)"
    unfolding serve_put_def request.simps hd rbind.simps put_size.case using n by auto
  then have "\<exists>left. serve mok (put_request k n load) s w = Inr (True, fetch_rest left s, w)"
    unfolding serve_def rq option.case be request.simps by simp
  with fetch_rest_tx show ?thesis by blast
qed

lemma parse_no_newline:
  assumes "key_ok k"
  shows "parse_request (''PUT '' @ k) = Some \<lparr>rq_cmd = ''PUT'', rq_arg = k, rq_d = None, rq_mem = ''PUT'' @ nul # k @ [nul]\<rparr>"
proof -
  obtain k0 ks where kc: "k = k0 # ks" "\<not> is_blank k0"
    using assms by (cases k) (auto simp: key_ok_def)
  have kl: "CHR 0x0A \<notin> set k" "nul \<notin> set k"
    using assms by (auto simp: key_ok_def is_eol_def list_all_iff)
  let ?buf = "''PUT'' @ CHR '' '' # k @ [nul]"
  have "cstr ?buf = ''PUT '' @ k"
    using cstr_append_nul [of "''PUT '' @ k" "[]"] kl(2) by simp
  then have nl: "find_newline ?buf = None"
    using kl(1) by (simp add: find_newline_def)
  have e: "span_from is_upper ?buf 0 = 3"
    using span_from_stop [of "[]" 0 is_upper "''PUT''" "CHR '' ''" "k @ [nul]"]
    by (simp add: is_upper_def less_eq_char_def)
  have a: "span_from is_blank ?buf 3 = 4"
    using span_from_stop [of "''PUT''" 3 is_blank "[CHR '' '']" k0 "ks @ [nul]"] kc by (simp add: is_blank_def)
  have "cstr (''PUT'' @ nul # k @ [nul]) = ''PUT''" "cstr (k @ [nul]) = k"
    using kl(2) cstr_append_nul [of "''PUT''" "k @ [nul]"] by simp_all
  with nl e a show ?thesis
    unfolding parse_request_def Let_def by (simp add: eval_nat_numeral)
qed

lemma serve_put_crash: "key_ok k \<Longrightarrow> serve mok (''PUT '' @ k) s w = Inl (Undefined NullDeref)"
  using parse_no_newline [of k] by (simp add: serve_def serve_put_def put_header_def)

subsection \<open>Properties\<close>

definition client :: "rx_event list \<Rightarrow> sock" where
  "client es = \<lparr>rx = es, tx = [], plan = [], errno = 0, is_open = True\<rparr>"

lemma client_simps [simp]: "rx (client es) = es" "tx (client es) = []" "accepts m (client es)"
  by (simp_all add: client_def accepts_def)

text \<open>C6: A client that puts a value and gets it back in one connection receives "OK", then
  "OK" with the length and the very bytes it sent; the store has the new binding in front and
  the connection is closed. For every store, key without blanks or line ends, and payload whose
  request fits the 64k buffer, whatever the sizes of the single writes. Each request has to arrive
  in one packet.\<close>

theorem osrv_put_get_session:
  assumes "c_valid c" "accepts 1 (c_sock c)"
    "rx (c_sock c) = [RxData (put_request k (length load) load), RxData (line ''GET'' k)]"
    "store_rep w kvs" "key_ok k" "\<And>n. mok n" "load \<noteq> []" "length (put_request k (length load) load) < MAX_BUF"
  shows "\<exists>c' w'. do_process mok c w = Inr (c', w') \<and> \<not> c_valid c' \<and> \<not> is_open (c_sock c') \<and>
    tx (c_sock c') = tx (c_sock c) @ ''OK'' @ [CHR 0x0A] @ ''OK '' @ dec_string (length load) @ [CHR 0x0A] @ load \<and>
    store_rep w' ((k, of_nat (length load), Some load, None) # kvs)"
  using assms by (rule put_get_session)

lemma demo_key: "key_ok ''k''"
  by (simp add: key_ok_def is_eol_def is_blank_def)

theorem osrv_put_get_session_witness:
  "\<exists>c' w'. do_process (\<lambda>_. True)
      \<lparr>c_sock = client [RxData (put_request ''k'' (length ''hello'') ''hello''), RxData (line ''GET'' ''k'')],
       c_valid = True, c_data = False\<rparr> fresh_store = Inr (c', w') \<and> \<not> c_valid c' \<and> \<not> is_open (c_sock c') \<and>
    tx (c_sock c') = tx (c_sock \<lparr>c_sock = client [RxData (put_request ''k'' (length ''hello'') ''hello''), RxData (line ''GET'' ''k'')],
       c_valid = True, c_data = False\<rparr>) @ ''OK'' @ [CHR 0x0A] @ ''OK '' @ dec_string (length ''hello'') @ [CHR 0x0A] @ ''hello'' \<and>
    store_rep w' ((''k'', of_nat (length ''hello''), Some ''hello'', None) # [])"
  by (rule osrv_put_get_session)
    (simp_all add: fresh_rep demo_key put_request_def line_def MAX_BUF_def dec_string.simps)

text \<open>GET of an object that R stored for serialisation answers "OK ?" followed by exactly the
  serialised form of the object, and ends the connection.\<close>

theorem osrv_get_object:
  assumes "accepts 8 s" "store_rep w kvs" "key_ok k" "map_of kvs k = Some (len, None, Some x)" "wf_sexp x"
  shows "\<exists>s'. serve mok (line ''GET'' k) s w = Inr (False, s', w) \<and> tx s' = tx s @ (''OK ?'' @ [CHR 0x0A]) @ wire x"
  using assms by (rule serve_get_object)

definition sfs_store_demo :: store where
  "sfs_store_demo = projr (store_add fresh_store ''k'' (0, None, Some (plain (IntV [7]))))"

lemma sfs_store_demo_rep: "store_rep sfs_store_demo [(cstr ''k'', 0, None, Some (plain (IntV [7])))]"
  using fresh_add [of "''k''" "(0, None, Some (plain (IntV [7])))"] by (auto simp: sfs_store_demo_def)

theorem osrv_get_object_witness:
  "\<exists>s'. serve (\<lambda>_. True) (line ''GET'' ''k'') (client []) sfs_store_demo = Inr (False, s', sfs_store_demo) \<and>
    tx s' = tx (client []) @ (''OK ?'' @ [CHR 0x0A]) @ wire (plain (IntV [7]))"
  by (rule osrv_get_object [OF _ sfs_store_demo_rep]) (simp_all add: demo_key cstr_def len_ok_def)

text \<open>DEL removes the newest binding of the key and answers "OK", or "NF" when there is none;
  the older bindings stay.\<close>

theorem osrv_del:
  assumes "accepts m s" "1 \<le> m" "store_rep w kvs" "key_ok k"
  shows "\<exists>s' w'. serve mok (line ''DEL'' k) s w = Inr (True, s', w') \<and> accepts m s' \<and> rx s' = rx s \<and>
    tx s' = tx s @ (if map_of kvs k = None then ''NF'' else ''OK'') @ [CHR 0x0A] \<and> store_rep w' (drop_key k kvs)"
  using assms by (rule serve_del_key)

theorem osrv_del_witness:
  "\<exists>s' w'. serve (\<lambda>_. True) (line ''DEL'' ''k'') (client []) demo_store = Inr (True, s', w') \<and> accepts 1 s' \<and> rx s' = rx (client []) \<and>
    tx s' = tx (client []) @ (if map_of [(''k'', 3 :: 64 word, Some ''abc'', None :: sexp option)] ''k'' = None then ''NF'' else ''OK'') @ [CHR 0x0A] \<and>
    store_rep w' (drop_key ''k'' [(''k'', 3, Some ''abc'', None)])"
  by (rule osrv_del) (simp_all add: demo_key demo_store_rep)

text \<open>C36: A PUT whose payload is not complete in the first packet is lost: the server reads the
  rest but stores nothing and sends no answer at all.\<close>

theorem osrv_put_split_lost:
  assumes "key_ok k" "length load < n" "n < 2 ^ 63" "mok n"
  shows "\<exists>s'. serve mok (put_request k n load) s w = Inr (True, s', w) \<and> tx s' = tx s"
  using assms by (rule serve_put_partial)

theorem osrv_put_split_lost_witness:
  "\<exists>s'. serve (\<lambda>_. True) (put_request ''k'' 5 ''he'') (client [RxData ''llo'']) fresh_store = Inr (True, s', fresh_store) \<and>
    tx s' = tx (client [RxData ''llo''])"
  by (rule osrv_put_split_lost) (simp_all add: demo_key)

text \<open>A PUT request without a newline makes the server write through a null pointer.\<close>

theorem osrv_put_no_newline:
  assumes "key_ok k"
  shows "serve mok (''PUT '' @ k) s w = Inl (Undefined NullDeref)"
  using assms by (rule serve_put_crash)

theorem osrv_put_no_newline_witness:
  "serve (\<lambda>_. True) (''PUT '' @ ''k'') (client []) fresh_store = Inl (Undefined NullDeref)"
  by (rule osrv_put_no_newline) (rule demo_key)

end
