(* ===== verification/Ohsrv.thy ===== *)
theory Ohsrv
  imports HttpSafe HttpParse HcSfs Obj TherverRun
begin

text \<open>
  The HTTP object server, src/ohsrv.c: the handler \<open>http_process\<close> that serves \<open>/data/\<close> from the
  object store and pushes what is posted to \<open>/work/\<close> on the queue of the dependencies, and
  \<open>do_process\<close>, which runs \<open>http_connected\<close> on a connection of the threaded server.
\<close>

subsection \<open>Answers\<close>

text \<open>The state of the server: whether the static \<open>queue\<close> is set (to the queue of the
  dependencies, which it aliases) and the object store with those dependencies.\<close>

type_synonym web = "bool \<times> store"

definition answer :: "int \<Rightarrow> string \<Rightarrow> string option \<Rightarrow> int \<Rightarrow> string option \<Rightarrow> http_conn \<Rightarrow> http_conn" where
  "answer code txt ct cl hdrs c =
     c\<lparr>h_sock := snd (http_response (has_attr (h_req c) HTTP_1_0) code (Some txt) ct cl hdrs (h_sock c))\<rparr>"

text \<open>The key ends at a slash or a question mark; the path is cut there.\<close>

definition data_key :: "string \<Rightarrow> string" where
  "data_key path = takeWhile (\<lambda>x. x \<noteq> CHR ''/'' \<and> x \<noteq> CHR ''?'') (drop 6 path)"

text \<open>An \<open>unsigned long\<close> passed as an \<open>int\<close>.\<close>

definition to_int :: "64 word \<Rightarrow> int" where
  "to_int n = sint (ucast n :: 32 word)"

subsection \<open>The operations on data\<close>

text \<open>\<open>len0\<close> and \<open>pos0\<close> are what \<open>malloc\<close> leaves in the fields that \<open>http_store\<close> does not set.
  Sending a positive number of bytes from a null pointer is a fault.\<close>

definition data_get :: "(nat \<Rightarrow> bool) \<Rightarrow> 64 word \<Rightarrow> 64 word \<Rightarrow> string \<Rightarrow> web handler" where
  "data_get mok len0 pos0 key c web =
     (let get = (r_method (h_req c) = METHOD_GET) in
      rbind (obj_get key False (snd web)) (\<lambda>(p, w).
        if p = NULL then Inr (answer 404 ''Object Not Found'' None 0 None c, fst web, w)
        else
          rbind (deref (oheap w) p) (\<lambda>v.
          case (get, o_obj v, o_sWhat v) of
            (True, None, Some x) \<Rightarrow>
              (let c = answer 200 ''OK'' (Some ''application/octet-stream'') (- 1) (Some (''Transfer-Encoding: chunked'' @ crlf)) c in
               rbind (http_store (mok (48 + MAX_CHUNK_SIZE)) len0 pos0 (h_sock c) x) (\<lambda>(r, s).
                 Inr (c\<lparr>h_sock := s\<rparr>, fst web, w)))
          | _ \<Rightarrow>
              (let c = answer 200 ''OK'' (Some ''application/octet-stream'') (if o_obj v \<noteq> None then to_int (o_len v) else - 1) None c in
               if \<not> get then Inr (c, fst web, w)
               else
                 rbind (case o_obj v of None \<Rightarrow> if o_len v = 0 then Inr [] else Inl (Undefined NullDeref)
                        | Some d \<Rightarrow> read_mem (unat (o_len v)) d) (\<lambda>bs.
                   Inr (c\<lparr>h_sock := snd (http_send bs (h_sock c))\<rparr>, fst web, w))))))"

definition data_delete :: "string \<Rightarrow> web handler" where
  "data_delete key c web =
     rbind (obj_get key True (snd web)) (\<lambda>(p, w).
       Inr (if p \<noteq> NULL then answer 200 ''OK'' None 0 None c else answer 404 ''Object Not Found'' None 0 None c, fst web, w))"

text \<open>The bytes of the request body, which the store and the queue take over. Handing over bytes
  that were never received is reported here, not when somebody reads them.\<close>

definition body_bytes :: "http_request \<Rightarrow> fault + string option" where
  "body_bytes req =
     (case r_body req of None \<Rightarrow> Inr None
      | Some b \<Rightarrow> rbind (read_cells (nat (r_content_length req)) b) (\<lambda>bs. Inr (Some bs)))"

definition data_put :: "(nat \<Rightarrow> bool) \<Rightarrow> string \<Rightarrow> web handler" where
  "data_put mok key c web =
     rbind (body_bytes (h_req c)) (\<lambda>data.
     rbind (obj_add mok key None data (of_int (r_content_length (h_req c))) (snd web)) (\<lambda>w.
       Inr (answer 200 ''OK'' None 0 None (c\<lparr>h_req := (h_req c)\<lparr>r_body := None\<rparr>\<rparr>), fst web, w)))"

subsection \<open>The work queue\<close>

text \<open>The entry points to the body, which becomes a block of the queue's memory. \<open>lock\<close> is whether
  the queue's mutex can be locked. When the push fails the entry is freed with the body.\<close>

definition work_push :: "(nat \<Rightarrow> bool) \<Rightarrow> bool \<Rightarrow> ev_queue \<Rightarrow> string \<Rightarrow> web handler" where
  "work_push mok lock q data c web =
     (let d = odeps (snd web); (b, bl) = new_rec data (blocks (dmem d));
          (e, m) = ev_create mok (Block b) (of_int (r_content_length (h_req c))) (Some EvFreeData) ((dmem d)\<lparr>blocks := bl\<rparr>) in
      if e = NULL then Inr (answer 501 ''Queue Push Failed'' None 0 None c, web)
      else
        (let c = c\<lparr>h_req := (h_req c)\<lparr>r_body := None\<rparr>\<rparr> in
         rbind (ev_push lock q e False m) (\<lambda>(r, fds, q, m).
           if r \<noteq> NULL then
             Inr (answer 200 ''OK'' None 0 None c, fst web,
                  (snd web)\<lparr>odeps := d\<lparr>dep_queue := Some q, dmem := m, notified := notified d @ fds\<rparr>\<rparr>)
           else
             rbind (ev_free (\<lambda>_ _ m. Inr m) e m) (\<lambda>m.
               Inr (answer 501 ''Queue Push Failed'' None 0 None c, fst web, (snd web)\<lparr>odeps := d\<lparr>dmem := m\<rparr>\<rparr>)))))"

definition work_post :: "(nat \<Rightarrow> bool) \<Rightarrow> bool \<Rightarrow> web handler" where
  "work_post mok lock c web =
     (case (fst web, dep_queue (odeps (snd web))) of
        (True, Some q) \<Rightarrow>
          if r_body (h_req c) = None \<or> r_content_length (h_req c) < 1 then
            Inr (answer 403 ''Invalid payload'' None 0 None c, web)
          else rbind (body_bytes (h_req c)) (\<lambda>data. work_push mok lock q (the data) c web)
      | _ \<Rightarrow> Inr (answer 404 ''No Queue'' None 0 None c, web))"

subsection \<open>The handler\<close>

definition http_process :: "(nat \<Rightarrow> bool) \<Rightarrow> bool \<Rightarrow> 64 word \<Rightarrow> 64 word \<Rightarrow> web handler" where
  "http_process mok lock len0 pos0 c web =
     (let req = h_req c; m = r_method req in
      case r_path req of
        None \<Rightarrow> Inl (Undefined NullDeref)
      | Some path \<Rightarrow>
          let data = (take 6 path = ''/data/''); key = data_key path;
              c = (if data then c\<lparr>h_req := req\<lparr>r_path := Some (take 6 path @ key)\<rparr>\<rparr> else c) in
          if data \<and> (m = METHOD_HEAD \<or> m = METHOD_GET) then data_get mok len0 pos0 key c web
          else if data \<and> m = METHOD_DELETE then data_delete key c web
          else if data \<and> m = METHOD_PUT then data_put mok key c web
          else if take 6 path = ''/work/'' then
            (if m \<noteq> METHOD_POST then Inr (answer 405 ''Method Not Allowed'' None 0 None c, web)
             else work_post mok lock c web)
          else Inr (answer 404 ''Invalid API Path'' None 0 None c, web))"

text \<open>\<open>do_process\<close>: the descriptor of the connection is set to -1 afterwards.\<close>

definition http_do_process :: "(nat \<Rightarrow> bool) \<Rightarrow> bool \<Rightarrow> 64 word \<Rightarrow> 64 word \<Rightarrow> sock \<times> bool \<Rightarrow> web \<Rightarrow> fault + (sock \<times> bool) \<times> web" where
  "http_do_process mok lock len0 pos0 c web =
     rbind (http_connected mok (Some (http_process mok lock len0 pos0)) (fst c) web) (\<lambda>(r, s, web). Inr ((s, False), web))"

subsection \<open>The handler keeps its contract\<close>

text \<open>What can be read from an entry: as many bytes as its length says, or a well-formed R object, or
  nothing. An HTTP request that is cut off can store an entry for which this fails.\<close>

fun val_ok :: "string \<times> obj_val \<Rightarrow> bool" where
  "val_ok (k, len, Some d, sw) = (unat len = length d)"
| "val_ok (k, len, None, Some x) = wf_sexp x"
| "val_ok (k, len, None, None) = (len = 0)"

definition web_rep :: "bool \<Rightarrow> web \<Rightarrow> bool" where
  "web_rep good web \<longleftrightarrow> (\<exists>kvs. store_rep (snd web) kvs \<and> (good \<longrightarrow> list_all val_ok kvs))"

abbreviation web_ok :: "web \<Rightarrow> bool" where
  "web_ok \<equiv> web_rep False"

abbreviation web_good :: "web \<Rightarrow> bool" where
  "web_good \<equiv> web_rep True"

lemma web_ok_def: "web_ok web \<longleftrightarrow> (\<exists>kvs. store_rep (snd web) kvs)"
  by (simp add: web_rep_def)

text \<open>With good entries the faults of the handler are those of the memory it is given: a body with
  bytes that were not received, and the buffer of \<open>http_store\<close>.\<close>

definition web_fault :: "bool \<Rightarrow> fault \<Rightarrow> bool" where
  "web_fault good f \<longleftrightarrow> (if good then mem_fault f else any_fault f)"

lemma web_fault_mem: "mem_fault f \<Longrightarrow> web_fault good f"
  by (auto simp: web_fault_def mem_fault_def)

text \<open>What a handler may change of a connection.\<close>

definition conn_same :: "http_conn \<Rightarrow> http_conn \<Rightarrow> bool" where
  "conn_same c c' \<longleftrightarrow> h_part c' = h_part c \<and> h_line c' = h_line c \<and> h_headers c' = h_headers c \<and>
     same_input (h_sock c) (h_sock c')"

definition served :: "bool \<Rightarrow> http_conn \<Rightarrow> http_conn \<times> web \<Rightarrow> bool" where
  "served good c = (\<lambda>(c', web'). web_rep good web' \<and> conn_same c c')"

lemma conn_same_answer [simp]: "conn_same c (answer code txt ct cl hdrs c') = conn_same c c'"
proof -
  obtain r s' where r: "http_response (has_attr (h_req c') HTTP_1_0) code (Some txt) ct cl hdrs (h_sock c') = (r, s')"
    by (cases "http_response (has_attr (h_req c') HTTP_1_0) code (Some txt) ct cl hdrs (h_sock c')")
  with http_response_input [OF r] show ?thesis
    by (auto simp: conn_same_def answer_def same_input_def)
qed

lemma conn_same_upd [simp]:
  "conn_same c (c'\<lparr>h_req := r\<rparr>) = conn_same c c'"
  "conn_same c c' \<Longrightarrow> same_input (h_sock c') s \<Longrightarrow> conn_same c (c'\<lparr>h_sock := s\<rparr>)"
  by (auto simp: conn_same_def intro: same_input_trans)

lemma conn_same_refl [simp]: "conn_same c c"
  by (simp add: conn_same_def)

lemma conn_same_send: "conn_same c c' \<Longrightarrow> conn_same c (c'\<lparr>h_sock := snd (http_send bs (h_sock c'))\<rparr>)"
  using http_send_input [of bs "h_sock c'"] by (cases "http_send bs (h_sock c')") simp

lemma all_mok: "(\<And>n. mok n) \<Longrightarrow> mok = (\<lambda>_. True)"
  by auto

lemma web_fault_cases: "web_fault True = mem_fault" "web_fault False = any_fault"
  by (simp_all add: web_fault_def fun_eq_iff)

lemma store_faults: "wf_sexp x \<or> \<not> good \<Longrightarrow> run_ok (web_fault good) (\<lambda>(r, s'). same_input s s') (http_store a len0 pos0 s x)"
  using http_store_input [of s a len0 pos0 x] http_store_input_wf [of x s a len0 pos0]
  by (cases good) (simp_all only: web_fault_cases, simp_all)

lemma bytes_faults: "unat n \<le> length d \<or> \<not> good \<Longrightarrow> run_ok (web_fault good) (\<lambda>_. True) (read_mem (unat n) d)"
  by (auto simp: read_mem_def web_fault_def)

lemma body_faults: "run_ok (web_fault good) (\<lambda>_. True) (body_bytes req)"
  unfolding body_bytes_def
  by (auto split: option.split intro!: run_ok_rbind [OF run_ok_mono [OF read_mem_faults(1) web_fault_mem]])

lemma data_get_serves:
  assumes "store_rep w kvs" "good \<longrightarrow> list_all val_ok kvs" "conn_same c0 c"
  shows "run_ok (web_fault good) (served good c0) (data_get mok len0 pos0 key c (q, w))"
proof -
  obtain xs ys where st: "chains w xs ys" "bindings w xs kvs"
    using assms(1) by (auto simp: store_rep_def obj_rep_def)
  have web: "web_rep good (q, w)"
    using assms(1,2) by (auto simp: web_rep_def)
  obtain p where p: "obj_get key False w = Inr (p, w)"
      "p = NULL \<or> (\<exists>v. deref (oheap w) p = Inr v \<and> (good \<longrightarrow> val_ok (o_key v, o_len v, o_obj v, o_sWhat v)))"
  proof (cases "map_of kvs (cstr key)")
    case None
    then show ?thesis
      using that obj_get_spec [OF st, of key] by auto
  next
    case (Some v)
    then have "good \<longrightarrow> val_ok (cstr key, v)"
      using assms(2) map_of_SomeD [OF Some] by (auto simp: list_all_iff)
    with Some show ?thesis
      using that obj_get_spec [OF st, of key] by (auto simp: binding_def)
  qed
  show ?thesis
  proof (cases "p = NULL")
    case True
    then show ?thesis
      using web assms(3) by (simp add: data_get_def p(1) served_def)
  next
    case False
    then obtain v where v: "deref (oheap w) p = Inr v" "good \<longrightarrow> val_ok (o_key v, o_len v, o_obj v, o_sWhat v)"
      using p(2) by blast
    have chunked: "run_ok (web_fault good) (served good c0) (rbind (http_store a len0 pos0 (h_sock c') x) (\<lambda>(r, s). Inr (c'\<lparr>h_sock := s\<rparr>, q, w)))"
      if "conn_same c0 c'" "wf_sexp x \<or> \<not> good" for a c' x
      by (rule run_ok_rbind [OF store_faults [OF that(2)]]) (use that web in \<open>auto simp: served_def\<close>)
    have plain: "run_ok (web_fault good) (served good c0) (rbind m (\<lambda>bs. Inr (c'\<lparr>h_sock := snd (http_send bs (h_sock c'))\<rparr>, q, w)))"
      if "conn_same c0 c'" "run_ok (web_fault good) (\<lambda>_. True) m" for c' m
      by (rule run_ok_rbind [OF that(2)]) (use that(1) web conn_same_send in \<open>auto simp: served_def\<close>)
    have head: "served good c0 (c', q, w)" if "conn_same c0 c'" for c'
      using that web by (simp add: served_def)
    have sent: "served g c0 (c'\<lparr>h_sock := snd (http_send bs (h_sock c'))\<rparr>, q, w)" if "conn_same c0 c'" "g = good" for c' bs g
      unfolding that(2) by (rule head [OF conn_same_send [OF that(1)]])
    show ?thesis
      using v False assms(3)
      by (cases "r_method (h_req c) = METHOD_GET"; cases "o_obj v"; cases "o_sWhat v")
        (auto simp: data_get_def p(1) Let_def web_fault_def intro!: chunked plain head sent bytes_faults)
  qed
qed

lemma drop_key_vals: "list_all val_ok kvs \<Longrightarrow> list_all val_ok (drop_key k kvs)"
  by (induction k kvs rule: drop_key.induct) auto

lemma data_delete_serves:
  assumes "store_rep w kvs" "good \<longrightarrow> list_all val_ok kvs" "conn_same c0 c"
  shows "run_ok (web_fault good) (served good c0) (data_delete key c (q, w))"
proof -
  obtain v w' where w': "store_remove w key = Inr (v, w')" "store_rep w' (drop_key (cstr key) kvs)"
    using objs.remove [OF assms(1)] by blast
  then obtain p where "obj_get key True w = Inr (p, w')"
    by (auto simp: store_remove_def follow_def rbind_iffs split: if_splits)
  then show ?thesis
    using assms(2,3) w'(2) drop_key_vals by (auto simp: data_delete_def served_def web_rep_def)
qed

text \<open>The entry that a PUT stores is good unless the request was cut off in its headers.\<close>

lemma body_bytes_ok:
  assumes "request_ok req" "whole_body req" "body_bytes req = Inr data"
  shows "val_ok (k, of_int (r_content_length req), data, None)"
proof (cases "r_body req")
  case None
  then show ?thesis
    using assms by (auto simp: body_bytes_def whole_body_def)
next
  case (Some b)
  let ?n = "r_content_length req"
  have n: "0 < ?n" "?n \<le> 2147483640" "length b = nat ?n + 1"
    using assms(1) Some by (auto simp: request_ok_def)
  then obtain l where "?n = int l"
    using nonneg_int_cases [of ?n] by auto
  then have "unat (of_int ?n :: 64 word) = nat ?n"
    using n by (simp add: unat_of_nat take_bit_nat_eq_self_iff)
  moreover have "\<exists>bs. data = Some bs \<and> length bs = nat ?n"
    using assms(3) Some n by (auto simp: body_bytes_def read_cells_def rbind_iffs split: if_splits)
  ultimately show ?thesis
    by auto
qed

lemma data_put_serves:
  assumes "store_rep w kvs" "good \<longrightarrow> list_all val_ok kvs" "conn_same c0 c" "\<And>n. mok n" "request_ok (h_req c)"
  shows "run_ok (web_fault good) (served (good \<and> whole_body (h_req c)) c0) (data_put mok key c (q, w))"
proof -
  have add: "\<exists>w'. obj_add mok key None data len w = Inr w' \<and> store_rep w' ((cstr key, len, data, None) # kvs)" for data len
    using objs.add [OF assms(1), of key "(len, data, None)"] unfolding all_mok [of mok, OF assms(4)]
    by (auto simp: store_add_def)
  show ?thesis
    unfolding data_put_def
  proof (rule run_ok_rbind_eq [OF body_faults])
    fix data assume data: "body_bytes (h_req c) = Inr data"
    obtain w' where "obj_add mok key None data (of_int (r_content_length (h_req c))) w = Inr w'"
        "store_rep w' ((cstr key, of_int (r_content_length (h_req c)), data, None) # kvs)"
      using add by blast
    with body_bytes_ok [OF assms(5) _ data]
    show "run_ok (web_fault good) (served (good \<and> whole_body (h_req c)) c0) (rbind (obj_add mok key None data (of_int (r_content_length (h_req c))) (snd (q, w)))
        (\<lambda>w1. Inr (answer 200 ''OK'' None 0 None (c\<lparr>h_req := (h_req c)\<lparr>r_body := None\<rparr>\<rparr>), fst (q, w), w1)))"
      using assms(2,3) by (fastforce simp: served_def web_rep_def)
  qed
qed

lemma web_ok_queue:
  assumes w: "store_rep w kvs" "good \<longrightarrow> list_all val_ok kvs" and q: "ev_rep (qu, m) ys" "heap_ok (ents m)"
  shows "web_rep good (q, w\<lparr>odeps := (odeps w)\<lparr>dep_queue := Some qu, dmem := m, notified := n\<rparr>\<rparr>)"
proof -
  obtain ds where ds: "obj_rep w kvs" "dep_rep (odeps w) ds" "list_all (\<lambda>(name, msg, reqs). strlen name < 2 ^ 63) ds"
    using w(1) by (auto simp: store_rep_def deps_good_def)
  let ?d = "(odeps w)\<lparr>dep_queue := Some qu, dmem := m, notified := n\<rparr>"
  have "queue_rep ?d (map (ev_payload m) ys)"
    using q by (auto simp: queue_rep_def)
  moreover have "dep_rep ?d ds"
    using ds(2) by (simp add: dep_rep_def dep_chain_def)
  moreover have "obj_rep (w\<lparr>odeps := x\<rparr>) kvs" for x
    using ds(1) by (auto simp: obj_rep_def chains_def bindings_def whats_def)
  ultimately show ?thesis
    using ds(3) w(2) by (auto simp: web_rep_def store_rep_def deps_good_def)
qed

lemma work_push_serves:
  assumes w: "store_rep w kvs" "good \<longrightarrow> list_all val_ok kvs" and c: "conn_same c0 c" and mok: "\<And>n. mok n"
    and qu: "dep_queue (odeps w) = Some qu" "ev_rep (qu, dmem (odeps w)) xs" "heap_ok (ents (dmem (odeps w)))"
  shows "run_ok bad (served good c0) (work_push mok lock qu data c (q, w))"
proof -
  let ?d = "odeps w" and ?len = "of_int (r_content_length (h_req c)) :: 64 word"
  obtain b bl where new: "new_rec data (blocks (dmem ?d)) = (b, bl)" "mem bl b = Some data"
    by (simp add: new_rec_def)
  obtain a m where a: "ev_create mok (Block b) ?len (Some EvFreeData) ((dmem ?d)\<lparr>blocks := bl\<rparr>) = (Some a, m)"
    using mok by (auto simp: ev_create_def Let_def new_rec_def)
  note fr = ev_create_block [OF a, simplified, OF qu(3)]
  have a_notin: "a \<notin> set xs"
    using ev_rep_mem [OF qu(2)] fr by blast
  have rep: "ev_rep (qu, m) xs"
    using fr a_notin by (intro ev_rep_frame [OF qu(2)]) auto
  note good = web_ok_queue [OF w]
  show ?thesis
  proof (cases lock)
    case True
    have "ev_ready (qu, m) a"
      using fr by (simp add: ev_ready_def)
    then obtain qu' m' where push: "ev_push True qu (Some a) False m = Inr (Some a, (if qfd qu \<noteq> - 1 then [qfd qu] else []), qu', m')"
        "ev_rep (qu', m') (xs @ [a])" "heap_ok (ents m')"
      using ev_push_back_ok [OF rep _ a_notin] fr by blast
    with good [OF push(2,3), of q "notified ?d @ [qfd qu]"] good [OF push(2,3), of q "notified ?d"] True a new(1) c show ?thesis
      by (simp add: work_push_def served_def Let_def)
  next
    case False
    let ?m = "m\<lparr>blocks := bl\<lparr>mem := (mem bl)(b := None)\<rparr>, ents := (ents m)\<lparr>mem := (mem (ents m))(a := None)\<rparr>\<rparr>"
    have "ev_push lock qu (Some a) False m = Inr (NULL, [], qu, m)"
      using False by (simp add: ev_push_def)
    moreover have "ev_free (\<lambda>_ _ m. Inr m) (Some a) m = Inr ?m"
      using fr new(2) by (simp add: ev_free_def ev_free_data_def)
    moreover have "ev_rep (qu, ?m) xs" "heap_ok (ents ?m)"
      using a_notin fr by (auto intro: ev_rep_frame [OF rep])
    moreover have "?d\<lparr>dmem := ?m\<rparr> = ?d\<lparr>dep_queue := Some qu, dmem := ?m, notified := notified ?d\<rparr>"
      using qu(1) by (cases ?d) simp
    ultimately show ?thesis
      using good [of qu ?m xs q "notified ?d"] a new(1) c by (simp add: work_push_def served_def Let_def)
  qed
qed

lemma work_post_serves:
  assumes w: "store_rep w kvs" "good \<longrightarrow> list_all val_ok kvs" and c: "conn_same c0 c" and mok: "\<And>n. mok n"
  shows "run_ok (web_fault good) (served good c0) (work_post mok lock c (q, w))"
proof -
  obtain qu xs where qu: "dep_queue (odeps w) = Some qu" "ev_rep (qu, dmem (odeps w)) xs" "heap_ok (ents (dmem (odeps w)))"
    using w(1) by (auto simp: store_rep_def deps_good_def queue_rep_def)
  have web: "web_rep good (q, w)"
    using w by (auto simp: web_rep_def)
  note push = work_push_serves [of _ _ _ _ _ mok, OF w c mok qu]
  show ?thesis
  proof (cases q)
    case True
    then have q: "q = True"
      by simp
    show ?thesis
      using c web push unfolding q
      by (auto simp: work_post_def qu(1) intro!: run_ok_rbind [OF body_faults]) (auto simp: served_def)
  next
    case False
    with c web show ?thesis
      by (simp add: work_post_def served_def)
  qed
qed

lemma served_weaken: "served good c x \<Longrightarrow> served (good \<and> b) c x"
  by (auto simp: served_def web_rep_def)

lemma http_process_serves:
  assumes "request_ok (h_req c)" "web_rep good web" "\<And>n. mok n"
  shows "run_ok (web_fault good) (served (good \<and> whole_body (h_req c)) c) (http_process mok lock len0 pos0 c web)"
proof -
  obtain q w kvs where web: "web = (q, w)" "store_rep w kvs" "good \<longrightarrow> list_all val_ok kvs"
    using assms(2) by (cases web) (auto simp: web_rep_def)
  obtain path where path: "r_path (h_req c) = Some path"
    using assms(1) by (auto simp: request_ok_def)
  have req: "request_ok ((h_req c)\<lparr>r_path := Some p\<rparr>)" "whole_body ((h_req c)\<lparr>r_path := Some p\<rparr>) = whole_body (h_req c)" for p
    using assms(1) by (simp_all add: request_ok_def whole_body_def cong: option.case_cong)
  have weaken: "run_ok (web_fault good) (served good c) m \<Longrightarrow> run_ok (web_fault good) (served (good \<and> whole_body (h_req c)) c) m" for m
    by (erule run_ok_mono) (auto intro: served_weaken)
  have same: "served (good \<and> whole_body (h_req c)) c (c', web)" if "conn_same c c'" for c'
    using that assms(2) by (auto simp: served_def web_rep_def)
  let ?c = "c\<lparr>h_req := (h_req c)\<lparr>r_path := Some (take 6 path @ data_key path)\<rparr>\<rparr>"
  have put: "run_ok (web_fault good) (served (good \<and> whole_body (h_req c)) c) (data_put mok (data_key path) ?c (q, w))"
    using data_put_serves [OF web(2,3), of c ?c mok] assms(3) req by simp
  note serve = weaken [OF data_get_serves [OF web(2,3)]] weaken [OF data_delete_serves [OF web(2,3)]] put
    weaken [OF work_post_serves [OF web(2,3) _ assms(3)]]
  show ?thesis
    unfolding http_process_def path Let_def option.case
    using serve same unfolding web(1) by auto
qed

interpretation ohs: http_handler "http_process (\<lambda>_. True) lock len0 pos0" "web_rep good" web_ok "web_fault good"
proof
  fix c :: http_conn and web assume "request_ok (h_req c)" "web_rep good web"
  then show "run_ok (web_fault good) (\<lambda>(c', w'). (if whole_body (h_req c) then web_rep good w' else web_ok w') \<and> h_part c' = h_part c \<and>
      h_line c' = h_line c \<and> h_headers c' = h_headers c \<and> same_input (h_sock c) (h_sock c')) (http_process (\<lambda>_. True) lock len0 pos0 c web)"
    by (rule run_ok_mono [OF http_process_serves]) (auto simp: served_def conn_same_def)
qed (auto simp: web_rep_def)

lemma web_connected:
  assumes "web_rep good web"
  shows "run_ok (web_fault good) (\<lambda>(r, s', web'). r = 0 \<and> web_ok web' \<and> \<not> is_open s')
    (http_connected (\<lambda>_. True) (Some (http_process (\<lambda>_. True) lock len0 pos0)) s web)"
proof -
  have "web_fault good f" if "http_handler.server_fault (web_fault good) f" for f
    using that web_fault_mem by (auto simp: ohs.server_fault_def)
  with ohs.http_connected_ok [OF assms, of "\<lambda>_. True" lock len0 pos0 s] show ?thesis
    by (auto elim!: run_ok_mono)
qed

text \<open>What \<open>do_process\<close> does with a connection of the threaded server: a fault, or the connection it
  leaves. When memory can be had, \<open>http_connected\<close> always closes the socket, so the contract of a
  process function is kept.\<close>

definition ohsrv_conn :: "unit process_fn" where
  "ohsrv_conn c r \<longleftrightarrow>
     (\<exists>lock len0 pos0 s web. is_open s \<and> web_ok web \<and>
        (case http_do_process (\<lambda>_. True) lock len0 pos0 (s, True) web of
           Inl f \<Rightarrow> r = Inl f
         | Inr ((s', v), web') \<Rightarrow> r = Inr (c\<lparr>conn_s := (if v then conn_s c else - 1)\<rparr>, \<not> is_open s')))"

interpretation ohsrv_therver: process_contract ohsrv_conn
proof
  fix c c' :: "unit tconn" and closed assume "ohsrv_conn c (Inr (c', closed))"
  then obtain lock len0 pos0 s web s' v web' where web: "web_ok web"
      and run: "http_do_process (\<lambda>_. True) lock len0 pos0 (s, True) web = Inr ((s', v), web')"
      and c': "c' = c\<lparr>conn_s := (if v then conn_s c else - 1)\<rparr>" "closed = (\<not> is_open s')"
    unfolding ohsrv_conn_def by (fastforce split: sum.splits)
  from run have "\<not> v \<and> \<not> is_open s'"
    using web_connected [OF web, of lock len0 pos0 s] by (auto simp: http_do_process_def rbind_iffs)
  then show "conn_s c' = (if closed then - 1 else conn_s c)"
    using c' by simp
qed

subsection \<open>What clients get\<close>

definition web_key :: "string \<Rightarrow> bool" where
  "web_key k \<longleftrightarrow> list_all (\<lambda>x. x \<noteq> nul \<and> x \<noteq> cr \<and> x \<noteq> lf \<and> x \<noteq> CHR ''/'' \<and> x \<noteq> CHR ''?'') k"

definition data_path :: "string \<Rightarrow> string" where
  "data_path k = ''/data/'' @ k"

lemma data_path_simps: "web_key k \<Longrightarrow> path_ok (data_path k) \<and> data_key (data_path k) = k \<and> cstr k = k \<and> take 6 (data_path k) = ''/data/''"
proof -
  assume k: "web_key k"
  then have "nul \<notin> set k" "\<forall>x\<in>set k. x \<noteq> CHR ''/'' \<and> x \<noteq> CHR ''?''" "list_all (\<lambda>x. x \<noteq> nul \<and> x \<noteq> cr \<and> x \<noteq> lf) k"
    by (auto simp: web_key_def list_all_iff)
  then show ?thesis
    using cstr_id [of k] takeWhile_eq_all_conv [of "\<lambda>x. x \<noteq> CHR ''/'' \<and> x \<noteq> CHR ''?''" k]
    by (simp add: data_path_def path_ok_def data_key_def)
qed

lemma answer_accepts:
  assumes "accepts 1 (h_sock c)"
  shows "\<exists>s'. answer code txt ct cl hdrs c = c\<lparr>h_sock := s'\<rparr> \<and> accepts 1 s' \<and> same_input (h_sock c) s' \<and>
    tx s' = tx (h_sock c) @ response_text (has_attr (h_req c) HTTP_1_0) code txt ct cl hdrs"
proof -
  obtain s' where "send_loop (response_text (has_attr (h_req c) HTTP_1_0) code txt ct cl hdrs) (h_sock c) = (0, s')" "accepts 1 s'"
      "tx s' = tx (h_sock c) @ response_text (has_attr (h_req c) HTTP_1_0) code txt ct cl hdrs" "is_open s' = is_open (h_sock c)" "rx s' = rx (h_sock c)"
    using send_loop_accepts [OF assms] by blast
  then show ?thesis
    by (auto simp: answer_def http_response_def http_send_def same_input_def)
qed

text \<open>A served request of HTTP/1.1 without \<open>Connection: close\<close> leaves a fresh connection.\<close>

definition alive :: "http_conn \<Rightarrow> bool" where
  "alive c \<longleftrightarrow> h_line c = [] \<and> r_attr (h_req c) \<in> {HOST_HEADER, or HOST_HEADER CONTENT_LENGTH}"

lemma next_alive: "alive c \<Longrightarrow> next_conn c = new_conn (h_sock c)"
  by (auto simp: alive_def next_conn_def fin_request_def has_attr_def attr_defs keep_alive_new)

lemma no_http10: "r_attr req \<in> {HOST_HEADER, or HOST_HEADER CONTENT_LENGTH} \<Longrightarrow> \<not> has_attr req HTTP_1_0"
  by (auto simp: has_attr_def attr_defs)

lemma put_served:
  assumes w: "store_rep w kvs" and k: "web_key k" and s: "accepts 1 s" and mok: "\<And>n. mok n"
  shows "\<exists>c' w'. http_process mok lock len0 pos0 (ready s (body_req METHOD_PUT (data_path k) load) hdrs n) (q, w) = Inr (c', q, w') \<and>
    alive c' \<and> accepts 1 (h_sock c') \<and> same_input s (h_sock c') \<and>
    tx (h_sock c') = tx s @ response_text False 200 ''OK'' None 0 None \<and>
    store_rep w' ((k, of_nat (length load), Some load, None) # kvs) \<and>
    obj_add mok k None (Some load) (of_nat (length load)) w = Inr w'"
proof -
  let ?req = "(body_req METHOD_PUT (data_path k) load)\<lparr>r_headers := Some (uninit (length hdrs))\<rparr>"
  let ?c = "(ready s (body_req METHOD_PUT (data_path k) load) hdrs n)\<lparr>h_req := ?req\<lparr>r_path := Some (data_path k), r_body := None\<rparr>\<rparr>"
  obtain w' where w': "obj_add mok k None (Some load) (of_nat (length load)) w = Inr w'"
      "store_rep w' ((k, of_nat (length load), Some load, None) # kvs)"
    using objs.add [OF w, of k "(of_nat (length load), Some load, None)"] data_path_simps [OF k] all_mok [of mok, OF mok]
    by (auto simp: store_add_def)
  have bytes: "read_cells (length load) (map Some load @ [None]) = Inr load"
    by (rule read_cells_Some) simp_all
  have path: "take 6 (data_path k) @ k = data_path k"
    using data_path_simps [OF k] by (simp add: data_path_def)
  obtain s' where s': "answer 200 ''OK'' None 0 None ?c = ?c\<lparr>h_sock := s'\<rparr>" "accepts 1 s'" "same_input s s'"
      "tx s' = tx s @ response_text (has_attr (h_req ?c) HTTP_1_0) 200 ''OK'' None 0 None"
    using answer_accepts [of ?c] s by (fastforce simp: ready_def)
  have "http_process mok lock len0 pos0 (ready s (body_req METHOD_PUT (data_path k) load) hdrs n) (q, w) = Inr (?c\<lparr>h_sock := s'\<rparr>, q, w')"
    using data_path_simps [OF k] w'(1) bytes s'(1) path
    by (simp add: http_process_def ready_def body_req_def std_req_def data_put_def body_bytes_def Let_def)
  moreover have "r_attr (h_req ?c) = or HOST_HEADER CONTENT_LENGTH"
    by (simp add: body_req_def std_req_def)
  ultimately show ?thesis
    using s'(2-4) w' no_http10 [of "h_req ?c"] by (auto simp: alive_def ready_def)
qed

lemma to_int_small: "n < 2 ^ 31 \<Longrightarrow> to_int (of_nat n) = int n"
proof -
  assume n: "n < 2 ^ 31"
  have "(ucast (of_nat n :: 64 word) :: 32 word) = of_nat n"
    using n by (simp add: word_unat_eq_iff unsigned_ucast_eq unat_of_nat take_bit_eq_mod)
  moreover have "sint (of_nat n :: 32 word) = int n"
    using n by (simp add: signed_of_nat signed_take_bit_int_eq_self)
  ultimately show ?thesis by (simp add: to_int_def)
qed

definition octets :: "string option" where
  "octets = Some ''application/octet-stream''"

text \<open>The request of a GET as it is handed over, and the entry it finds.\<close>

lemma get_entry:
  assumes w: "store_rep w kvs" and k: "web_key k" and v: "map_of kvs k = Some v"
  shows "\<exists>a en. obj_get k False w = Inr (Some a, w) \<and> deref (oheap w) (Some a) = Inr en \<and> (o_len en, o_obj en, o_sWhat en) = v"
proof -
  obtain xs ys where st: "chains w xs ys" "bindings w xs kvs"
    using w by (auto simp: store_rep_def obj_rep_def)
  show ?thesis
    using obj_get_spec [OF st, of k] data_path_simps [OF k] v by (auto simp: binding_def)
qed

lemma get_request:
  assumes "web_key k"
  shows "http_process mok lock len0 pos0 (ready s (std_req METHOD_GET (data_path k) HOST_HEADER 0) hdrs 0) web =
    data_get mok len0 pos0 k (ready s (std_req METHOD_GET (data_path k) HOST_HEADER 0) hdrs 0) web"
proof -
  have "take 6 (data_path k) @ k = data_path k"
    using data_path_simps [OF assms] by (simp add: data_path_def)
  then show ?thesis
    using data_path_simps [OF assms] by (simp add: http_process_def ready_def std_req_def new_request_def Let_def)
qed

lemma get_ready:
  "r_method (h_req (ready s (std_req m p HOST_HEADER 0) hdrs n)) = m" "h_sock (ready s r hdrs n) = s"
  "\<not> has_attr (h_req (ready s (std_req m p HOST_HEADER 0) hdrs n)) HTTP_1_0"
  "alive ((ready s (std_req m p HOST_HEADER 0) hdrs n)\<lparr>h_sock := s'\<rparr>)"
  by (simp_all add: ready_def std_req_def alive_def has_attr_def attr_defs)

lemma get_served_raw:
  assumes w: "store_rep w kvs" and k: "web_key k" and s: "accepts 1 s"
    and v: "map_of kvs k = Some (of_nat (length d), Some d, sw)" "length d < 2 ^ 31"
  shows "\<exists>c'. http_process mok lock len0 pos0 (ready s (std_req METHOD_GET (data_path k) HOST_HEADER 0) hdrs 0) (q, w) = Inr (c', q, w) \<and>
    alive c' \<and> accepts 1 (h_sock c') \<and> same_input s (h_sock c') \<and>
    tx (h_sock c') = tx s @ response_text False 200 ''OK'' octets (int (length d)) None @ d"
proof -
  let ?c = "ready s (std_req METHOD_GET (data_path k) HOST_HEADER 0) hdrs 0"
  obtain a en where en: "obj_get k False w = Inr (Some a, w)" "deref (oheap w) (Some a) = Inr en"
      "o_len en = of_nat (length d)" "o_obj en = Some d"
    using get_entry [OF w k v(1)] by auto
  obtain s1 where s1: "answer 200 ''OK'' octets (int (length d)) None ?c = ?c\<lparr>h_sock := s1\<rparr>" "accepts 1 s1" "same_input s s1"
      "tx s1 = tx s @ response_text False 200 ''OK'' octets (int (length d)) None"
    using answer_accepts [of ?c 200 "''OK''" octets "int (length d)" None] s by (auto simp: get_ready)
  obtain s2 where s2: "send_loop d s1 = (0, s2)" "accepts 1 s2" "tx s2 = tx s1 @ d" "is_open s2 = is_open s1" "rx s2 = rx s1"
    using send_loop_accepts [OF s1(2)] by blast
  have len: "unat (of_nat (length d) :: 64 word) = length d"
    using v(2) by (simp add: unat_of_nat take_bit_nat_eq_self_iff)
  have "data_get mok len0 pos0 k ?c (q, w) = Inr (?c\<lparr>h_sock := s2\<rparr>, q, w)"
    using en s1(1) s2(1) to_int_small [OF v(2)] len
    by (simp add: data_get_def get_ready read_mem_def http_send_def octets_def)
  moreover have "same_input s s2"
    using s1(3) s2(4,5) by (simp add: same_input_def)
  ultimately show ?thesis
    using s1(4) s2(2,3) by (simp add: get_request [OF k] get_ready)
qed

lemma get_served_sfs:
  assumes w: "store_rep w kvs" and k: "web_key k" and s: "accepts 1 s" and mok: "\<And>n. mok n"
    and v: "map_of kvs k = Some (len, None, Some x)" "wf_sexp x"
  shows "run_ok (chunk_fault len0 pos0 x)
    (\<lambda>(c', web'). pos0 = 0 \<and> web' = (q, w) \<and> alive c' \<and> same_input s (h_sock c') \<and>
      (\<exists>sent. tx (h_sock c') = tx s @ response_text False 200 ''OK'' octets (- 1) (Some (''Transfer-Encoding: chunked'' @ crlf)) @ sent \<and>
         dechunk sent = (wire x, last_chunk)))
    (http_process mok lock len0 pos0 (ready s (std_req METHOD_GET (data_path k) HOST_HEADER 0) hdrs 0) (q, w))"
proof -
  let ?c = "ready s (std_req METHOD_GET (data_path k) HOST_HEADER 0) hdrs 0" and ?h = "Some (''Transfer-Encoding: chunked'' @ crlf)"
  obtain a en where en: "obj_get k False w = Inr (Some a, w)" "deref (oheap w) (Some a) = Inr en"
      "o_obj en = None" "o_sWhat en = Some x"
    using get_entry [OF w k v(1)] by auto
  obtain s1 where s1: "answer 200 ''OK'' octets (- 1) ?h ?c = ?c\<lparr>h_sock := s1\<rparr>" "accepts 1 s1" "same_input s s1"
      "tx s1 = tx s @ response_text False 200 ''OK'' octets (- 1) ?h"
    using answer_accepts [of ?c 200 "''OK''" octets "- 1" ?h] s by (auto simp: get_ready)
  have get: "data_get mok len0 pos0 k ?c (q, w) =
      rbind (http_store True len0 pos0 s1 x) (\<lambda>(r, s2). Inr (?c\<lparr>h_sock := s2\<rparr>, q, w))"
    using en s1(1) mok by (simp add: data_get_def get_ready octets_def)
  show ?thesis
    unfolding get_request [OF k] get
  proof (rule run_ok_rbind_eq [OF http_store_any [OF s1(2) v(2)]])
    fix r assume run: "http_store True len0 pos0 s1 x = Inr r"
      and r: "case r of (r, s2) \<Rightarrow> pos0 = 0 \<and> r = 0 \<and> (\<exists>sent. tx s2 = tx s1 @ sent \<and> dechunk sent = (wire x, last_chunk))"
    have "same_input s1 (snd r)"
      using http_store_input [of s1 True len0 pos0 x] by (simp add: run case_prod_beta')
    then have "same_input s (snd r)"
      using s1(3) same_input_trans by blast
    with r s1(4) show "run_ok (chunk_fault len0 pos0 x)
      (\<lambda>(c', web'). pos0 = 0 \<and> web' = (q, w) \<and> alive c' \<and> same_input s (h_sock c') \<and>
        (\<exists>sent. tx (h_sock c') = tx s @ response_text False 200 ''OK'' octets (- 1) (Some (''Transfer-Encoding: chunked'' @ crlf)) @ sent \<and>
           dechunk sent = (wire x, last_chunk)))
      (case r of (r, s2) \<Rightarrow> Inr (?c\<lparr>h_sock := s2\<rparr>, q, w))"
      by (auto simp: get_ready)
  qed
qed

subsection \<open>Sessions\<close>

definition put_msg :: "string \<Rightarrow> string \<Rightarrow> nat \<Rightarrow> string" where
  "put_msg k h n = message (start_line METHOD_PUT (data_path k)) [host_line h, length_line n]"

definition get_msg :: "string \<Rightarrow> string \<Rightarrow> string" where
  "get_msg k h = message (start_line METHOD_GET (data_path k)) [host_line h]"

lemma http_connected_run: "(\<And>n. mok n) \<Longrightarrow> http_connected mok process s w =
    rbind (input_loop (rx_size s + 2) mok process (new_conn s) w) (\<lambda>(c, w). Inr (0, h_sock c, w))"
  by (simp add: http_connected_def del: input_loop.simps)

lemma rx_size_Data: "rx s = RxData msg # evs \<Longrightarrow> rx_size s = Suc (length msg + sum_list (map event_size evs))"
  by (simp add: rx_size_def)

text \<open>A GET as the last request of a connection.\<close>

lemma get_last:
  assumes P: "P (ready (s\<lparr>rx := []\<rparr>) (std_req METHOD_GET (data_path k) HOST_HEADER 0) (hdrs1 METHOD_GET h) 0) w = Inr (c', w')"
      "alive c'" "same_input (s\<lparr>rx := []\<rparr>) (h_sock c')"
    and s: "rx s = [RxData (get_msg k h)]" "is_open s" and k: "web_key k" "host_ok h" "length (get_msg k h) < LINE_BUF_SIZE"
    and all: "\<forall>n. mok n" and f: "3 \<le> f"
  shows "rbind (input_loop f mok (Some P) (new_conn s) w) (\<lambda>(c, w). Inr (0, h_sock c, w)) = Inr (0, closesocket (h_sock c'), w')"
proof -
  obtain g where g: "f = Suc g" "2 \<le> g"
    using f by (cases f) auto
  have "input_loop (Suc g) mok (Some P) (new_conn s) w =
    rbind (P (ready (s\<lparr>rx := []\<rparr>) (std_req METHOD_GET (data_path k) HOST_HEADER 0) (hdrs1 METHOD_GET h) 0) w)
      (\<lambda>(c, w). input_loop g mok (Some P) (next_conn c) w)"
    using s k all data_path_simps [OF k(1)]
    by (intro no_body_request) (simp_all add: known_def get_msg_def)
  moreover have "rbind (input_loop g mok (Some P) (next_conn c') w') (\<lambda>(c, w). Inr (0, h_sock c, w)) = Inr (0, closesocket (h_sock c'), w')"
    using P(2,3) s(2) g(2) by (intro next_eof) (auto simp: alive_def same_input_def)
  ultimately show ?thesis
    using P(1) by (simp add: g(1) del: input_loop.simps)
qed

lemma get_fault:
  assumes P: "P (ready (s\<lparr>rx := []\<rparr>) (std_req METHOD_GET (data_path k) HOST_HEADER 0) (hdrs1 METHOD_GET h) 0) w = Inl flt"
    and s: "rx s = [RxData (get_msg k h)]" "is_open s" and k: "web_key k" "host_ok h" "length (get_msg k h) < LINE_BUF_SIZE"
    and all: "\<forall>n. mok n" and f: "3 \<le> f"
  shows "rbind (input_loop f mok (Some P) (new_conn s) w) (\<lambda>(c, w). Inr (0, h_sock c, w)) = Inl flt"
proof -
  obtain g where g: "f = Suc g"
    using f by (cases f) auto
  have "input_loop (Suc g) mok (Some P) (new_conn s) w =
    rbind (P (ready (s\<lparr>rx := []\<rparr>) (std_req METHOD_GET (data_path k) HOST_HEADER 0) (hdrs1 METHOD_GET h) 0) w)
      (\<lambda>(c, w). input_loop g mok (Some P) (next_conn c) w)"
    using s k all data_path_simps [OF k(1)]
    by (intro no_body_request) (simp_all add: known_def get_msg_def)
  then show ?thesis
    using P by (simp add: g del: input_loop.simps)
qed

lemma put_get_connection:
  assumes s: "rx s = RxData (put_msg k h (length load) @ first) # map RxData ps @ [RxData (get_msg k h)]" "is_open s" "accepts 1 s"
    and load: "load = first @ concat ps" "load \<noteq> []" "[] \<notin> set ps" "length load \<le> 2147483640"
    and k: "web_key k" "host_ok h" "length (put_msg k h (length load) @ first) < LINE_BUF_SIZE" "length (get_msg k h) < LINE_BUF_SIZE"
    and w: "store_rep w kvs" and mok: "\<And>n. mok n"
  shows "\<exists>s' w'. http_connected mok (Some (http_process mok lock len0 pos0)) s (q, w) = Inr (0, s', q, w') \<and> \<not> is_open s' \<and>
    tx s' = tx s @ response_text False 200 ''OK'' None 0 None @ response_text False 200 ''OK'' octets (int (length load)) None @ load \<and>
    store_rep w' ((k, of_nat (length load), Some load, None) # kvs)"
proof -
  let ?P = "http_process mok lock len0 pos0" and ?evs = "[RxData (get_msg k h)]" and ?n = "length load"
  have acc: "accepts 1 (s\<lparr>rx := ?evs\<rparr>)"
    using s(3) by (simp add: accepts_def)
  obtain c1 w' where c1: "?P (ready (s\<lparr>rx := ?evs\<rparr>) (body_req METHOD_PUT (data_path k) load) (hdrs2 METHOD_PUT h ?n) ?n) (q, w) = Inr (c1, q, w')"
      "alive c1" "accepts 1 (h_sock c1)" "same_input (s\<lparr>rx := ?evs\<rparr>) (h_sock c1)"
      "tx (h_sock c1) = tx s @ response_text False 200 ''OK'' None 0 None"
      "store_rep w' ((k, of_nat ?n, Some load, None) # kvs)"
    using put_served [OF w k(1) acc, of mok lock len0 pos0 load "hdrs2 METHOD_PUT h ?n" ?n q] mok by auto
  let ?s1 = "h_sock c1"
  have s1: "rx ?s1 = ?evs" "is_open ?s1" "accepts 1 (?s1\<lparr>rx := []\<rparr>)"
    using c1(3,4) s(2) by (auto simp: same_input_def accepts_def)
  obtain c2 where c2: "?P (ready (?s1\<lparr>rx := []\<rparr>) (std_req METHOD_GET (data_path k) HOST_HEADER 0) (hdrs1 METHOD_GET h) 0) (q, w') = Inr (c2, q, w')"
      "alive c2" "same_input (?s1\<lparr>rx := []\<rparr>) (h_sock c2)"
      "tx (h_sock c2) = tx ?s1 @ response_text False 200 ''OK'' octets (int ?n) None @ load"
    using get_served_raw [OF c1(6) k(1) s1(3), of load None mok lock len0 pos0 "hdrs1 METHOD_GET h" q] load(4) by auto
  define f where "f = rx_size s + 2 - Suc (length ps - 1)"
  have "length ps \<le> sum_list (map event_size (map RxData ps))"
    by (induction ps) auto
  then have f: "rx_size s + 2 = Suc (length ps - 1 + f)" "3 \<le> f"
    using rx_size_Data [OF s(1)] by (auto simp: f_def)
  have "input_loop (Suc (length ps - 1 + f)) mok (Some ?P) (new_conn s) (q, w) =
    rbind (?P (ready (s\<lparr>rx := ?evs\<rparr>) (body_req METHOD_PUT (data_path k) load) (hdrs2 METHOD_PUT h ?n) ?n) (q, w))
      (\<lambda>(c, w). input_loop f mok (Some ?P) (next_conn c) w)"
  proof (rule body_request [OF _ _ k(2) mok load s(1,2) put_msg_def k(3)])
    show "path_ok (data_path k)"
      using data_path_simps [OF k(1)] by simp
  qed (use c1(1,2) in \<open>auto simp: alive_def\<close>)
  then have "http_connected mok (Some ?P) s (q, w) =
    rbind (input_loop f mok (Some ?P) (new_conn ?s1) (q, w')) (\<lambda>(c, w). Inr (0, h_sock c, w))"
    unfolding http_connected_run [OF mok] f(1) using c1(1,2) by (simp add: next_alive)
  also have "\<dots> = Inr (0, closesocket (h_sock c2), q, w')"
    by (rule get_last [where P = ?P and mok = mok, OF c2(1-3) s1(1,2) k(1,2,4) _ f(2)]) (use mok in blast)
  finally show ?thesis
    using c1(5,6) c2(4) by (simp add: closesocket_def)
qed

subsection \<open>Properties\<close>

text \<open>C4: A client that puts a value and then gets it in one HTTP connection receives 200 for the
  first request and for the second a response with the length and exactly the bytes it sent, in
  whatever packets they arrived; the store has the new binding in front and the socket is closed.\<close>

theorem http_put_get_session:
  assumes "rx s = RxData (put_msg k h (length load) @ first) # map RxData ps @ [RxData (get_msg k h)]" "is_open s" "accepts 1 s"
    "load = first @ concat ps" "load \<noteq> []" "[] \<notin> set ps" "length load \<le> 2147483640"
    "web_key k" "host_ok h" "length (put_msg k h (length load) @ first) < LINE_BUF_SIZE" "length (get_msg k h) < LINE_BUF_SIZE"
    "store_rep w kvs" "\<And>n. mok n"
  shows "\<exists>s' w'. http_connected mok (Some (http_process mok lock len0 pos0)) s (q, w) = Inr (0, s', q, w') \<and> \<not> is_open s' \<and>
    tx s' = tx s @ response_text False 200 ''OK'' None 0 None @ response_text False 200 ''OK'' octets (int (length load)) None @ load \<and>
    store_rep w' ((k, of_nat (length load), Some load, None) # kvs)"
  using assms by (rule put_get_connection)

theorem http_put_get_session_witness:
  "\<exists>s' w'. http_connected (\<lambda>_. True) (Some (http_process (\<lambda>_. True) True 0 0))
      (peer (RxData (put_msg ''k'' ''h'' (length ''abcd'') @ ''a'') # map RxData [''bc'', ''d''] @ [RxData (get_msg ''k'' ''h'')]))
      (False, fresh_store) = Inr (0, s', False, w') \<and> \<not> is_open s' \<and>
    tx s' = tx (peer (RxData (put_msg ''k'' ''h'' (length ''abcd'') @ ''a'') # map RxData [''bc'', ''d''] @ [RxData (get_msg ''k'' ''h'')])) @
      response_text False 200 ''OK'' None 0 None @ response_text False 200 ''OK'' octets (int (length ''abcd'')) None @ ''abcd'' \<and>
    store_rep w' ((''k'', of_nat (length ''abcd''), Some ''abcd'', None) # [])"
  by (rule http_put_get_session [where first = "''a''" and ps = "[''bc'', ''d'']" and h = "''h''"])
    (auto simp: peer_def accepts_def web_key_def host_ok_def put_msg_def get_msg_def message_def start_line_def data_path_def
      host_line_def length_line_def LINE_BUF_SIZE_def fresh_rep dec_string.simps)

text \<open>C14: GET of an object that R stored for serialisation, for all values of the fields of the chunk
  buffer that \<open>http_store\<close> does not set. Either the position field is zero and the client gets a
  chunked response whose body decodes to the serialised object and is complete, the socket is closed
  and the store unchanged; or the connection runs into a fault of the chunk buffer, which happens
  only when the position is not zero or the length is not the buffer's size and the serialised
  object is larger than that.\<close>

theorem http_get_chunked:
  assumes "rx s = [RxData (get_msg k h)]" "is_open s" "accepts 1 s" "web_key k" "host_ok h" "length (get_msg k h) < LINE_BUF_SIZE"
    "store_rep w kvs" "\<And>n. mok n" "map_of kvs k = Some (len, None, Some x)" "wf_sexp x"
  shows "case http_connected mok (Some (http_process mok lock len0 pos0)) s (q, w) of
      Inl f \<Rightarrow> chunk_fault len0 pos0 x f
    | Inr (r, s', web') \<Rightarrow> pos0 = 0 \<and> r = 0 \<and> web' = (q, w) \<and> \<not> is_open s' \<and>
        (\<exists>sent. tx s' = tx s @ response_text False 200 ''OK'' octets (- 1) (Some (''Transfer-Encoding: chunked'' @ crlf)) @ sent \<and>
           dechunk sent = (wire x, last_chunk))"
proof -
  let ?P = "http_process mok lock len0 pos0"
  have acc: "accepts 1 (s\<lparr>rx := []\<rparr>)"
    using assms(3) by (simp add: accepts_def)
  note served = get_served_sfs [OF assms(7,4) acc _ assms(9,10), of mok len0 pos0 q lock "hdrs1 METHOD_GET h", OF assms(8)]
  have fuel: "3 \<le> rx_size s + 2"
    using rx_size_Data [OF assms(1)] by simp
  have mok: "\<forall>n. mok n"
    using assms(8) by blast
  show ?thesis
  proof (cases "?P (ready (s\<lparr>rx := []\<rparr>) (std_req METHOD_GET (data_path k) HOST_HEADER 0) (hdrs1 METHOD_GET h) 0) (q, w)")
    case (Inl f)
    then have "http_connected mok (Some ?P) s (q, w) = Inl f"
      unfolding http_connected_run [OF assms(8)] by (rule get_fault [OF _ assms(1,2,4,5,6) mok fuel])
    with Inl served show ?thesis
      by simp
  next
    case (Inr r)
    obtain c' web' where r: "r = (c', web')"
      by (cases r)
    have c': "pos0 = 0" "web' = (q, w)" "alive c'" "same_input (s\<lparr>rx := []\<rparr>) (h_sock c')"
        "\<exists>sent. tx (h_sock c') = tx s @ response_text False 200 ''OK'' octets (- 1) (Some (''Transfer-Encoding: chunked'' @ crlf)) @ sent \<and>
           dechunk sent = (wire x, last_chunk)"
      using served by (simp_all add: Inr r)
    from c'(3,4) have "http_connected mok (Some ?P) s (q, w) = Inr (0, closesocket (h_sock c'), web')"
      unfolding http_connected_run [OF assms(8)] by (rule get_last [where P = ?P and mok = mok, OF Inr [unfolded r] _ _ assms(1,2,4,5,6) mok fuel])
    with c'(1,2,5) show ?thesis
      by (simp add: closesocket_def)
  qed
qed

definition sfs_demo :: store where
  "sfs_demo = projr (store_add fresh_store ''k'' (0, None, Some (Sxp R_NilValue False (IntV [7]))))"

lemma sfs_demo_rep: "store_rep sfs_demo [(''k'', 0, None, Some (Sxp R_NilValue False (IntV [7])))]"
  using fresh_add [of "''k''" "(0, None, Some (Sxp R_NilValue False (IntV [7])))"] by (auto simp: sfs_demo_def cstr_def)

theorem http_get_chunked_witness:
  "\<exists>s' sent. http_connected (\<lambda>_. True) (Some (http_process (\<lambda>_. True) True 0 0)) (peer [RxData (get_msg ''k'' ''h'')]) (False, sfs_demo) =
      Inr (0, s', False, sfs_demo) \<and> \<not> is_open s' \<and>
    tx s' = tx (peer [RxData (get_msg ''k'' ''h'')]) @ response_text False 200 ''OK'' octets (- 1) (Some (''Transfer-Encoding: chunked'' @ crlf)) @ sent \<and>
    dechunk sent = (wire (Sxp R_NilValue False (IntV [7])), last_chunk)"
proof -
  let ?s = "peer [RxData (get_msg ''k'' ''h'')]" and ?x = "Sxp R_NilValue False (IntV [7])"
  let ?run = "http_connected (\<lambda>_. True) (Some (http_process (\<lambda>_. True) True 0 0)) ?s (False, sfs_demo)"
  have "case ?run of
      Inl f \<Rightarrow> chunk_fault 0 0 ?x f
    | Inr (r, s', web') \<Rightarrow> (0 :: 64 word) = 0 \<and> r = 0 \<and> web' = (False, sfs_demo) \<and> \<not> is_open s' \<and>
        (\<exists>sent. tx s' = tx ?s @ response_text False 200 ''OK'' octets (- 1) (Some (''Transfer-Encoding: chunked'' @ crlf)) @ sent \<and>
           dechunk sent = (wire ?x, last_chunk))"
    by (rule http_get_chunked [OF _ _ _ _ _ _ sfs_demo_rep])
      (auto simp: peer_def accepts_def web_key_def host_ok_def get_msg_def message_def start_line_def data_path_def
        host_line_def LINE_BUF_SIZE_def len_ok_def)
  moreover have "\<not> chunk_fault 0 0 ?x f" for f
    by (simp add: chunk_fault_def wire_def MAX_CHUNK_SIZE_def)
  ultimately show ?thesis
    by (cases ?run) auto
qed

text \<open>C15: A connection of the HTTP server ends for every sequence of packets and errors that the
  client can produce, for any outcome of the writes and any values of the fields that \<open>http_store\<close>
  does not set. With a store of readable entries the loop stops within its bound, returns 0, closes
  the socket and leaves a well-formed store, or the run ends in one of two faults: an access outside
  a buffer or a read of bytes that were never received or written. There is no null pointer, no use
  after free, no double free and no R error on any path.\<close>

theorem http_server_ends:
  assumes "web_good web"
  shows "case http_connected (\<lambda>_. True) (Some (http_process (\<lambda>_. True) lock len0 pos0)) s web of
      Inl f \<Rightarrow> f = Undefined OutOfBounds \<or> f = Undefined UninitRead
    | Inr (r, s', web') \<Rightarrow> r = 0 \<and> web_ok web' \<and> \<not> is_open s'"
  using web_connected [OF assms, of lock len0 pos0 s] by (simp only: run_ok_def web_fault_cases mem_fault_def)

theorem http_server_ends_witness:
  "case http_connected (\<lambda>_. True) (Some (http_process (\<lambda>_. True) True 0 0)) (peer [RxData ''GET /data/k HTTP/1.0'', RxErr 11, RxData ''x'']) (True, fresh_store) of
      Inl f \<Rightarrow> f = Undefined OutOfBounds \<or> f = Undefined UninitRead
    | Inr (r, s', web') \<Rightarrow> r = 0 \<and> web_ok web' \<and> \<not> is_open s'"
proof (rule http_server_ends)
  show "web_good (True, fresh_store)"
    using fresh_rep by (auto simp: web_rep_def)
qed

end
