(* ===== verification/HttpCut.thy ===== *)
theory HttpCut
  imports Ohsrv
begin

text \<open>
  A PUT whose connection closes before the end of the headers. src/http.c then processes the request
  as soon as it has a path, although the body was never allocated, and \<open>do_process\<close> of src/ohsrv.c
  stores the announced length with a null pointer. This is why \<open>http_server_ends\<close> asks for a store
  of readable entries, and promises only a well-formed one.
\<close>

subsection \<open>A PUT that is cut off\<close>

definition cut_msg :: "string \<Rightarrow> nat \<Rightarrow> string" where
  "cut_msg k n = start_line METHOD_PUT (data_path k) @ crlf @ length_line n @ crlf"

definition cut_hdrs :: "nat \<Rightarrow> string" where
  "cut_hdrs n = ''Request-Method: PUT'' @ [lf] @ length_line n @ [lf]"

lemma cut_parsed:
  assumes k: "web_key k" and n: "int n < 2 ^ 63" and mok: "\<And>n. mok n"
  shows "parse_lines mok process (cut_msg k n) ((new_conn s)\<lparr>h_line := line\<rparr>) w =
    Inr (True, std_conn s (std_req METHOD_PUT (data_path k) CONTENT_LENGTH (int n)) line (cut_hdrs n), w)"
proof -
  have path: "path_ok (data_path k)"
    using data_path_simps [OF k] by simp
  then have plain: "plain_line (start_line METHOD_PUT (data_path k))" and ne: "data_path k \<noteq> []" and nul: "nul \<notin> set (data_path k)"
    using start_line_plain [of METHOD_PUT "data_path k"] by (auto simp: known_def path_ok_def list_all_iff)
  have req: "request_line mok (start_line METHOD_PUT (data_path k)) ((new_conn s)\<lparr>h_line := line\<rparr>) =
    Inr (True, std_conn s (std_req METHOD_PUT (data_path k) 0 0) line (''Request-Method: PUT'' @ [lf]))"
    using mok by (subst request_line_std) (simp_all add: known_def ne nul)
  have hdr: "header_line mok (length_line n) (std_conn s (std_req METHOD_PUT (data_path k) 0 0) line (''Request-Method: PUT'' @ [lf])) =
    std_conn s (std_req METHOD_PUT (data_path k) (or 0 CONTENT_LENGTH) (int n)) line ((''Request-Method: PUT'' @ [lf]) @ length_line n @ [lf])"
    using n dec_string_length [of n 19] by (intro length_header) (simp_all add: length_line_def)
  have "parse_lines mok process [] c w = Inr (True, c, w)" for c
    by (subst parse_lines.simps) (simp add: is_eos_def)
  then show ?thesis
    using req hdr by (simp add: cut_msg_def cut_hdrs_def http_parse_line [OF plain] http_parse_line [OF length_line_plain] std_conn_def new_conn_def)
qed

text \<open>The two connections.\<close>

lemma hollow_put:
  assumes s: "rx s = [RxData (cut_msg k n)]" "is_open s" and k: "web_key k" "length (cut_msg k n) < LINE_BUF_SIZE"
    and n: "int n < 2 ^ 63" and w: "store_rep w kvs" and mok: "\<And>n. mok n"
  shows "\<exists>s' w'. http_connected mok (Some (http_process mok lock len0 pos0)) s (q, w) = Inr (0, s', q, w') \<and>
    store_rep w' ((k, of_nat n, None, None) # kvs)"
proof -
  let ?P = "http_process mok lock len0 pos0" and ?hdrs = "cut_hdrs n" and ?s = "s\<lparr>rx := []\<rparr>"
  let ?req = "std_req METHOD_PUT (data_path k) CONTENT_LENGTH (int n)"
  let ?c1 = "std_conn ?s ?req [] ?hdrs" and ?h = "Some (uninit (length (cut_hdrs n)))"
  have len: "length ?hdrs \<le> 1024"
    using n dec_string_length [of n 19] by (simp add: cut_hdrs_def length_line_def)
  have ne: "cut_msg k n \<noteq> []"
    by (simp add: cut_msg_def)
  have it1: "http_input_iteration mok (Some ?P) (new_conn s) (q, w) = Inr (?c1, q, w)"
    using input_message [OF s(1) ne k(2), of mok "Some ?P" "(q, w)"] cut_parsed [OF k(1) n, of mok "Some ?P" "cut_msg k n" ?s] mok
    by (simp add: std_conn_def)
  obtain w' where w': "obj_add mok k None None (of_nat n) w = Inr w'" "store_rep w' ((k, of_nat n, None, None) # kvs)"
    using objs.add [OF w, of k "(of_nat n, None, None)"] data_path_simps [OF k(1)] all_mok [of mok, OF mok]
    by (auto simp: store_add_def)
  have path: "take 6 (data_path k) @ k = data_path k"
    using data_path_simps [OF k(1)] by (simp add: data_path_def)
  let ?c2 = "?c1\<lparr>h_req := ?req\<lparr>r_headers := ?h\<rparr>\<rparr>"
  let ?c3 = "answer 200 ''OK'' None 0 None (?c2\<lparr>h_req := ?req\<lparr>r_headers := ?h, r_path := Some (data_path k), r_body := None\<rparr>\<rparr>)"
  have "?P ?c2 (q, w) = Inr (?c3, q, w')"
    using data_path_simps [OF k(1)] w'(1) path
    by (simp add: http_process_def data_put_def body_bytes_def Let_def std_conn_def std_req_def new_request_def)
  then have it2: "http_input_iteration mok (Some ?P) ?c1 (q, w) = Inr (http_close (?c3\<lparr>h_req := fin_request (h_req ?c3)\<rparr>), q, w')"
    using len mok
    by (simp add: http_input_iteration_def std_conn_def sock_recv_def process_request_def collect_buffers_def hdr_buf_def Let_def LINE_BUF_SIZE_def)
  obtain f where f: "rx_size s + 2 = Suc (Suc (Suc f))"
    using rx_size_Data [OF s(1)] by simp
  have "is_open (h_sock ?c1)" "is_open (h_sock (new_conn s))"
    using s(2) by (simp_all add: std_conn_def new_conn_def)
  then have "input_loop (Suc (Suc (Suc f))) mok (Some ?P) (new_conn s) (q, w) = Inr (http_close (?c3\<lparr>h_req := fin_request (h_req ?c3)\<rparr>), q, w')"
    unfolding input_loop.simps(2) by (simp add: it1 it2 http_close_def closesocket_def)
  then show ?thesis
    using w'(2) unfolding http_connected_run [OF mok] f by auto
qed

lemma hollow_get:
  assumes "rx s = [RxData (get_msg k h)]" "is_open s" "web_key k" "host_ok h" "length (get_msg k h) < LINE_BUF_SIZE"
    "store_rep w kvs" "\<And>n. mok n" "map_of kvs k = Some (len, None, None)" "len \<noteq> 0"
  shows "http_connected mok (Some (http_process mok lock len0 pos0)) s (q, w) = Inl (Undefined NullDeref)"
proof -
  let ?c = "ready (s\<lparr>rx := []\<rparr>) (std_req METHOD_GET (data_path k) HOST_HEADER 0) (hdrs1 METHOD_GET h) 0"
  obtain a en where en: "obj_get k False w = Inr (Some a, w)" "deref (oheap w) (Some a) = Inr en"
      "o_len en = len" "o_obj en = None" "o_sWhat en = None"
    using get_entry [OF assms(6,3,8)] by auto
  have "http_process mok lock len0 pos0 ?c (q, w) = Inl (Undefined NullDeref)"
    unfolding get_request [OF assms(3)] using en assms(9) by (simp add: data_get_def get_ready)
  moreover have "3 \<le> rx_size s + 2" "\<forall>n. mok n"
    using rx_size_Data [OF assms(1)] assms(7) by simp_all
  ultimately show ?thesis
    unfolding http_connected_run [OF assms(7)] using assms(1-5) by (intro get_fault)
qed

text \<open>A client that closes after the header \<open>Content-Length\<close> of a PUT leaves a binding of the key with
  that length and no bytes; the next GET of the key, on any connection, sends from a null pointer.\<close>

theorem http_put_cut_off:
  assumes "rx s1 = [RxData (cut_msg k n)]" "is_open s1" "length (cut_msg k n) < LINE_BUF_SIZE" "0 < n" "int n < 2 ^ 63"
    "rx s2 = [RxData (get_msg k h)]" "is_open s2" "length (get_msg k h) < LINE_BUF_SIZE"
    "web_key k" "host_ok h" "store_rep w kvs" "\<And>n. mok n"
  shows "\<exists>s' w'. http_connected mok (Some (http_process mok lock len0 pos0)) s1 (q, w) = Inr (0, s', q, w') \<and>
    store_rep w' ((k, of_nat n, None, None) # kvs) \<and>
    http_connected mok (Some (http_process mok lock len0 pos0)) s2 (q, w') = Inl (Undefined NullDeref)"
proof -
  obtain s' w' where put: "http_connected mok (Some (http_process mok lock len0 pos0)) s1 (q, w) = Inr (0, s', q, w')"
      "store_rep w' ((k, of_nat n, None, None) # kvs)"
    using hollow_put [OF assms(1,2,9,3,5,11), of mok] assms(12) by blast
  have "(of_nat n :: 64 word) \<noteq> 0"
    using assms(4,5) by (simp add: word_unat_eq_iff unat_of_nat take_bit_nat_eq_self_iff)
  then have "http_connected mok (Some (http_process mok lock len0 pos0)) s2 (q, w') = Inl (Undefined NullDeref)"
    by (intro hollow_get [OF assms(6,7,9,10,8) put(2)]) (simp_all add: assms(12))
  with put show ?thesis
    by blast
qed

theorem http_put_cut_off_witness:
  "\<exists>s' w'. http_connected (\<lambda>_. True) (Some (http_process (\<lambda>_. True) True 0 0)) (peer [RxData (cut_msg ''k'' 5)]) (False, fresh_store) = Inr (0, s', False, w') \<and>
    store_rep w' ((''k'', of_nat 5, None, None) # []) \<and>
    http_connected (\<lambda>_. True) (Some (http_process (\<lambda>_. True) True 0 0)) (peer [RxData (get_msg ''k'' ''h'')]) (False, w') = Inl (Undefined NullDeref)"
  by (rule http_put_cut_off)
    (auto simp: peer_def web_key_def host_ok_def get_msg_def message_def start_line_def data_path_def cut_msg_def
      host_line_def length_line_def dec_string.simps LINE_BUF_SIZE_def fresh_rep)

end
