(* ===== verification/Ocli.thy ===== *)
theory Ocli
  imports Osrv "HOL-Library.Monad_Syntax"
begin

text \<open>
  The client, \<open>C_ask\<close> of src/ocli.c: it sends one command, reads the ans of the response and,
  where the response says so, a payload or a serialised object.

  The loop that reads the ans may run for ever, so its value is an option, \<open>None\<close> when it does
  not return. A result comes with the socket as it is left; when \<open>sock_restore\<close> raises an error the
  socket is left open, and what it read is not recorded.
\<close>

subsection \<open>The response\<close>

datatype ask_fault = NoSocket | NoHost | NoConnect | AskFault fault

datatype ask_cmd = CmdRaw string | CmdStr string | CmdOther

datatype ask_answer = AskString string | AskRaw string | AskValue sexp

type_synonym ask_result = "(ask_fault + ask_answer) \<times> sock"

text \<open>What was received is in a buffer of 64 bytes; in case the payload is a serialised object,
  the line is read up to its end only.\<close>

definition ask_need :: "bool \<Rightarrow> nat \<Rightarrow> nat" where
  "ask_need sfs p = (if sfs then (if p < 5 then 5 - p else 1) else 63 - p)"

partial_function (option) ask_header :: "bool \<Rightarrow> string \<Rightarrow> sock \<Rightarrow> ((fault + string \<times> string) \<times> sock) option" where
  "ask_header sfs got s =
     (if CHR 0x0A \<in> set (cstr got) then
        Some (Inr (takeWhile (\<lambda>c. c \<noteq> CHR 0x0A) got, tl (dropWhile (\<lambda>c. c \<noteq> CHR 0x0A) got)), s)
      else if 56 < length got then Some (Inl (RError BadResponse), closesocket s)
      else
        (let (n, bs, s) = sock_recv (ask_need sfs (length got)) s in
         if n \<le> 0 then
           (if errno s = EAGAIN then ask_header sfs got s
            else Some (Inl (RError (if n = 0 then ConnClosed else ReadFailed)), closesocket s))
         else ask_header sfs (got @ bs) s))"

function ask_payload :: "nat \<Rightarrow> string \<Rightarrow> sock \<Rightarrow> (fault + string) \<times> sock" where
  "ask_payload pl got s =
     (if length got < pl then
        (let rq = (if pl - length got < FETCH_SIZE then pl - length got else FETCH_SIZE);
             (n, bs, s) = sock_recv rq s in
         if n < 0 then
           (if errno s = EAGAIN then ask_payload pl got s else (Inl (RError ReadFailed), closesocket s))
         else if n = 0 then (Inl (RError ConnClosed), closesocket s)
         else ask_payload pl (got @ bs) s)
      else (Inr got, closesocket s))"
  by pat_completeness auto
termination
  by (relation "measure (\<lambda>(pl, got, s). rx_size s)") (auto dest!: sock_recv_size [OF sym])

declare ask_payload.simps [simp del]

text \<open>After the line: \<open>alloc\<close> is whether R can allocate a vector of a size, \<open>buf\<close> the decoding buffer.\<close>

definition ask_answered :: "renv \<Rightarrow> string \<Rightarrow> (nat \<Rightarrow> bool) \<Rightarrow> bool \<Rightarrow> string \<times> string \<Rightarrow> sock \<Rightarrow> ask_result" where
  "ask_answered R buf alloc sfs lr s =
     (let (ans, rest) = lr in
      if length ans = 2 \<or> ans = ''UNSUPP'' then (Inr (AskString ans), closesocket s)
      else if take 3 ans = ''OK '' then
        (if sfs then
           (case sock_restore R buf s of
              Inl f \<Rightarrow> (Inl (AskFault f), s)
            | Inr (x, l) \<Rightarrow> (Inr (AskValue x), closesocket (src l)))
         else
           (let pl = unat (of_int (atol (drop 3 ans)) :: 64 word) in
            if \<not> alloc pl then (Inl (AskFault (RError AllocFailed)), s)
            else (case ask_payload pl (take pl rest) s of
                    (Inl f, s) \<Rightarrow> (Inl (AskFault f), s)
                  | (Inr d, s) \<Rightarrow> (Inr (AskRaw d), s))))
      else (Inl (AskFault (RError BadResponse)), closesocket s))"

subsection \<open>The call\<close>

text \<open>The answers of the system, and whether R can allocate. The host is \<open>None\<close> when it is not a
  single string.\<close>

record ask_env =
  ask_socket :: bool
  ask_parses :: "string \<Rightarrow> bool"
  ask_resolves :: "string \<Rightarrow> bool"
  ask_connects :: bool
  ask_alloc :: "nat \<Rightarrow> bool"

definition cmd_bytes :: "ask_cmd \<Rightarrow> string" where
  "cmd_bytes cmd = (case cmd of CmdRaw b \<Rightarrow> b | CmdStr c \<Rightarrow> cstr c | CmdOther \<Rightarrow> [])"

definition C_ask :: "renv \<Rightarrow> string \<Rightarrow> ask_env \<Rightarrow> string option \<Rightarrow> int \<Rightarrow> ask_cmd \<Rightarrow> bool \<Rightarrow> sock \<Rightarrow> ask_result option" where
  "C_ask R buf env host port cmd sfs s =
     (case host of
        None \<Rightarrow> Some (Inl (AskFault (RError InvalidArg)), s)
      | Some h \<Rightarrow>
          if cmd = CmdOther \<or> port < 0 \<or> 65535 < port then Some (Inl (AskFault (RError InvalidArg)), s)
          else if \<not> ask_socket env then Some (Inl NoSocket, s)
          else if \<not> ask_parses env h \<and> \<not> ask_resolves env h then Some (Inl NoHost, closesocket s)
          else if \<not> ask_connects env then Some (Inl NoConnect, s)
          else
            (let l = length (cmd_bytes cmd); (n, s) = sock_send (cmd_bytes cmd) s in
             if n < int l then Some (Inl (AskFault (RError SendFailed)), closesocket s)
             else
               do { (r, s) \<leftarrow> ask_header sfs [] s;
                    Some (case r of Inl f \<Rightarrow> (Inl (AskFault f), s) | Inr lr \<Rightarrow> ask_answered R buf (ask_alloc env) sfs lr s) }))"

subsection \<open>Reading the line\<close>

lemma ask_need_bounds: "length got \<le> 56 \<Longrightarrow> 0 < ask_need sfs (length got)"
  by (simp add: ask_need_def)

lemma ask_header_smooth:
  assumes "smooth s" "got @ stream s = ans @ CHR 0x0A # rest" "nul \<notin> set ans" "CHR 0x0A \<notin> set ans" "length ans \<le> 56"
    "sfs \<Longrightarrow> 4 \<le> length ans \<and> length got \<le> Suc (length ans)"
  shows "\<exists>over s'. ask_header sfs got s = Some (Inr (ans, over), s') \<and> smooth s' \<and> over @ stream s' = rest \<and> (sfs \<longrightarrow> over = [])"
  using assms
proof (induction "rx_size s" arbitrary: s got rule: less_induct)
  case less
  show ?case
  proof (cases "length ans < length got")
    case True
    then obtain over where over: "got = ans @ CHR 0x0A # over"
      using less.prems(2) by (auto simp: append_eq_append_conv2 append_eq_Cons_conv)
    then have "CHR 0x0A \<in> set (cstr got)"
      using less.prems(3) by (auto simp: cstr_def over takeWhile_append)
    moreover have "takeWhile (\<lambda>c. c \<noteq> CHR 0x0A) got = ans" "dropWhile (\<lambda>c. c \<noteq> CHR 0x0A) got = CHR 0x0A # over"
      using less.prems(4) by (auto simp: over takeWhile_append dropWhile_append)
    ultimately have "ask_header sfs got s = Some (Inr (ans, over), s)"
      by (simp add: ask_header.simps [of sfs got s])
    then show ?thesis
      using less.prems(1,2,6) over by auto
  next
    case False
    then have got: "got = take (length got) ans"
      using arg_cong [OF less.prems(2), of "take (length got)"] by simp
    then have "set (cstr got) \<subseteq> set ans"
      using set_take_subset [of "length got" ans] by (auto simp: cstr_def dest: set_takeWhileD)
    then have no: "CHR 0x0A \<notin> set (cstr got)" "\<not> 56 < length got"
      using less.prems(4,5) False by auto
    have ne: "stream s \<noteq> []"
      using less.prems(2) False by auto
    let ?need = "ask_need sfs (length got)"
    obtain n bs s1 where s1: "sock_recv ?need s = (n, bs, s1)"
      by (cases "sock_recv ?need s")
    note rc = smooth_recv [OF less.prems(1) s1 ask_need_bounds]
    have p: "length got \<le> 56"
      using no(2) by simp
    consider "n < 0" | "0 < n"
      using rc(3) [OF p] ne by linarith
    then show ?thesis
    proof cases
      case 1
      then have "ask_header sfs got s = ask_header sfs got s1"
        using no s1 rc(2) [OF p 1] by (simp add: ask_header.simps [of sfs got s])
      moreover have "rx_size s1 < rx_size s"
        using sock_recv_size [OF s1] 1 by simp
      ultimately show ?thesis
        using less.hyps [of s1 got] less.prems rc(1) [OF p] rc(2) [OF p 1] by simp
    next
      case 2
      then have "ask_header sfs got s = ask_header sfs (got @ bs) s1"
        using no s1 by (simp add: ask_header.simps [of sfs got s])
      moreover have "rx_size s1 < rx_size s"
        using sock_recv_size [OF s1] 2 by simp
      moreover have "sfs \<Longrightarrow> length (got @ bs) \<le> Suc (length ans)"
        using rc(4) [OF p 2] less.prems(6) False by (auto simp: ask_need_def split: if_splits)
      ultimately show ?thesis
        using less.hyps [of s1 "got @ bs"] less.prems rc(1) [OF p] rc(4) [OF p 2] by simp
    qed
  qed
qed

lemma ask_payload_fetch:
  "fetch_loop FETCH_SIZE pl got s = Inr (d, s') \<Longrightarrow> ask_payload pl got s = (Inr d, closesocket s')"
proof (induction pl got s rule: ask_payload.induct)
  case (1 pl got s)
  show ?case
  proof (cases "length got < pl")
    case False
    then show ?thesis
      using "1.prems" by (auto simp: ask_payload.simps [of pl d] fetch_loop.simps [of FETCH_SIZE pl got s])
  next
    case True
    let ?rq = "if pl - length got < FETCH_SIZE then pl - length got else FETCH_SIZE"
    have rq: "(if FETCH_SIZE < pl - length got then FETCH_SIZE else pl - length got) = ?rq"
      by auto
    obtain n bs s1 where s1: "sock_recv ?rq s = (n, bs, s1)"
      by (cases "sock_recv ?rq s")
    show ?thesis
      using "1.IH" [OF True refl s1 [symmetric] refl] "1.prems" True s1
      by (simp add: ask_payload.simps [of pl got s] fetch_loop.simps [of FETCH_SIZE pl got s] rq Let_def split: if_splits)
  qed
qed

subsection \<open>What a call returns\<close>

text \<open>A connection that can be made, and a command that is sent whole.\<close>

definition reachable :: "ask_env \<Rightarrow> string \<Rightarrow> int \<Rightarrow> bool" where
  "reachable env h port \<longleftrightarrow> ask_socket env \<and> (ask_parses env h \<or> ask_resolves env h) \<and> ask_connects env \<and> 0 \<le> port \<and> port \<le> 65535"

lemma C_ask_sent:
  assumes "reachable env h port" "cmd \<noteq> CmdOther" "plan s = []"
  shows "C_ask R buf env (Some h) port cmd sfs s =
    Option.bind (ask_header sfs [] (s\<lparr>tx := tx s @ cmd_bytes cmd\<rparr>)) (\<lambda>(r, s).
      Some (case r of Inl f \<Rightarrow> (Inl (AskFault f), s) | Inr lr \<Rightarrow> ask_answered R buf (ask_alloc env) sfs lr s))"
  using assms by (auto simp: C_ask_def reachable_def sock_send_def)

text \<open>An answer of one line, raw data, and a serialised object.\<close>

lemma ask_line:
  assumes "reachable env h port" "cmd \<noteq> CmdOther" "plan s = []" "smooth s" "stream s = ans @ CHR 0x0A # rest"
    "ans \<in> {''OK'', ''NF'', ''UNSUPP''}" "\<not> sfs"
  shows "\<exists>s'. C_ask R buf env (Some h) port cmd sfs s = Some (Inr (AskString ans), s') \<and> \<not> is_open s'"
proof -
  let ?s = "s\<lparr>tx := tx s @ cmd_bytes cmd\<rparr>"
  have "nul \<notin> set ans" "CHR 0x0A \<notin> set ans" "length ans \<le> 56" "length ans = 2 \<or> ans = ''UNSUPP''"
    using assms(6) by auto
  then obtain over s1 where "ask_header sfs [] ?s = Some (Inr (ans, over), s1)"
    using ask_header_smooth [of ?s "[]" ans rest sfs] assms(4,5,7) by (auto simp: smooth_def stream_def)
  then show ?thesis
    using C_ask_sent [OF assms(1-3)] \<open>length ans = 2 \<or> ans = ''UNSUPP''\<close> by (auto simp: ask_answered_def closesocket_def)
qed

lemma ask_raw:
  assumes "reachable env h port" "cmd \<noteq> CmdOther" "plan s = []" "smooth s"
    "stream s = ''OK '' @ dec_string (length d) @ CHR 0x0A # d @ after" "length d < 2 ^ 63" "ask_alloc env (length d)"
  shows "\<exists>s'. C_ask R buf env (Some h) port cmd False s = Some (Inr (AskRaw d), s') \<and> \<not> is_open s'"
proof -
  let ?s = "s\<lparr>tx := tx s @ cmd_bytes cmd\<rparr>" and ?ans = "''OK '' @ dec_string (length d)"
  have dig: "list_all is_digit (dec_string (length d))" "length (dec_string (length d)) \<le> 19"
    using assms(6) by (simp_all add: dec_string_digits dec_string_length)
  have "nul \<notin> set ?ans" "CHR 0x0A \<notin> set ?ans" "length ?ans \<le> 56"
    using dig by (auto simp: list_all_iff is_digit_def less_eq_char_def)
  then obtain over s1 where s1: "ask_header False [] ?s = Some (Inr (?ans, over), s1)" "smooth s1" "over @ stream s1 = d @ after"
    using ask_header_smooth [of ?s "[]" ?ans "d @ after" False] assms(4,5) by (auto simp: smooth_def stream_def)
  have pl: "unat (of_int (atol (drop 3 ?ans)) :: 64 word) = length d"
    using assms(6) by (simp add: atol_dec_string unat_of_nat take_bit_nat_eq_self_iff)
  obtain s2 where "ask_payload (length d) (take (length d) over) s1 = (Inr d, closesocket s2)"
  proof -
    let ?got = "take (length d) over"
    have "length d - length ?got \<le> length (stream s1)"
      using arg_cong [OF s1(3), of length] by simp
    then obtain s2 where "fetch_loop FETCH_SIZE (length d) ?got s1 = Inr (?got @ take (length d - length ?got) (stream s1), s2)"
      using fetch_loop_smooth [OF s1(2), of FETCH_SIZE ?got "length d"] by (auto simp: FETCH_SIZE_def)
    moreover have "?got @ take (length d - length ?got) (stream s1) = take (length d) (over @ stream s1)"
      by (cases "length over \<le> length d") simp_all
    then have "?got @ take (length d - length ?got) (stream s1) = d"
      using s1(3) by simp
    ultimately show ?thesis
      using ask_payload_fetch that by metis
  qed
  then show ?thesis
    using C_ask_sent [OF assms(1-3)] s1(1) assms(7) pl by (auto simp: ask_answered_def Let_def closesocket_def)
qed

lemma ask_object:
  assumes "reachable env h port" "cmd \<noteq> CmdOther" "plan s = []" "smooth s"
    "stream s = ''OK ?'' @ CHR 0x0A # wire x @ after" "length buf = DEC_BUF_SIZE" "wf_sexp x" "storable R x"
  shows "\<exists>s'. C_ask R buf env (Some h) port cmd True s = Some (Inr (AskValue (norm x)), s') \<and> \<not> is_open s' \<and> stream s' = after"
proof -
  let ?s = "s\<lparr>tx := tx s @ cmd_bytes cmd\<rparr>"
  obtain s1 where s1: "ask_header True [] ?s = Some (Inr (''OK ?'', []), s1)" "smooth s1" "stream s1 = wire x @ after"
    using ask_header_smooth [of ?s "[]" "''OK ?''" "wire x @ after" True] assms(4,5) by (auto simp: smooth_def stream_def)
  obtain l where "sock_restore R buf s1 = Inr (norm x, l)" "stream (src l) = after"
    using sock_restore_wire [OF s1(2,3) assms(6-8)] by blast
  then show ?thesis
    using C_ask_sent [OF assms(1-3)] s1(1) by (auto simp: ask_answered_def closesocket_def stream_def)
qed

subsection \<open>Whether it returns\<close>

lemma ask_header_stuck:
  assumes "ask_header sfs got s = Some y"
  shows "\<not> (rx s = [] \<and> errno s = EAGAIN \<and> CHR 0x0A \<notin> set (cstr got) \<and> length got \<le> 56)"
proof (rule ask_header.raw_induct [OF _ assms, where P = "\<lambda>sfs got s y. \<not> (rx s = [] \<and> errno s = EAGAIN \<and>
    CHR 0x0A \<notin> set (cstr got) \<and> length got \<le> 56)"], rule notI)
  fix rec sfs got s y
  assume IH: "\<And>sfs got s y. rec sfs got s = Some y \<Longrightarrow> \<not> (rx s = [] \<and> errno s = EAGAIN \<and> CHR 0x0A \<notin> set (cstr got) \<and> length got \<le> 56)"
    and body: "(if CHR 0x0A \<in> set (cstr got) then
        Some (Inr (takeWhile (\<lambda>c. c \<noteq> CHR 0x0A) got, tl (dropWhile (\<lambda>c. c \<noteq> CHR 0x0A) got)), s)
      else if 56 < length got then Some (Inl (RError BadResponse), closesocket s)
      else
        (let (n, bs, s) = sock_recv (ask_need sfs (length got)) s in
         if n \<le> 0 then
           (if errno s = EAGAIN then rec sfs got s
            else Some (Inl (RError (if n = 0 then ConnClosed else ReadFailed)), closesocket s))
         else rec sfs (got @ bs) s)) = Some y"
    and a: "rx s = [] \<and> errno s = EAGAIN \<and> CHR 0x0A \<notin> set (cstr got) \<and> length got \<le> 56"
  have "rec sfs got s = Some y"
    using body a by (simp add: sock_recv_def split: if_splits)
  then show False
    using IH a by blast
qed

lemma ask_header_returns:
  assumes "errno s \<noteq> EAGAIN" "RxErr EAGAIN \<notin> set (rx s)"
  shows "\<exists>r. ask_header sfs got s = Some r"
  using assms
proof (induction "rx_size s" arbitrary: s got rule: less_induct)
  case less
  obtain n bs s1 where s1: "sock_recv (ask_need sfs (length got)) s = (n, bs, s1)"
    by (cases "sock_recv (ask_need sfs (length got)) s")
  have keep: "errno s1 \<noteq> EAGAIN" "RxErr EAGAIN \<notin> set (rx s1)"
    using s1 less.prems by (auto simp: sock_recv_def split: if_splits list.splits rx_event.splits)
  have "\<exists>r. ask_header sfs (got @ bs) s1 = Some r" if "0 < n"
    using sock_recv_size [OF s1] that keep by (intro less.hyps) auto
  then show ?case
    using s1 keep by (cases "n \<le> 0") (auto simp: ask_header.simps [of sfs got s])
qed

lemma C_ask_returns:
  assumes "errno s \<noteq> EAGAIN" "RxErr EAGAIN \<notin> set (rx s)"
  shows "\<exists>r. C_ask R buf env host port cmd sfs s = Some r"
proof -
  obtain n s1 where s1: "sock_send (cmd_bytes cmd) s = (n, s1)"
    by (cases "sock_send (cmd_bytes cmd) s")
  obtain r s2 where "ask_header sfs [] s1 = Some (r, s2)"
    using ask_header_returns [of s1 sfs "[]"] sock_send_frame [OF s1] assms by auto
  then show ?thesis
    using s1 by (simp add: C_ask_def split: option.split)
qed

lemma C_ask_stuck:
  assumes "reachable env h port" "cmd \<noteq> CmdOther" "plan s = []" "rx s = [RxErr EAGAIN]"
  shows "C_ask R buf env (Some h) port cmd sfs s = None"
proof -
  let ?s = "s\<lparr>tx := tx s @ cmd_bytes cmd\<rparr>"
  have "ask_header sfs [] ?s = ask_header sfs [] (?s\<lparr>rx := [], errno := EAGAIN\<rparr>)"
    by (subst ask_header.simps) (simp add: assms(4) sock_recv_def ask_need_def cstr_def)
  also have "\<dots> = None"
  proof (rule ccontr)
    assume "ask_header sfs [] (?s\<lparr>rx := [], errno := EAGAIN\<rparr>) \<noteq> None"
    then obtain y where "ask_header sfs [] (?s\<lparr>rx := [], errno := EAGAIN\<rparr>) = Some y"
      by blast
    from ask_header_stuck [OF this] show False
      by (simp add: cstr_def)
  qed
  finally show ?thesis
    using C_ask_sent [OF assms(1-3)] by simp
qed

subsection \<open>Properties\<close>

text \<open>The socket of a client that will receive what a server sent, cut into packets, with
  time-outs in between.\<close>

definition receives :: "sock \<Rightarrow> string \<Rightarrow> bool" where
  "receives s bs \<longleftrightarrow> plan s = [] \<and> smooth s \<and> stream s = bs"

lemma get_command: "key_ok k \<Longrightarrow> cmd_bytes (CmdStr (line ''GET'' k)) = line ''GET'' k"
  by (simp add: cmd_bytes_def line_def key_ok_def cstr_id)

text \<open>What a run of the server sends on its socket.\<close>

definition sent_by :: "fault + bool \<times> sock \<times> store \<Rightarrow> sock \<Rightarrow> string" where
  "sent_by r sv = (case r of Inl f \<Rightarrow> [] | Inr (go, sv', w) \<Rightarrow> drop (length (tx sv)) (tx sv'))"

lemma sent_object:
  assumes "accepts 8 sv" "store_rep w kvs" "key_ok k" "map_of kvs k = Some (len, None, Some x)" "wf_sexp x"
  shows "sent_by (serve mok (cmd_bytes (CmdStr (line ''GET'' k))) sv w) sv = ''OK ?'' @ CHR 0x0A # wire x"
  using serve_get_object [OF assms, of mok] get_command [OF assms(3)] by (auto simp: sent_by_def)

lemma sent_data:
  assumes "accepts m sv" "1 \<le> m" "store_rep w kvs" "key_ok k" "map_of kvs k = Some (len, Some d, what)" "unat len = length d"
  shows "sent_by (serve mok (cmd_bytes (CmdStr (line ''GET'' k))) sv w) sv = ''OK '' @ dec_string (length d) @ CHR 0x0A # d"
  using serve_get_data [OF assms, of mok] get_command [OF assms(4)] by (auto simp: sent_by_def)

definition demo_ask :: ask_env where
  "demo_ask = \<lparr>ask_socket = True, ask_parses = (\<lambda>_. True), ask_resolves = (\<lambda>_. True), ask_connects = True, ask_alloc = (\<lambda>_. True)\<rparr>"

lemma demo_reachable: "reachable demo_ask ''localhost'' 9012"
  by (simp add: reachable_def demo_ask_def)

text \<open>C9: Client and server together: asking the TCP server for an object that R stored returns the
  object in normal form. The server gets the request in one packet and serialises the object to its
  socket; whatever way the network cuts the bytes, the client reads the line, restores the object
  from the rest and closes. This is for objects that can be restored.\<close>

theorem ask_gets_object:
  assumes "accepts 8 sv" "store_rep w kvs" "key_ok k" "map_of kvs k = Some (len, None, Some x)" "wf_sexp x" "storable R x"
    "length buf = DEC_BUF_SIZE" "reachable env h port" "receives s (sent_by (serve mok (cmd_bytes (CmdStr (line ''GET'' k))) sv w) sv)"
  shows "\<exists>s'. C_ask R buf env (Some h) port (CmdStr (line ''GET'' k)) True s = Some (Inr (AskValue (norm x)), s') \<and> \<not> is_open s'"
  using ask_object [OF assms(8), of "CmdStr (line ''GET'' k)" s x "[]" buf R] assms(5-7,9) sent_object [OF assms(1-5), of mok]
  by (auto simp: receives_def)

theorem ask_gets_object_witness:
  "\<exists>s'. C_ask any_renv (replicate DEC_BUF_SIZE nul) demo_ask (Some ''localhost'') 9012 (CmdStr (line ''GET'' ''k'')) True
      (client [RxData ''OK'', RxErr EAGAIN, RxData ('' ?'' @ CHR 0x0A # wire (plain (IntV [7])))]) =
    Some (Inr (AskValue (norm (plain (IntV [7])))), s') \<and> \<not> is_open s'"
proof (rule ask_gets_object [OF _ sfs_store_demo_rep _ _ _ _ _ demo_reachable])
  show "receives (client [RxData ''OK'', RxErr EAGAIN, RxData ('' ?'' @ CHR 0x0A # wire (plain (IntV [7])))])
    (sent_by (serve (\<lambda>_. True) (cmd_bytes (CmdStr (line ''GET'' ''k''))) (client []) sfs_store_demo) (client []))"
    by (subst sent_object [OF _ sfs_store_demo_rep])
      (simp_all add: demo_key cstr_def len_ok_def receives_def client_def smooth_def stream_def accepts_def)
qed (simp_all add: demo_key cstr_def len_ok_def any_renv_def)

text \<open>Asking for a value that was put as data returns exactly its bytes.\<close>

theorem ask_gets_data:
  assumes "accepts m sv" "1 \<le> m" "store_rep w kvs" "key_ok k" "map_of kvs k = Some (len, Some d, what)" "unat len = length d"
    "length d < 2 ^ 63" "ask_alloc env (length d)" "reachable env h port"
    "receives s (sent_by (serve mok (cmd_bytes (CmdStr (line ''GET'' k))) sv w) sv)"
  shows "\<exists>s'. C_ask R buf env (Some h) port (CmdStr (line ''GET'' k)) False s = Some (Inr (AskRaw d), s') \<and> \<not> is_open s'"
  using ask_raw [OF assms(9), of "CmdStr (line ''GET'' k)" s d "[]" R buf] assms(7,8,10) sent_data [OF assms(1-6), of mok]
  by (auto simp: receives_def)

lemma three_bytes: "unat (3 :: 64 word) = length ''abc''"
proof -
  have "unat (3 :: 64 word) = 3"
    by simp
  then show ?thesis
    by simp
qed

lemma demo_sent: "receives (client [RxData (''OK '' @ dec_string (length ''abc'')), RxErr EAGAIN, RxData (CHR 0x0A # ''a''), RxData ''bc''])
    (sent_by (serve (\<lambda>_. True) (cmd_bytes (CmdStr (line ''GET'' ''k''))) (client []) demo_store) (client []))"
  by (subst sent_data [OF _ _ demo_store_rep _ _ three_bytes, of 1])
    (simp_all add: demo_key receives_def client_def smooth_def stream_def accepts_def)

theorem ask_gets_data_witness:
  "\<exists>s'. C_ask any_renv [] demo_ask (Some ''localhost'') 9012 (CmdStr (line ''GET'' ''k'')) False
      (client [RxData (''OK '' @ dec_string (length ''abc'')), RxErr EAGAIN, RxData (CHR 0x0A # ''a''), RxData ''bc'']) = Some (Inr (AskRaw ''abc''), s') \<and> \<not> is_open s'"
  by (rule ask_gets_data [OF _ _ demo_store_rep _ _ three_bytes _ _ demo_reachable demo_sent, of 1])
    (simp_all add: demo_key demo_ask_def)

text \<open>C32: \<open>C_ask\<close> returns for every command and every behaviour of the server, as long as no read
  would block and \<open>errno\<close> was not left at that value.\<close>

theorem ask_returns:
  assumes "errno s \<noteq> EAGAIN" "RxErr EAGAIN \<notin> set (rx s)"
  shows "\<exists>r. C_ask R buf env host port cmd sfs s = Some r"
  using assms by (rule C_ask_returns)

theorem ask_returns_witness:
  "\<exists>r. C_ask any_renv [] demo_ask (Some ''localhost'') 9012 (CmdStr ''GET k'') False (client [RxData ''OK 3'', RxErr 104]) = Some r"
  by (rule ask_returns) (simp_all add: client_def EAGAIN_def)

text \<open>C40: Without that it may never return: when a read times out and the server then closes the
  connection before the line is complete, the stale \<open>errno\<close> makes \<open>C_ask\<close> read for ever.\<close>

theorem ask_hangs:
  assumes "reachable env h port" "cmd \<noteq> CmdOther" "plan s = []" "rx s = [RxErr EAGAIN]"
  shows "C_ask R buf env (Some h) port cmd sfs s = None"
  using assms by (rule C_ask_stuck)

theorem ask_hangs_witness:
  "C_ask any_renv [] demo_ask (Some ''localhost'') 9012 (CmdStr ''GET k'') False (client [RxErr EAGAIN]) = None"
  by (rule ask_hangs [OF demo_reachable]) (simp_all add: client_def)

end
