(* ===== verification/Servers.thy ===== *)
theory Servers
  imports TherverRun Osrv Ohsrv
begin

text \<open>
  The two object servers on the threads of src/therver.c: what holds in every run of a server that
  was started with \<open>do_process\<close> of src/osrv.c or of src/ohsrv.c, and what happens to connections
  when it is shut down or the program forks.
\<close>

subsection \<open>Starting them from R\<close>

text \<open>The state that is kept between calls: the flags of obj.c and deps.c, the store, and the list of
  the servers. \<open>threads_arg\<close> checks the port and the number of threads.\<close>

type_synonym 'd program = "(bool \<times> bool) \<times> store \<times> 'd therver_s list"

definition threads_arg :: "int \<Rightarrow> int \<Rightarrow> fault + nat" where
  "threads_arg port threads =
     (if port < 1 \<or> 65535 < port then Inl (RError InvalidArg)
      else if threads < 1 \<or> 1000 < threads then Inl (RError InvalidArg)
      else Inr (nat threads))"

definition C_start :: "bool \<Rightarrow> server_env \<Rightarrow> string option \<Rightarrow> int \<Rightarrow> int \<Rightarrow> 'd program \<Rightarrow> fault + bool \<times> 'd program" where
  "C_start calloc_ok env host port threads st =
     rbind (threads_arg port threads) (\<lambda>n.
       let (i, w) = obj_init calloc_ok (fst st) (fst (snd st)) in
       rbind (therver env host n (snd (snd st))) (\<lambda>(k, ts). Inr (k \<noteq> None, i, w, ts)))"

text \<open>\<open>C_start_http\<close> also sets the static \<open>queue\<close> unless it is set.\<close>

definition C_start_http :: "bool \<Rightarrow> server_env \<Rightarrow> string option \<Rightarrow> int \<Rightarrow> int \<Rightarrow> bool \<times> 'd program \<Rightarrow> fault + bool \<times> bool \<times> 'd program" where
  "C_start_http calloc_ok env host port threads st =
     rbind (threads_arg port threads) (\<lambda>n.
       let (i, w) = obj_init calloc_ok (fst (snd st)) (fst (snd (snd st)));
           (i2, d) = dep_init calloc_ok (snd i, odeps w);
           queue = (fst st \<or> dep_queue d \<noteq> None);
           (i, w) = (if fst st then (i, w) else ((fst i, i2), w\<lparr>odeps := d\<rparr>)) in
       rbind (therver env host n (snd (snd (snd st)))) (\<lambda>(k, ts). Inr (k \<noteq> None, queue, i, w, ts)))"

subsection \<open>The threads\<close>

text \<open>A server that \<open>C_start\<close> reports as started is the last of the list, with all its threads' invariants.\<close>

lemma C_start_runs:
  assumes "C_start calloc_ok env host port threads st = Inr (True, st')"
  shows "\<exists>t i w. st' = (i, w, snd (snd st) @ [t]) \<and> therver_ok t []"
proof -
  obtain k i w ts where r: "therver env host (nat threads) (snd (snd st)) = Inr (Some k, ts)" "st' = (i, w, ts)"
    using assms by (auto simp: C_start_def threads_arg_def rbind_iffs split: if_splits prod.splits)
  then obtain t where t: "ts = snd (snd st) @ [t]"
    by (auto simp: therver_def split: if_splits prod.splits)
  with r show ?thesis
    using therver_result by blast
qed

text \<open>C2: No interleaving of the threads of a started object server, with clients that send
  anything, with shutting down and with forks, runs into a fault of the server's threads: no entry of
  the queue is used after it was freed, no null pointer is followed, and no descriptor is closed that
  is not open. The only faults left are those that \<open>do_process\<close> itself runs into on the connection
  that a worker has handed to it.\<close>

theorem therver_no_fault:
  assumes "therver env host n ts = Inr (Some k, ts @ [t])" "p = osrv_conn \<or> p = ohsrv_conn" "run p t es u" "step p u e r"
  shows "(\<exists>v. r = Inr v) \<or> (\<exists>f. r = Inl f \<and> process_fault p u f)"
  using assms(2) osrv_therver.no_fault [OF assms(1)] ohsrv_therver.no_fault [OF assms(1)] assms(3,4) by blast

theorem therver_no_fault_witness:
  "(\<exists>v. Inr (therver_shutdown demo_server) = (Inr v :: fault + unit therver_s)) \<or>
    (\<exists>f. (Inr (therver_shutdown demo_server) :: fault + unit therver_s) = Inl f \<and> process_fault ohsrv_conn demo_server f)"
  by (rule therver_no_fault [OF demo_started _ run_refl shutdown]) simp

text \<open>C12: The queue of the server is first in, first out, whatever the interleaving: the sockets that
  the workers have taken are an initial part of those that the acceptor has put on the queue, and
  the rest are the sockets of the entries that the queue's links run through.\<close>

theorem therver_fifo:
  assumes "therver env host n ts = Inr (Some k, ts @ [t])" "run ohsrv_conn t es u"
  shows "\<exists>qs. queue_ok u qs \<and> queued es = taken es @ map (esock (theap u)) qs"
  using ohsrv_therver.started_run [OF assms] by (auto simp: therver_ok_def waiting_def)

theorem therver_fifo_witness:
  "\<exists>h qs. queue_ok (demo_state False (- 1) Unlocked h W_Exit A_Exit {5} :: unit therver_s) qs \<and>
    queued [Tau, Tau, Tau, Tau, Tau, Accepted 5, Tau, Tau, Queued 5, Tau, Tau, Tau, Tau, Tau, Tau, Tau, Tau] =
    taken [Tau, Tau, Tau, Tau, Tau, Accepted 5, Tau, Tau, Queued 5, Tau, Tau, Tau, Tau, Tau, Tau, Tau, Tau] @
    map (esock (theap (demo_state False (- 1) Unlocked h W_Exit A_Exit {5} :: unit therver_s))) qs"
  using demo_run [of ohsrv_conn] therver_fifo [OF demo_started] by blast

text \<open>C7: Every open descriptor of the server has exactly one owner: the entry of one waiting
  connection, one worker, the acceptor, or the listening socket. So no connection is served by two
  workers, none is lost, and a worker that closes its socket closes nobody else's.\<close>

theorem therver_one_owner:
  assumes "therver env host n ts = Inr (Some k, ts @ [t])" "run osrv_conn t es u"
  shows "\<exists>qs. queue_ok u qs \<and> mset_set (fds u) = held u qs"
  using assms by (rule osrv_therver.one_owner)

theorem therver_one_owner_witness:
  "\<exists>h qs. queue_ok (demo_state False (- 1) Unlocked h W_Exit A_Exit {5} :: unit therver_s) qs \<and>
    mset_set (fds (demo_state False (- 1) Unlocked h W_Exit A_Exit {5} :: unit therver_s)) =
      held (demo_state False (- 1) Unlocked h W_Exit A_Exit {5}) qs"
  using demo_run [of osrv_conn] therver_one_owner [OF demo_started] by blast

text \<open>C21: No wake-up is lost: when a worker sleeps on the condition and the acceptor is not just about
  to broadcast, every connection that was put on the queue has been taken.\<close>

theorem therver_no_lost_wakeup:
  assumes "therver env host n ts = Inr (Some k, ts @ [t])" "run ohsrv_conn t es u"
    "worker_at i W_Sleep u" "acceptor u \<noteq> A_Broadcast"
  shows "queued es = taken es"
  using assms by (rule ohsrv_therver.sleeping)

theorem therver_no_lost_wakeup_witness: "queued [Tau, Tau, Tau] = taken [Tau, Tau, Tau]"
proof -
  let ?h = "demo_heap [0 \<mapsto> demo_entry (Some 0) (Some 0) (- 1)] 1 :: unit qentry heap"
  have "run ohsrv_conn demo_server [Tau, Tau, Tau] (demo_state True 3 Unlocked ?h W_Sleep A_Loop {3})"
    unfolding demo_start
    apply (rule run_next [OF step.w_loop [where i = 0]], (simp add: demo_defs)+)
    apply (rule run_next [OF step.w_lock [where i = 0]], (simp add: demo_defs)+)
    apply (rule run_next [OF step.w_wait [where i = 0 and r = "demo_entry (Some 0) (Some 0) (- 1)"]], (simp add: demo_defs)+)
    apply (rule run_refl)
    done
  from therver_no_lost_wakeup [OF demo_started this, of 0] show ?thesis
    by (simp add: demo_state_def worker_at_def)
qed

subsection \<open>Shutting down and forking\<close>

text \<open>C39: Shutting down strands connections: once the flag is cleared and the workers have ended,
  however the acceptor goes on, nothing is taken off the queue any more. What waited there, and what
  the acceptor still puts there, stays on the queue, and the sockets that waited stay open.\<close>

theorem therver_shutdown_strands:
  assumes "therver env host n ts = Inr (Some k, ts @ [t])" "run osrv_conn t es u" "stopped u" "run osrv_conn u es' v"
  shows "taken es' = [] \<and> (\<exists>qs rest. queue_ok v qs \<and> map (esock (theap v)) qs = rest @ queued es' \<and>
    queued es = taken es @ rest \<and> set rest \<subseteq> fds v)"
  using assms by (rule osrv_therver.stranded)

theorem therver_shutdown_strands_witness:
  "\<exists>es u. run osrv_conn demo_server es u \<and> queued es = [5] \<and> taken es = [] \<and> 5 \<in> fds u \<and> acceptor u = A_Exit \<and>
    map w_pc (workers u) = [W_Exit]"
proof -
  let ?es = "[Tau, Tau, Tau, Tau, Tau, Accepted 5, Tau, Tau, Queued 5, Tau, Tau, Tau, Tau, Tau, Tau, Tau, Tau]"
  obtain h where u: "run osrv_conn demo_server ?es (demo_state False (- 1) Unlocked h W_Exit A_Exit {5})"
    using demo_run [of osrv_conn] by blast
  let ?u = "demo_state False (- 1) Unlocked h W_Exit A_Exit {5} :: unit therver_s"
  have "stopped ?u"
    by (simp add: stopped_def demo_state_def)
  from therver_shutdown_strands [OF demo_started u this run_refl] have "5 \<in> fds ?u"
    by (auto simp: queued_def taken_def)
  with u show ?thesis
    by (intro exI [of _ ?es] exI [of _ ?u]) (simp add: queued_def taken_def demo_state_def)
qed

text \<open>A server that runs one of the two object servers, in any state of its threads.\<close>

definition serving :: "unit therver_s \<Rightarrow> bool" where
  "serving u \<longleftrightarrow> (\<exists>env host n ts k t es. therver env host n ts = Inr (Some k, ts @ [t]) \<and>
     (run osrv_conn t es u \<or> run ohsrv_conn t es u))"

definition closed_in_child :: "unit therver_s \<Rightarrow> unit therver_s \<Rightarrow> bool" where
  "closed_in_child u v \<longleftrightarrow> \<not> active v \<and> pool_mutex v = Unlocked \<and> ss v = - 1 \<and> mset_set (fds v) =
     wsum (w_socks (esock (theap u))) (workers u) + mset (a_socks (esock (theap u)) (acceptor u))"

lemma serving_ok: "serving u \<Longrightarrow> \<exists>qs. therver_ok u qs"
  using osrv_therver.started_run ohsrv_therver.started_run unfolding serving_def by blast

lemma serving_reset: "serving u \<Longrightarrow> acceptor u = A_Reset \<Longrightarrow> ss u \<notin> fds u"
  using reset_run started_acceptor unfolding serving_def by blast

lemma fork_child_serving:
  assumes "serving u"
  shows "if acceptor u = A_Reset then fork_child u = Inl (Undefined UseAfterFree) else \<exists>v. fork_child u = Inr v \<and> closed_in_child u v"
proof -
  obtain qs where qs: "therver_ok u qs"
    using serving_ok [OF assms] by blast
  show ?thesis
  proof (cases "acceptor u = A_Reset")
    case True
    then have "ss u \<noteq> - 1"
      using acc_localD [OF qs] by simp
    with True serving_reset [OF assms True] show ?thesis
      by (simp add: fork_child_def close_fd_def)
  next
    case False
    then show ?thesis
      using fork_child_spec [OF qs False] child_open [OF qs False] by (auto simp: closed_in_child_def)
  qed
qed

lemma forked_child_all: "list_all serving us \<Longrightarrow>
    if list_all (\<lambda>u. acceptor u \<noteq> A_Reset) us then \<exists>vs. forked_child us = Inr vs \<and> list_all2 closed_in_child us vs
    else forked_child us = Inl (Undefined UseAfterFree)"
proof (induction us)
  case (Cons u us)
  then show ?case
    using fork_child_serving [of u] by (cases "acceptor u = A_Reset"; cases "list_all (\<lambda>u. acceptor u \<noteq> A_Reset) us") fastforce+
qed simp

lemma prefork_all:
  "list_all (\<lambda>u. pool_mutex u \<noteq> MutexZero) us \<Longrightarrow> prefork us =
    (if list_all (\<lambda>u. pool_mutex u = Unlocked) us then Some (Inr (map (\<lambda>u. u\<lparr>pool_mutex := LockedBy Forker\<rparr>) us)) else None)"
  by (induction us) (auto simp: fork_lock_def split: mutex.splits)

lemma parent_undoes: "list_all (\<lambda>u. pool_mutex u = Unlocked) us \<Longrightarrow>
    forked_parent (map (\<lambda>u. u\<lparr>pool_mutex := LockedBy Forker\<rparr>) us) = us"
  by (induction us) (simp_all add: forked_parent_def fork_unlock_def)

lemma serving_forking:
  assumes "serving u" "pool_mutex u = Unlocked"
  shows "serving (u\<lparr>pool_mutex := LockedBy Forker\<rparr>)"
proof -
  have "fork_lock u = Some (Inr (u\<lparr>pool_mutex := LockedBy Forker\<rparr>))"
    using assms(2) by (simp add: fork_lock_def)
  then have "run p t es u \<Longrightarrow> run p t (es @ [Tau]) (u\<lparr>pool_mutex := LockedBy Forker\<rparr>)" for p and t :: "unit therver_s" and es
    using run_step step.fork by blast
  with assms(1) show ?thesis
    unfolding serving_def by blast
qed

lemma closed_in_child_locked: "closed_in_child (u\<lparr>pool_mutex := M\<rparr>) = closed_in_child u"
  by (rule ext) (simp add: closed_in_child_def)

lemma forked_child_locked:
  assumes "list_all serving us" "list_all (\<lambda>u. pool_mutex u = Unlocked) us"
  defines "ps \<equiv> map (\<lambda>u. u\<lparr>pool_mutex := LockedBy Forker\<rparr>) us"
  shows "if list_all (\<lambda>u. acceptor u \<noteq> A_Reset) us then \<exists>vs. forked_child ps = Inr vs \<and> list_all2 closed_in_child us vs
    else forked_child ps = Inl (Undefined UseAfterFree)"
proof -
  have "list_all serving ps"
    using assms(1,2) by (auto simp: ps_def list_all_iff serving_forking)
  from forked_child_all [OF this] show ?thesis
    unfolding ps_def by (simp add: list_all2_map1 closed_in_child_locked list.pred_map comp_def cong: if_cong)
qed

text \<open>C30: Forking with any number of servers running: \<open>prefork\<close> waits as long as a server is in its
  critical section, and else takes every lock; in the parent the handler then gives every server
  back as it was; in the child it closes the listening socket and the waiting connections of every
  server, leaves it unlocked and inactive, and leaves open exactly the connections that its threads
  held. There is one exception: an acceptor that is shut down closes its socket and resets the field
  in two steps without the lock, and a fork in between makes the child close the socket again.\<close>

theorem therver_fork_all:
  assumes "list_all serving us"
  shows "if list_all (\<lambda>u. pool_mutex u = Unlocked) us
    then \<exists>ps. prefork us = Some (Inr ps) \<and> forked_parent ps = us \<and>
      (if list_all (\<lambda>u. acceptor u \<noteq> A_Reset) us then \<exists>vs. forked_child ps = Inr vs \<and> list_all2 closed_in_child us vs
       else forked_child ps = Inl (Undefined UseAfterFree))
    else prefork us = None"
proof -
  have "list_all (\<lambda>u. pool_mutex u \<noteq> MutexZero) us"
    using assms serving_ok by (fastforce simp: list_all_iff therver_ok_def lock_ok_def)
  from prefork_all [OF this] parent_undoes [of us] forked_child_locked [OF assms] show ?thesis
    by simp
qed

theorem therver_fork_all_witness:
  "\<exists>ps vs. prefork [demo_server, demo_server] = Some (Inr ps) \<and> forked_parent ps = [demo_server, demo_server :: unit therver_s] \<and>
    forked_child ps = Inr vs \<and> list_all2 closed_in_child [demo_server, demo_server] vs"
proof -
  have "serving demo_server"
    unfolding serving_def using demo_started run_refl [of osrv_conn demo_server] by blast
  then have "list_all serving [demo_server, demo_server]"
    by simp
  moreover have "list_all (\<lambda>u. pool_mutex u = Unlocked) [demo_server, demo_server :: unit therver_s]"
    "list_all (\<lambda>u. acceptor u \<noteq> A_Reset) [demo_server, demo_server :: unit therver_s]"
    by (simp_all add: demo_start demo_state_def)
  ultimately show ?thesis
    using therver_fork_all [of "[demo_server, demo_server]"] by (simp only: if_True) blast
qed

text \<open>That state is reached: a server with no connection is shut down, and its acceptor ends.\<close>

lemma double_close_reached:
  "\<exists>es u. run osrv_conn demo_server es u \<and> pool_mutex u = Unlocked \<and> acceptor u = A_Reset"
proof -
  let ?h = "demo_heap [0 \<mapsto> demo_entry (Some 0) (Some 0) (- 1)] 1 :: unit qentry heap"
  have "run osrv_conn demo_server [Tau, Tau, Tau] (demo_state False 3 Unlocked ?h W_Loop A_Reset {})"
    unfolding demo_start
    apply (rule run_next [OF step.shutdown], (simp add: demo_defs)+)
    apply (rule run_next [OF step.a_loop], (simp add: demo_defs)+)
    apply (rule run_next [OF step.a_end], (simp add: demo_defs)+)
    apply (rule run_refl)
    done
  then show ?thesis
    by (fastforce simp: demo_state_def)
qed

text \<open>When the memory for the threads cannot be had, \<open>therver\<close> reports failure but keeps the server
  in its list with a mutex that was never initialised, and the next \<open>fork\<close> locks it.\<close>

theorem therver_failed_start:
  assumes "env_calloc env" "env_socket env \<noteq> - 1" "env_bound env" "\<not> env_malloc env"
  shows "\<exists>t. therver env None n [] = Inr (None, [t]) \<and> prefork [t :: unit therver_s] = Some (Inl (Undefined UninitRead))"
  using assms by (simp add: therver_def start_threads_def new_therver_def new_rec_def fork_lock_def Let_def)

theorem therver_failed_start_witness:
  "\<exists>t. therver (demo_env\<lparr>env_malloc := False\<rparr>) None 4 [] = Inr (None, [t]) \<and>
    prefork [t :: unit therver_s] = Some (Inl (Undefined UninitRead))"
  by (rule therver_failed_start) (simp_all add: demo_env_def)

text \<open>Starting a server on a host name that does not resolve follows the null result of the look-up.\<close>

theorem start_unknown_host:
  assumes "0 < port" "port \<le> 65535" "0 < threads" "threads \<le> 1000" "env_calloc env" "\<not> env_parses env h" "\<not> env_resolves env h"
  shows "C_start calloc_ok env (Some h) port threads st = Inl (Undefined NullDeref)"
  using assms by (simp add: C_start_def threads_arg_def therver_def split: prod.split)

end
