(* ===== verification/Work.thy ===== *)
theory Work
  imports Ohsrv DepsAdd
begin

text \<open>
  The way of a job: what a client posts to \<open>/work/\<close> of the HTTP server is popped from the queue of
  the dependencies by R. And of a result: when a client puts the last object that a dependency
  waits for, R pops the message of the dependency.
\<close>

lemma pop_block:
  assumes pop: "ev_pop True q m0 = Inr (Some a, q', m)" and v: "mem (ents m) a = Some v"
    "e_data v = Block b" "unat (e_len v) = length bs" "e_free v = Some EvFreeData" "mem (blocks m) b = Some bs"
    and alloc: "alloc_raw (length bs)" "bs \<noteq> []"
  shows "C_evq_pop alloc_raw custom True None False q m0 = Inr (EvRaw bs, q',
    m\<lparr>blocks := (blocks m)\<lparr>mem := (mem (blocks m))(b := None)\<rparr>, ents := (ents m)\<lparr>mem := (mem (ents m))(a := None)\<rparr>\<rparr>)"
proof -
  have "e_len v \<noteq> 0"
    using v(3) alloc(2) by (metis length_0_conv unat_0)
  moreover have "read_data (Some a) (length bs) m = Inr bs"
    using v by (simp add: read_data_def read_mem_def)
  ultimately show ?thesis
    using v alloc by (simp add: C_evq_pop_def pop ev_free_def ev_free_data_def)
qed

text \<open>The push of a body on the empty queue, and the pop.\<close>

lemma push_pop_block:
  assumes qu: "ev_rep (qu, m) []" "heap_ok (ents m)" and b: "mem (blocks m) b = Some bs" and bs: "bs \<noteq> []" "length bs < 2 ^ 64"
    and mok: "\<And>n. mok n" and alloc: "\<And>n. alloc_raw n"
  shows "\<exists>a m1 fds qu' m'. ev_create mok (Block b) (of_nat (length bs)) (Some EvFreeData) m = (Some a, m1) \<and>
    ev_push True qu (Some a) False m1 = Inr (Some a, fds, qu', m') \<and> ev_rep (qu', m') [a] \<and> heap_ok (ents m') \<and>
    (\<exists>q2 m2. C_evq_pop alloc_raw custom True None False qu' m' = Inr (EvRaw bs, q2, m2) \<and> ev_rep (q2, m2) [])"
proof -
  obtain a m1 where a: "ev_create mok (Block b) (of_nat (length bs)) (Some EvFreeData) m = (Some a, m1)"
    using mok by (auto simp: ev_create_def Let_def new_rec_def)
  note fr = ev_create_block [OF a qu(2)]
  have rep: "ev_rep (qu, m1) []"
    using qu(1) by (simp add: ev_rep_def)
  have ready: "ev_ready (qu, m1) a"
    using fr by (simp add: ev_ready_def)
  obtain qu' m' fds where push: "ev_push True qu (Some a) False m1 = Inr (Some a, fds, qu', m')" "ev_rep (qu', m') [a]"
      "heap_ok (ents m')" "blocks m' = blocks m1"
    using ev_push_back_ok [OF rep ready] fr by auto
  obtain w where w: "mem (ents m') a = Some w" "e_data w = Block b" "e_len w = of_nat (length bs)" "e_free w = Some EvFreeData"
    using ev_push_entry [OF push(1), of a] fr by auto
  obtain q4 m4 where pop: "ev_pop True qu' m' = Inr (Some a, q4, m4)" "ev_rep (q4, m4) []" "blocks m4 = blocks m'"
      "mem (ents m4) a = map_option (\<lambda>v. v\<lparr>e_next := NULL, e_prev := NULL\<rparr>) (mem (ents m') a)"
    using ev_pop_first [OF push(2)] by blast
  let ?m2 = "m4\<lparr>blocks := (blocks m4)\<lparr>mem := (mem (blocks m4))(b := None)\<rparr>, ents := (ents m4)\<lparr>mem := (mem (ents m4))(a := None)\<rparr>\<rparr>"
  have "C_evq_pop alloc_raw custom True None False qu' m' = Inr (EvRaw bs, q4, ?m2)"
  proof (rule pop_block [OF pop(1)])
    show "mem (ents m4) a = Some (w\<lparr>e_next := NULL, e_prev := NULL\<rparr>)"
      using pop(4) w(1) by simp
    show "mem (blocks m4) b = Some bs"
      using pop(3) push(4) fr b by simp
  qed (use w bs alloc in \<open>simp_all add: unat_of_nat take_bit_nat_eq_self_iff\<close>)
  moreover have "ev_rep (q4, ?m2) []"
    using pop(2) by (simp add: ev_rep_def)
  ultimately show ?thesis
    using a push(1-3) by blast
qed

definition work_path :: "string \<Rightarrow> bool" where
  "work_path p \<longleftrightarrow> path_ok p \<and> take 6 p = ''/work/''"

definition empty_queue :: "store \<Rightarrow> bool" where
  "empty_queue w \<longleftrightarrow> (\<exists>qu. dep_queue (odeps w) = Some qu \<and> ev_rep (qu, dmem (odeps w)) [] \<and> heap_ok (ents (dmem (odeps w))))"

text \<open>R pops \<open>load\<close> from the queue, which is empty then.\<close>

definition pops :: "string \<Rightarrow> store \<Rightarrow> bool" where
  "pops load w \<longleftrightarrow> (\<exists>qu q2 m2. dep_queue (odeps w) = Some qu \<and>
     C_evq_pop (\<lambda>_. True) (\<lambda>_ _ m. Inr m) True None False qu (dmem (odeps w)) = Inr (EvRaw load, q2, m2) \<and> ev_rep (q2, m2) [])"

lemma work_served:
  assumes w: "empty_queue w" and p: "work_path path" and s: "accepts 1 s" and mok: "\<And>n. mok n"
    and load: "load \<noteq> []" "length load \<le> 2147483640"
  shows "\<exists>c' w'. http_process mok True len0 pos0 (ready s (body_req METHOD_POST path load) hdrs n) (True, w) = Inr (c', True, w') \<and>
    alive c' \<and> same_input s (h_sock c') \<and> tx (h_sock c') = tx s @ response_text False 200 ''OK'' None 0 None \<and> pops load w'"
proof -
  let ?req = "(body_req METHOD_POST path load)\<lparr>r_headers := Some (uninit (length hdrs))\<rparr>"
  let ?c = "(ready s (body_req METHOD_POST path load) hdrs n)\<lparr>h_req := ?req\<lparr>r_body := None\<rparr>\<rparr>"
  let ?d = "odeps w"
  obtain qu where qu: "dep_queue ?d = Some qu" "ev_rep (qu, dmem ?d) []" "heap_ok (ents (dmem ?d))"
    using w by (auto simp: empty_queue_def)
  obtain b bl where new: "new_rec load (blocks (dmem ?d)) = (b, bl)" "mem bl b = Some load"
    by (simp add: new_rec_def)
  obtain a m1 fds qu' m' q2 m2 where push: "ev_create mok (Block b) (of_nat (length load)) (Some EvFreeData) ((dmem ?d)\<lparr>blocks := bl\<rparr>) = (Some a, m1)"
      "ev_push True qu (Some a) False m1 = Inr (Some a, fds, qu', m')"
      "C_evq_pop (\<lambda>_. True) (\<lambda>_ _ m. Inr m) True None False qu' m' = Inr (EvRaw load, q2, m2)" "ev_rep (q2, m2) []"
    using push_pop_block [of qu "(dmem ?d)\<lparr>blocks := bl\<rparr>" b load mok "\<lambda>_. True" "\<lambda>_ _ m. Inr m"] qu new(2) load mok
    by (auto simp: ev_rep_def)
  obtain s' where s': "answer 200 ''OK'' None 0 None ?c = ?c\<lparr>h_sock := s'\<rparr>" "accepts 1 s'" "same_input s s'"
      "tx s' = tx s @ response_text (has_attr (h_req ?c) HTTP_1_0) 200 ''OK'' None 0 None"
    using answer_accepts [of ?c] s by (fastforce simp: ready_def)
  have bytes: "read_cells (length load) (map Some load @ [None]) = Inr load"
    by (rule read_cells_Some) simp_all
  let ?w' = "w\<lparr>odeps := ?d\<lparr>dep_queue := Some qu', dmem := m', notified := notified ?d @ fds\<rparr>\<rparr>"
  have "take 6 path \<noteq> ''/data/''"
    using p by (simp add: work_path_def)
  then have "http_process mok True len0 pos0 (ready s (body_req METHOD_POST path load) hdrs n) (True, w) = Inr (?c\<lparr>h_sock := s'\<rparr>, True, ?w')"
    using p qu(1) new(1) push(1,2) bytes s'(1) load(1)
    by (simp add: http_process_def work_path_def work_post_def work_push_def ready_def body_req_def std_req_def body_bytes_def Let_def)
  moreover have "pops load ?w'"
    using push(3,4) by (auto simp: pops_def)
  moreover have "r_attr (h_req ?c) = or HOST_HEADER CONTENT_LENGTH"
    by (simp add: ready_def body_req_def std_req_def)
  ultimately show ?thesis
    using s'(2-4) no_http10 [of "h_req ?c"] by (auto simp: alive_def ready_def)
qed

text \<open>C23: A job that a client posts to \<open>/work/\<close> over HTTP is what R pops next from the empty queue, byte
  for byte and whatever packets it came in, and the queue is empty again; the client is answered
  200 and the connection is closed.\<close>

theorem http_post_pop:
  assumes "empty_queue w" "work_path path" "host_ok h" "accepts 1 s" "\<And>n. mok n"
    "load = first @ concat ps" "load \<noteq> []" "[] \<notin> set ps" "length load \<le> 2147483640"
    "rx s = RxData (message (start_line METHOD_POST path) [host_line h, length_line (length load)] @ first) # map RxData ps"
    "is_open s" "length (message (start_line METHOD_POST path) [host_line h, length_line (length load)] @ first) < LINE_BUF_SIZE"
  shows "\<exists>s' w'. http_connected mok (Some (http_process mok True len0 pos0)) s (True, w) = Inr (0, s', True, w') \<and>
    \<not> is_open s' \<and> tx s' = tx s @ response_text False 200 ''OK'' None 0 None \<and> pops load w'"
proof -
  let ?s = "s\<lparr>rx := []\<rparr>" and ?hdrs = "hdrs2 METHOD_POST h (length load)"
  let ?c = "ready ?s (body_req METHOD_POST path load) ?hdrs (length load)"
  have acc: "accepts 1 ?s" and path: "path_ok path"
    using assms(2,4) by (simp_all add: accepts_def work_path_def)
  obtain c' w' where c': "http_process mok True len0 pos0 ?c (True, w) = Inr (c', True, w')"
      "alive c'" "same_input ?s (h_sock c')" "tx (h_sock c') = tx s @ response_text False 200 ''OK'' None 0 None" "pops load w'"
    using work_served [OF assms(1,2) acc _ assms(7,9), of mok len0 pos0 ?hdrs "length load"] assms(5) by auto
  have "http_connected mok (Some (http_process mok True len0 pos0)) s (True, w) =
    rbind (http_process mok True len0 pos0 ?c (True, w)) (\<lambda>(c, w). Inr (0, closesocket (h_sock c), w))"
  proof (rule body_connection [OF _ path assms(3) _ assms(6-12)])
    fix c'' w'' assume "http_process mok True len0 pos0 ?c (True, w) = Inr (c'', w'')"
    then show "h_line c'' = [] \<and> same_input ?s (h_sock c'')"
      using c'(1-3) by (simp add: alive_def)
  qed (use assms(5) in auto)
  then show ?thesis
    using c' by (simp add: closesocket_def)
qed

theorem http_post_pop_witness:
  "\<exists>s' w'. http_connected (\<lambda>_. True) (Some (http_process (\<lambda>_. True) True 0 0))
      (peer (RxData (message (start_line METHOD_POST ''/work/x'') [host_line ''h'', length_line (length ''job'')] @ ''j'') # map RxData [''o'', ''b'']))
      (True, fresh_store) = Inr (0, s', True, w') \<and> \<not> is_open s' \<and>
    tx s' = tx (peer (RxData (message (start_line METHOD_POST ''/work/x'') [host_line ''h'', length_line (length ''job'')] @ ''j'') # map RxData [''o'', ''b''])) @
      response_text False 200 ''OK'' None 0 None \<and> pops ''job'' w'"
proof (rule http_post_pop [where first = "''j''" and ps = "[''o'', ''b'']" and h = "''h''"])
  show "empty_queue fresh_store"
    by (simp add: empty_queue_def fresh_store_def obj_init_def dep_init_def store_start_def deps_start_def ev_queue_create_def ev_rep_def)
qed (auto simp: peer_def accepts_def work_path_def path_ok_def host_ok_def message_def start_line_def
    host_line_def length_line_def LINE_BUF_SIZE_def dec_string.simps)

subsection \<open>The last object of a dependency\<close>

text \<open>What a dependency with this name and message number is announced as.\<close>

definition resolved :: "string \<Rightarrow> 32 word \<Rightarrow> string" where
  "resolved name msg = bytes32 msg @ cstr name @ replicate 4 nul"

lemma add_announces:
  assumes w: "store_rep w kvs" and d: "dep_rep (odeps w) ds" "queue_rep (odeps w) []"
      "list_all (\<lambda>(name, msg, reqs). strlen name < 2 ^ 63) ds"
    and last: "filter ready_dep (map (mark_dep (Some k)) ds) = [(name, msg, reqs)]"
    and add: "obj_add mok k None data len w = Inr w'" and mok: "\<And>n. mok n"
  shows "pops (resolved name msg) w'"
proof -
  obtain d' where d': "deps_complete mok (Some k) (odeps w) = Inr d'" "odeps w' = d'"
  proof -
    obtain xs ys where "chains w xs ys" "bindings w xs kvs" "deps_good w"
      using w by (auto simp: store_rep_def obj_rep_def)
    from obj_add_chains [of _ _ _ _ mok, OF this mok, of k None data len] add that show ?thesis
      by auto
  qed
  have "queue_rep d' (map Some (resolved name msg) # [])"
    using complete_spec [of _ _ _ mok "Some k", OF d mok] d'(1) last by (auto simp: dep_event_def resolved_def)
  moreover have "resolved name msg \<noteq> []"
    by (simp add: resolved_def)
  ultimately obtain q q' m' where q: "dep_queue d' = Some q"
      "C_evq_pop (\<lambda>_. True) (\<lambda>_ _ m. Inr m) True None False q (dmem d') = Inr (EvRaw (resolved name msg), q', m')"
      "queue_rep (d'\<lparr>dep_queue := Some q', dmem := m'\<rparr>) []"
    using announced_pop [of d' "resolved name msg" "[]" "\<lambda>_. True" "\<lambda>_ _ m. Inr m"] by blast
  then show ?thesis
    using d'(2) by (auto simp: pops_def queue_rep_def)
qed

text \<open>C5: A dependency that R registered is resolved over HTTP: when a client puts the last object that
  it waits for, in whatever packets, and the queue was empty and nothing else becomes ready, the
  client is answered 200, look-ups of the key give the object, and what R pops next is the number
  and the name of the dependency.\<close>

theorem http_put_resolves:
  assumes "store_rep w kvs" "dep_rep (odeps w) ds" "queue_rep (odeps w) []" "list_all (\<lambda>(name, msg, reqs). strlen name < 2 ^ 63) ds"
    "filter ready_dep (map (mark_dep (Some k)) ds) = [(name, msg, reqs)]"
    "web_key k" "host_ok h" "accepts 1 s" "\<And>n. mok n"
    "load = first @ concat ps" "load \<noteq> []" "[] \<notin> set ps" "length load \<le> 2147483640"
    "rx s = RxData (put_msg k h (length load) @ first) # map RxData ps" "is_open s" "length (put_msg k h (length load) @ first) < LINE_BUF_SIZE"
  shows "\<exists>s' w'. http_connected mok (Some (http_process mok lock len0 pos0)) s (q, w) = Inr (0, s', q, w') \<and>
    \<not> is_open s' \<and> tx s' = tx s @ response_text False 200 ''OK'' None 0 None \<and>
    store_get w' k = Inr (Some (of_nat (length load), Some load, None)) \<and> pops (resolved name msg) w'"
proof -
  let ?s = "s\<lparr>rx := []\<rparr>" and ?hdrs = "hdrs2 METHOD_PUT h (length load)"
  let ?c = "ready ?s (body_req METHOD_PUT (data_path k) load) ?hdrs (length load)"
  have acc: "accepts 1 ?s"
    using assms(8) by (simp add: accepts_def)
  obtain c' w' where c': "http_process mok lock len0 pos0 ?c (q, w) = Inr (c', q, w')"
      "alive c'" "same_input ?s (h_sock c')" "tx (h_sock c') = tx s @ response_text False 200 ''OK'' None 0 None"
      "store_rep w' ((k, of_nat (length load), Some load, None) # kvs)"
      "obj_add mok k None (Some load) (of_nat (length load)) w = Inr w'"
    using put_served [OF assms(1,6) acc, of mok lock len0 pos0 load ?hdrs "length load" q] assms(9) by auto
  have "http_connected mok (Some (http_process mok lock len0 pos0)) s (q, w) =
    rbind (http_process mok lock len0 pos0 ?c (q, w)) (\<lambda>(c, w). Inr (0, closesocket (h_sock c), w))"
  proof (rule body_connection [OF _ _ assms(7) _ assms(10-13) assms(14) [unfolded put_msg_def] assms(15) assms(16) [unfolded put_msg_def]])
    fix c'' w'' assume "http_process mok lock len0 pos0 ?c (q, w) = Inr (c'', w'')"
    then show "h_line c'' = [] \<and> same_input ?s (h_sock c'')"
      using c'(1-3) by (simp add: alive_def)
  qed (use assms(9) data_path_simps [OF assms(6)] in auto)
  then show ?thesis
    using c' objs.get [OF c'(5), of k] data_path_simps [OF assms(6)]
      add_announces [of _ _ _ _ _ _ _ mok, OF assms(1-5) c'(6) assms(9)] by (simp add: closesocket_def)
qed

definition waiting_store :: store where
  "waiting_store = fresh_store\<lparr>odeps := demo_dep\<rparr>"

lemma waiting_store_rep: "store_rep waiting_store []"
proof -
  have "obj_rep waiting_store []"
    using fresh_rep by (auto simp: store_rep_def obj_rep_def chains_def bindings_def whats_def waiting_store_def)
  moreover have "list_all (\<lambda>(name, msg, reqs). strlen name < 2 ^ 63) [(''n'', 7 :: 32 word, [(''x'', False)])]"
    by (simp add: strlen_def cstr_def)
  then have "deps_good waiting_store"
    using demo_dep_rep unfolding deps_good_def waiting_store_def by fastforce
  ultimately show ?thesis
    by (simp add: store_rep_def)
qed

theorem http_put_resolves_witness:
  "\<exists>s' w'. http_connected (\<lambda>_. True) (Some (http_process (\<lambda>_. True) True 0 0))
      (peer (RxData (put_msg ''x'' ''h'' (length ''done'') @ ''d'') # map RxData [''on'', ''e''])) (False, waiting_store) = Inr (0, s', False, w') \<and>
    \<not> is_open s' \<and> tx s' = tx (peer (RxData (put_msg ''x'' ''h'' (length ''done'') @ ''d'') # map RxData [''on'', ''e''])) @
      response_text False 200 ''OK'' None 0 None \<and>
    store_get w' ''x'' = Inr (Some (of_nat (length ''done''), Some ''done'', None)) \<and> pops (resolved ''n'' 7) w'"
proof (rule http_put_resolves [OF waiting_store_rep, where first = "''d''" and ps = "[''on'', ''e'']" and h = "''h''" and
      ds = "[(''n'', 7, [(''x'', False)])]" and reqs = "[(''x'', True)]"])
  show "dep_rep (odeps waiting_store) [(''n'', 7, [(''x'', False)])]" "queue_rep (odeps waiting_store) []"
    by (simp_all add: waiting_store_def demo_dep_rep)
qed (auto simp: peer_def accepts_def web_key_def host_ok_def put_msg_def message_def start_line_def data_path_def
    host_line_def length_line_def LINE_BUF_SIZE_def dec_string.simps strlen_def cstr_def mark_dep_def mark_def ready_dep_def
    satisfied_def same_str_def)

end
