(* ===== verification/Tls.thy ===== *)
theory Tls
  imports Heap Sock
begin

text \<open>
  The glue to OpenSSL, src/tls.c as it is compiled with \<open>HAVE_TLS\<close> (without it every function is a
  stub that fails), and the part of \<open>http_connected\<close> that uses it. OpenSSL itself is a parameter: a
  context and a connection are abstract, and what the library does with them is a record of
  functions.
\<close>

subsection \<open>State\<close>

definition SRV_TLS :: "32 word" where "SRV_TLS = 0x0800"

text \<open>The functions of OpenSSL that the code calls: a result and the changed context (\<open>'c\<close>) or
  connection (\<open>'l\<close>). \<open>peer\<close> is the certificate of the peer, if any, and in it the common name,
  if any.\<close>

record ('c, 'l) openssl =
  ctx_new :: "'c option"
  use_pk :: "string \<Rightarrow> 'c \<Rightarrow> int \<times> 'c"
  use_cert :: "string \<Rightarrow> 'c \<Rightarrow> int \<times> 'c"
  load_ca :: "string option \<Rightarrow> string option \<Rightarrow> 'c \<Rightarrow> int \<times> 'c"
  set_verify :: "bool \<Rightarrow> 'c \<Rightarrow> 'c"
  ssl_new :: "'c \<Rightarrow> 'l option"
  set_fd :: "int \<Rightarrow> 'l \<Rightarrow> 'l"
  ssl_accept :: "'l \<Rightarrow> int \<times> 'l"
  ssl_connect :: "'l \<Rightarrow> int \<times> 'l"
  ssl_read :: "nat \<Rightarrow> 'l \<Rightarrow> int \<times> string \<times> 'l"
  ssl_write :: "string \<Rightarrow> 'l \<Rightarrow> int \<times> 'l"
  ssl_shutdown :: "'l \<Rightarrow> 'l"
  peer :: "'l \<Rightarrow> string option option"
  peer_verified :: "'l \<Rightarrow> bool"

text \<open>\<open>struct tls\<close>, the static variables, and a connection: \<open>c_tls\<close> is whether its functions to send
  and receive are those of this file.\<close>

record 'c tls =
  tls_ctx :: "'c option"

record 'c tls_state =
  first_tls :: bool
  the_tls :: ptr
  tlss :: "'c tls heap"

record tls_conn =
  c_s :: int
  c_tls :: bool
  c_res :: ptr

subsection \<open>Contexts\<close>

definition shared_tls :: "ptr \<Rightarrow> 'c tls_state \<Rightarrow> ptr \<times> 'c tls_state" where
  "shared_tls new_tls st =
     (let st = (if the_tls st = NULL then st\<lparr>the_tls := new_tls\<rparr> else st) in (the_tls st, st))"

text \<open>The result of \<open>calloc\<close> is not checked. The first structure becomes the shared one.\<close>

definition new_tls :: "('c, 'l) openssl \<Rightarrow> bool \<Rightarrow> 'c tls_state \<Rightarrow> fault + ptr \<times> 'c tls_state" where
  "new_tls lib calloc_ok st =
     (if \<not> calloc_ok then Inl (Undefined NullDeref)
      else
        (let (a, h) = new_rec \<lparr>tls_ctx = ctx_new lib\<rparr> (tlss st); st = st\<lparr>tlss := h\<rparr>;
             st = (if first_tls st then st\<lparr>first_tls := False, the_tls := Some a\<rparr> else st) in
         Inr (Some a, st)))"

text \<open>A call on the context of a structure; a null context is passed on to OpenSSL, which follows it.\<close>

definition on_ctx :: "ptr \<Rightarrow> ('c \<Rightarrow> int \<times> 'c) \<Rightarrow> 'c tls_state \<Rightarrow> fault + int \<times> 'c tls_state" where
  "on_ctx t f st =
     rbind (deref (tlss st) t) (\<lambda>v.
     case tls_ctx v of
       None \<Rightarrow> Inl (Undefined NullDeref)
     | Some c \<Rightarrow>
         (let (r, c) = f c in
          rbind (assign (tlss st) t (\<lambda>v. v\<lparr>tls_ctx := Some c\<rparr>)) (\<lambda>h. Inr (r, st\<lparr>tlss := h\<rparr>))))"

definition set_tls_pk :: "('c, 'l) openssl \<Rightarrow> ptr \<Rightarrow> string \<Rightarrow> 'c tls_state \<Rightarrow> fault + int \<times> 'c tls_state" where
  "set_tls_pk lib t fn = on_ctx t (use_pk lib fn)"

definition set_tls_cert :: "('c, 'l) openssl \<Rightarrow> ptr \<Rightarrow> string \<Rightarrow> 'c tls_state \<Rightarrow> fault + int \<times> 'c tls_state" where
  "set_tls_cert lib t fn = on_ctx t (use_cert lib fn)"

definition set_tls_ca :: "('c, 'l) openssl \<Rightarrow> ptr \<Rightarrow> string option \<Rightarrow> string option \<Rightarrow> 'c tls_state \<Rightarrow> fault + int \<times> 'c tls_state" where
  "set_tls_ca lib t fn_ca path_ca = on_ctx t (load_ca lib fn_ca path_ca)"

definition set_tls_verify :: "('c, 'l) openssl \<Rightarrow> ptr \<Rightarrow> bool \<Rightarrow> 'c tls_state \<Rightarrow> fault + int \<times> 'c tls_state" where
  "set_tls_verify lib t verify = on_ctx t (\<lambda>c. (1, set_verify lib verify c))"

definition free_tls :: "ptr \<Rightarrow> 'c tls_state \<Rightarrow> 'c tls_state" where
  "free_tls t st = st"

subsection \<open>Connections\<close>

text \<open>The connections of OpenSSL live in a heap of their own, \<open>l\<close>.\<close>

definition on_ssl :: "tls_conn \<Rightarrow> ('l \<Rightarrow> 'r \<times> 'l) \<Rightarrow> 'l heap \<Rightarrow> fault + 'r \<times> 'l heap" where
  "on_ssl c f l =
     rbind (deref l (c_res c)) (\<lambda>x. let (r, y) = f x in rbind (assign l (c_res c) (\<lambda>_. y)) (\<lambda>l. Inr (r, l)))"

definition tls_recv :: "('c, 'l) openssl \<Rightarrow> nat \<Rightarrow> tls_conn \<Rightarrow> 'l heap \<Rightarrow> fault + (int \<times> string) \<times> 'l heap" where
  "tls_recv lib len c = on_ssl c (\<lambda>x. let (n, bs, x) = ssl_read lib len x in ((n, bs), x))"

definition tls_send :: "('c, 'l) openssl \<Rightarrow> string \<Rightarrow> tls_conn \<Rightarrow> 'l heap \<Rightarrow> fault + int \<times> 'l heap" where
  "tls_send lib buf c = on_ssl c (ssl_write lib buf)"

text \<open>The handshake may fail without any other effect than the result.\<close>

definition add_tls :: "('c, 'l) openssl \<Rightarrow> ptr \<Rightarrow> bool \<Rightarrow> 'c tls_state \<Rightarrow> tls_conn \<Rightarrow> 'l heap \<Rightarrow> fault + int \<times> tls_conn \<times> 'l heap" where
  "add_tls lib t server st c l =
     rbind (deref (tlss st) t) (\<lambda>v.
     case Option.bind (tls_ctx v) (ssl_new lib) of
       None \<Rightarrow> Inl (Undefined NullDeref)
     | Some x \<Rightarrow>
         (let (a, l) = new_rec (set_fd lib (c_s c) x) l; c = c\<lparr>c_res := Some a, c_tls := True\<rparr> in
          rbind (on_ssl c (if server then ssl_accept lib else ssl_connect lib) l) (\<lambda>(r, l). Inr (r, c, l))))"

definition copy_tls :: "tls_conn \<Rightarrow> tls_conn \<Rightarrow> tls_conn" where
  "copy_tls src dst = dst\<lparr>c_res := c_res src, c_s := c_s src, c_tls := c_tls src\<rparr>"

definition close_tls :: "('c, 'l) openssl \<Rightarrow> tls_conn \<Rightarrow> 'l heap \<Rightarrow> fault + tls_conn \<times> 'l heap" where
  "close_tls lib c l =
     (if c_res c = NULL then Inr (c, l)
      else
        rbind (on_ssl c (\<lambda>x. ((), ssl_shutdown lib x)) l) (\<lambda>(_, l).
        rbind (free_rec (c_res c) l) (\<lambda>l. Inr (c\<lparr>c_res := NULL\<rparr>, l))))"

text \<open>\<open>verify_peer_tls\<close>: the result and the buffer for the name. \<open>X509_NAME_get_text_by_NID\<close> leaves the
  buffer alone when the certificate has no common name.\<close>

definition verify_peer_tls :: "('c, 'l) openssl \<Rightarrow> tls_conn \<Rightarrow> cell list \<Rightarrow> 'l heap \<Rightarrow> fault + int \<times> cell list" where
  "verify_peer_tls lib c cn l =
     (if c_res c = NULL then Inr (- 1, cn)
      else
        rbind (deref l (c_res c)) (\<lambda>x.
        case peer lib x of
          None \<Rightarrow> Inr (- 1, cn)
        | Some name \<Rightarrow>
            (let cn = (case name of Some s \<Rightarrow> if cn \<noteq> [] then overwrite 0 (map Some (take (length cn - 1) (cstr s) @ [nul])) cn else cn
                       | None \<Rightarrow> cn) in
             Inr (if peer_verified lib x then 1 else 0, cn))))"

subsection \<open>Its use in http.c\<close>

definition check_tls_client :: "int \<Rightarrow> cell list \<Rightarrow> int" where
  "check_tls_client verify cn = 0"

text \<open>The section of \<open>http_connected\<close> between the allocations and the loop. \<open>True\<close> means that the
  connection is refused with the result -2; then its socket is closed twice, here and by
  \<open>free_http_connection\<close>, and \<open>fds\<close> are the open descriptors.\<close>

definition close_socket :: "int \<Rightarrow> int set \<Rightarrow> fault + int set" where
  "close_socket s fds = (if s \<in> fds then Inr (fds - {s}) else Inl (Undefined UseAfterFree))"

definition tls_section :: "('c, 'l) openssl \<Rightarrow> (int \<Rightarrow> cell list \<Rightarrow> int) \<Rightarrow> 32 word \<Rightarrow> 'c tls_state \<Rightarrow> tls_conn \<Rightarrow> 'l heap \<Rightarrow> int set \<Rightarrow>
    fault + bool \<times> tls_conn \<times> 'l heap \<times> int set" where
  "tls_section lib check flags st c l fds =
     (let t = fst (shared_tls NULL st) in
      if and flags SRV_TLS \<noteq> 0 \<and> t \<noteq> NULL then
        rbind (add_tls lib t True st c l) (\<lambda>(_, c, l).
        rbind (verify_peer_tls lib c (uninit 256) l) (\<lambda>(v, cn).
        if check v cn \<noteq> 0 then
          rbind (close_tls lib c l) (\<lambda>(c, l).
          rbind (close_socket (c_s c) fds) (\<lambda>fds.
          rbind (close_socket (c_s c) fds) (\<lambda>fds. Inr (True, c, l, fds))))
        else Inr (False, c, l, fds)))
      else Inr (False, c, l, fds))"

subsection \<open>What holds\<close>

text \<open>The first structure that is offered is shared from then on.\<close>

lemma shared_first: "the_tls st = NULL \<Longrightarrow> shared_tls t st = (t, st\<lparr>the_tls := t\<rparr>)"
  "the_tls st \<noteq> NULL \<Longrightarrow> shared_tls t st = (the_tls st, st)"
  by (auto simp: shared_tls_def)

text \<open>Unless a structure was shared before the first is created: then that one is replaced.\<close>

lemma new_tls_replaces:
  "first_tls st \<Longrightarrow> \<exists>a st'. new_tls lib True st = Inr (Some a, st') \<and> the_tls st' = Some a"
  by (simp add: new_tls_def new_rec_def Let_def)

lemma close_tls_frees:
  assumes "c_res c = Some a" "mem l a = Some x"
  shows "\<exists>l'. close_tls lib c l = Inr (c\<lparr>c_res := NULL\<rparr>, l') \<and> mem l' a = None \<and> (\<forall>b. b \<noteq> a \<longrightarrow> mem l' b = mem l b)"
  using assms by (simp add: close_tls_def on_ssl_def)

lemma close_tls_twice: "close_tls lib c l = Inr (c', l') \<Longrightarrow> close_tls lib c' l' = Inr (c', l')"
  by (auto simp: close_tls_def rbind_iffs split: if_splits)

text \<open>A copied connection shares the library's: closing both frees it twice.\<close>

lemma copy_tls_double_free:
  assumes "c_res c = Some a" "mem l a = Some x" "close_tls lib c l = Inr (c', l')"
  shows "close_tls lib (copy_tls c d) l' = Inl (Undefined UseAfterFree)"
  using assms by (auto simp: close_tls_def on_ssl_def copy_tls_def deref_def)

lemma verify_result:
  assumes "verify_peer_tls lib c cn l = Inr (v, cn')"
  shows "v \<in> {- 1, 0, 1} \<and> length cn' = length cn"
proof -
  have "length (overwrite 0 (map Some (take (length cn - 1) s @ [nul])) cn) = length cn" if "cn \<noteq> []" for s
    using that by (intro length_overwrite) (cases cn; simp)
  then show ?thesis
    using assms unfolding verify_peer_tls_def rbind_iffs
    by (auto simp: rbind_iffs Let_def split: if_splits option.splits)
qed

text \<open>Without the flag nothing happens: this is how both servers call \<open>http_connected\<close>. With the
  client check as it is nobody is refused; a check that refused would close the socket twice.\<close>

lemma no_tls: "tls_section lib check 0 st c l fds = Inr (False, c, l, fds)"
  by (simp add: tls_section_def)

lemma nobody_refused: "tls_section lib check_tls_client flags st c l fds = Inr (r, c', l', fds') \<Longrightarrow> \<not> r \<and> fds' = fds"
  by (auto simp: tls_section_def check_tls_client_def rbind_iffs Let_def split: if_splits)

lemma refusal_double_close: "tls_section lib check flags st c l fds \<noteq> Inr (True, c', l', fds')"
  by (auto simp: tls_section_def close_socket_def rbind_iffs Let_def split: if_splits)

end
