(* ===== verification/MemVerb.thy ===== *)
theory MemVerb
  imports MemSfs HttpOut
begin

text \<open>
  The verbose mode of src/mem\_store.c: with \<open>verb\<close> set, \<open>add_buf\<close> prints a line for each frame it
  stores. What is printed is modelled as the text that \<open>Rprintf\<close> is given; the result is the one
  of the silent mode.
\<close>

subsection \<open>The names of the types\<close>

text \<open>One name for each value of the type byte; where R has no type it is the number.\<close>

definition type_name :: "string list" where
  "type_name =
     [''NIL'', ''SYM'', ''LIST'', ''CLO'', ''ENV'', ''PROM'', ''LANG'', ''SPEC'', ''BLTIN'', ''CHAR'', ''LGL'',
      ''11'', ''12'', ''INT'', ''REAL'', ''CPLX'', ''STR'', ''DOT'', ''SNY'', ''VEC'', ''EXPR'', ''BCODE'',
      ''EXTPTR'', ''WEAKREF'', ''RAW'', ''S4''] @ map dec_string [26..<30] @ [''NEW'', ''FREE''] @
     map dec_string [32..<99] @ [''FUN''] @ map dec_string [100..<255] @ [''ATTR'']"

lemma type_name_length: "length type_name = 256"
  by (simp add: type_name_def)

subsection \<open>Printing\<close>

text \<open>The conversions \<open>%06lx\<close>, \<open>%6s\<close>, \<open>%02lu\<close> and \<open>%02x\<close>: a text that is filled up on its left.\<close>

definition fill :: "nat \<Rightarrow> char \<Rightarrow> string \<Rightarrow> string" where
  "fill n c s = replicate (n - length s) c @ s"

definition hex_text :: "nat \<Rightarrow> string" where
  "hex_text n = (if n = 0 then ''0'' else hex_string n)"

definition line_head :: "64 word \<Rightarrow> nat \<Rightarrow> nat \<Rightarrow> 64 word \<Rightarrow> fault + string" where
  "line_head start ts el len =
     (if length type_name \<le> ts then Inl (Undefined OutOfBounds)
      else Inr (fill 6 (CHR ''0'') (hex_text (unat start)) @ '': ['' @ fill 6 (CHR '' '') (type_name ! ts) @ '':'' @
        fill 6 (CHR ''0'') (hex_text (unat len)) @ ''/'' @ fill 2 (CHR ''0'') (dec_string el) @ ''] ''))"

text \<open>The loop over the payload: it stops after the byte with index 16.\<close>

function hex_bytes :: "nat \<Rightarrow> nat \<Rightarrow> string \<Rightarrow> fault + string" where
  "hex_bytes i len buf =
     (if i < len then
        (if 16 < i then Inr '' ...''
         else if length buf \<le> i then Inl (Undefined OutOfBounds)
         else rbind (hex_bytes (Suc i) len buf) (\<lambda>s. Inr (CHR '' '' # fill 2 (CHR ''0'') (hex_text (of_char (buf ! i))) @ s)))
      else Inr '''')"
  by pat_completeness auto
termination
  by (relation "measure (\<lambda>(i, len, buf). len - i)") auto

declare hex_bytes.simps [simp del]

text \<open>\<open>%s\<close> reads up to a NUL; an empty name is stored without the NUL that it has in memory.\<close>

definition line_tail :: "nat \<Rightarrow> nat \<Rightarrow> string option \<Rightarrow> fault + string" where
  "line_tail ts n buf =
     rbind (case buf of None \<Rightarrow> Inr '''' | Some b \<Rightarrow> hex_bytes 0 n b) (\<lambda>s.
     rbind (if ts = CHARSXP \<or> ts = SYMSXP then
              (case buf of None \<Rightarrow> Inl (Undefined NullDeref)
               | Some b \<Rightarrow> if b = [] \<or> nul \<in> set b then Inr ('' ('' @ cstr b @ '')'') else Inl (Undefined OutOfBounds))
            else Inr '''') (\<lambda>t. Inr (s @ t @ [lf])))"

definition verb_line :: "64 word \<Rightarrow> frame \<Rightarrow> fault + string" where
  "verb_line start fr =
     (case fr of (ts, el, len, buf) \<Rightarrow>
        rbind (line_head start ts el len) (\<lambda>s.
        rbind (line_tail ts (unat (len * of_nat el)) buf) (\<lambda>t. Inr (s @ t))))"

text \<open>\<open>add_buf\<close> with its field \<open>verb\<close>; the text printed so far is part of the state.\<close>

definition add_buf_verb :: "bool \<Rightarrow> (mem_store \<times> string) store_fn" where
  "add_buf_verb verb st ts el len buf =
     rbind (if verb then verb_line (cptr (fst st)) (ts, el, len, buf) else Inr '''') (\<lambda>s.
     rbind (add_buf (fst st) ts el len buf) (\<lambda>m. Inr (m, snd st @ s)))"

definition C_mem_store_verb :: "bool \<Rightarrow> sexp \<Rightarrow> fault + cell list \<times> string" where
  "C_mem_store_verb verb x = rbind (sfs_store (add_buf_verb verb) (init_mem_store, '''') x)
     (\<lambda>(st, out). Inr (collapse_buf (before st @ [tail st]), out))"

subsection \<open>Printing changes nothing\<close>

lemma hex_bytes_ok: "len \<le> length buf \<Longrightarrow> \<exists>s. hex_bytes i len buf = Inr s"
proof (induction i len buf rule: hex_bytes.induct)
  case (1 i len buf)
  show ?case
  proof (cases "i < len \<and> \<not> 16 < i")
    case True
    then obtain s where "hex_bytes (Suc i) len buf = Inr s"
      using 1 by auto
    then show ?thesis
      using True 1(2) by (simp add: hex_bytes.simps [of i len buf])
  qed (simp add: hex_bytes.simps [of i len buf])
qed

text \<open>The texts that \<open>%s\<close> prints end.\<close>

definition text_ok :: "frame \<Rightarrow> bool" where
  "text_ok fr = (case fr of (ts, el, len, buf) \<Rightarrow> ts = CHARSXP \<or> ts = SYMSXP \<longrightarrow> (\<exists>b. buf = Some b \<and> (b = [] \<or> nul \<in> set b)))"

lemma verb_line_ok:
  assumes "frame_ok fr" "text_ok fr"
  shows "\<exists>s. verb_line start fr = Inr s"
proof -
  obtain ts el len buf where fr: "fr = (ts, el, len, buf)"
    by (cases fr)
  have "\<exists>s. line_head start ts el len = Inr s"
    using assms(1) by (simp add: fr line_head_def type_name_length)
  moreover have "\<exists>t. line_tail ts (unat (len * of_nat el)) buf = Inr t"
  proof (cases buf)
    case None
    then show ?thesis
      using assms(2) by (auto simp: fr line_tail_def text_ok_def)
  next
    case (Some b)
    obtain s where "hex_bytes 0 (unat (len * of_nat el)) b = Inr s"
      using hex_bytes_ok [of "unat (len * of_nat el)" b 0] frame_len [of ts el len b] assms(1) by (auto simp: fr Some)
    then show ?thesis
      using assms(2) by (auto simp: fr Some line_tail_def text_ok_def)
  qed
  ultimately show ?thesis
    by (auto simp: verb_line_def fr)
qed

lemma verb_frame:
  assumes "frame_ok fr" "text_ok fr"
  shows "\<exists>s. emit_frame (add_buf_verb verb) (m, out) fr = rbind (emit_frame add_buf m fr) (\<lambda>m. Inr (m, out @ s)) \<and> (\<not> verb \<longrightarrow> s = [])"
proof -
  obtain ts el len buf where fr: "fr = (ts, el, len, buf)"
    by (cases fr)
  obtain s where "verb_line (cptr m) fr = Inr s"
    using verb_line_ok [OF assms] by blast
  then show ?thesis
    by (cases verb) (auto simp: fr add_buf_verb_def)
qed

lemma verb_frames:
  "list_all frame_ok frs \<Longrightarrow> list_all text_ok frs \<Longrightarrow>
    \<exists>s. foldr_m (emit_frame (add_buf_verb verb)) (m, out) frs =
      rbind (foldr_m (emit_frame add_buf) m frs) (\<lambda>m. Inr (m, out @ s)) \<and> (\<not> verb \<longrightarrow> s = [])"
proof (induction frs arbitrary: m out)
  case (Cons fr frs)
  obtain s where s: "emit_frame (add_buf_verb verb) (m, out) fr = rbind (emit_frame add_buf m fr) (\<lambda>m. Inr (m, out @ s))"
      "\<not> verb \<longrightarrow> s = []"
    using verb_frame [of fr verb m out] Cons.prems by auto
  show ?case
  proof (cases "emit_frame add_buf m fr")
    case (Inr m1)
    obtain t where "foldr_m (emit_frame (add_buf_verb verb)) (m1, out @ s) frs =
        rbind (foldr_m (emit_frame add_buf) m1 frs) (\<lambda>m. Inr (m, (out @ s) @ t))" "\<not> verb \<longrightarrow> t = []"
      using Cons.IH [of m1 "out @ s"] Cons.prems by auto
    then show ?thesis
      using s Inr by (intro exI [of _ "s @ t"]) simp
  qed (use s in auto)
qed auto

text \<open>The verbose mode gives the result of the silent mode and prints without reading outside the
  table of names or the payload; the silent mode prints nothing. The exception is a CHARSXP that is
  stored by itself: it has no payload, and its text is printed through a null pointer.\<close>

theorem mem_store_verbose:
  assumes "wf_sexp x" "list_all text_ok (frames x)"
  shows "\<exists>out. C_mem_store_verb verb x = rbind (C_mem_store x) (\<lambda>r. Inr (r, out)) \<and> (\<not> verb \<longrightarrow> out = [])"
proof -
  obtain out where "foldr_m (emit_frame (add_buf_verb verb)) (init_mem_store, []) (frames x) =
      rbind (foldr_m (emit_frame add_buf) init_mem_store (frames x)) (\<lambda>m. Inr (m, [] @ out))" "\<not> verb \<longrightarrow> out = []"
    using verb_frames [OF frames_ok [OF assms(1)] assms(2), of verb init_mem_store "[]"] by blast
  then show ?thesis
    by (auto simp: C_mem_store_verb_def C_mem_store_def store_frames [OF assms(1)] rbind_assoc)
qed

theorem mem_store_verbose_charsxp:
  "C_mem_store_verb True (Sxp R_NilValue False (CharS c)) = Inl (Undefined NullDeref)"
  by (simp add: C_mem_store_verb_def store_frames add_buf_verb_def verb_line_def line_head_def line_tail_def type_name_length)

end
