(* ===== verification/ObjThreads.thy ===== *)
theory ObjThreads
  imports ObjSpec "HOL-Library.Multiset"
begin

text \<open>
  The object store of src/obj.c used by several threads at a time: the threads of the servers and
  R's own. A call is made of the steps between which other threads can run: the preparation of
  an entry outside the lock, taking \<open>obj_mutex\<close>, single rounds of the loops, and the unlocking.
  Every interleaving gives the answers of the machine of stacks, with each call taking effect at one
  moment between its beginning and its end.
\<close>

subsection \<open>The steps of the calls\<close>

text \<open>\<open>obj_add\<close> before its lock: the entry is allocated, filled and its R object preserved.\<close>

definition new_entry :: "(nat \<Rightarrow> bool) \<Rightarrow> string \<Rightarrow> obj_val \<Rightarrow> store \<Rightarrow> fault + nat \<times> store" where
  "new_entry mok key v w =
     (case v of (len, data, sWhat) \<Rightarrow>
      if \<not> mok (40 + strlen key) then Inl (Undefined NullDeref)
      else
        (let (a, h) = new_rec \<lparr>o_len = len, o_obj = data, o_sWhat = sWhat, o_next = NULL, o_key = cstr key\<rparr> (oheap w);
             w = (case sWhat of None \<Rightarrow> w | Some x \<Rightarrow> R_PreserveObject x w) in
         Inr (a, w\<lparr>oheap := h\<rparr>)))"

text \<open>Under the lock it becomes the first of the chain.\<close>

definition link_entry :: "nat \<Rightarrow> store \<Rightarrow> fault + store" where
  "link_entry a w =
     rbind (assign (oheap w) (Some a) (\<lambda>v. v\<lparr>o_next := obj_root w\<rparr>)) (\<lambda>h. Inr (w\<lparr>oheap := h, obj_root := Some a\<rparr>))"

text \<open>One round of the loop of \<open>obj_get_\<close>: the result, or the pointers of the next round.\<close>

definition find_round :: "string \<Rightarrow> bool \<Rightarrow> ptr \<Rightarrow> ptr \<Rightarrow> store \<Rightarrow> fault + (ptr + ptr \<times> ptr) \<times> store" where
  "find_round key rm prev e w =
     (if e = NULL then Inr (Inl NULL, w)
      else
        rbind (deref (oheap w) e) (\<lambda>v.
        if same_str key (o_key v) then
          (if rm then
             rbind (if prev \<noteq> NULL
                    then rbind (assign (oheap w) prev (\<lambda>p. p\<lparr>o_next := o_next v\<rparr>)) (\<lambda>h. Inr (w\<lparr>oheap := h\<rparr>))
                    else Inr (w\<lparr>obj_root := o_next v\<rparr>)) (\<lambda>w.
             rbind (assign (oheap w) e (\<lambda>v. v\<lparr>o_next := obj_gc_pool w\<rparr>)) (\<lambda>h.
             Inr (Inl e, w\<lparr>oheap := h, obj_gc_pool := e\<rparr>)))
           else Inr (Inl e, w))
        else Inr (Inr (e, o_next v), w)))"

text \<open>Done by one thread alone the steps are the calls.\<close>

lemma obj_add_steps: "obj_add mok key sWhat data len w =
    rbind (new_entry mok key (len, data, sWhat) w) (\<lambda>(a, w).
    rbind (link_entry a w) (\<lambda>w.
    rbind (deps_complete mok (Some key) (odeps w)) (\<lambda>d. Inr (w\<lparr>odeps := d\<rparr>))))"
  by (cases sWhat; cases "oheap w") (simp_all add: obj_add_def new_entry_def link_entry_def new_rec_def R_PreserveObject_def
      assign_def put_rec_def Let_def)

lemma find_loop_rounds: "find_loop (Suc n) key rm prev e w =
    rbind (find_round key rm prev e w) (\<lambda>(r, w). case r of Inl p \<Rightarrow> Inr (p, w) | Inr (prev, e) \<Rightarrow> find_loop n key rm prev e w)"
  by (cases "deref (oheap w) e") (simp_all add: find_loop.simps find_round_def rbind_assoc)

subsection \<open>Threads\<close>

text \<open>Program points, with the arguments and local variables that are still needed: before the lock,
  before the new entry is linked, before \<open>deps_complete\<close>, before a round of a loop, and before the
  unlocking. \<open>O_Idle\<close> is a thread outside the store.\<close>

datatype ocall = Linking string obj_val nat | Finding string bool | Collecting

datatype opc =
    O_Idle | O_Lock ocall | O_Link string obj_val nat | O_Deps string
  | O_Find string bool ptr ptr | O_Collect | O_Unlock ptr

record obj_sys =
  o_store :: store
  o_mutex :: "nat option"
  o_pcs :: "opc list"

text \<open>A return shows the pointer that the caller gets and the entry it points to at that moment.\<close>

datatype oevent = OTau | OCall nat store_op | OEffect nat store_op "obj_val option" | OReturn nat ptr "obj_val option"

definition lookup_op :: "string \<Rightarrow> bool \<Rightarrow> store_op" where
  "lookup_op key rm = (if rm then Remove key else Get key)"

text \<open>What is read through a pointer while the lock is held.\<close>

definition read_entry :: "store \<Rightarrow> ptr \<Rightarrow> obj_val option" where
  "read_entry w p = (case p of None \<Rightarrow> None | Some a \<Rightarrow> map_option (\<lambda>v. snd (binding v)) (mem (oheap w) a))"

primrec first_point :: "store \<Rightarrow> ocall \<Rightarrow> opc" where
  "first_point w (Linking key v a) = O_Link key v a"
| "first_point w (Finding key rm) = O_Find key rm NULL (obj_root w)"
| "first_point w Collecting = O_Collect"

definition pc_is :: "nat \<Rightarrow> opc \<Rightarrow> obj_sys \<Rightarrow> bool" where
  "pc_is i pc s \<longleftrightarrow> i < length (o_pcs s) \<and> o_pcs s ! i = pc"

definition move :: "nat \<Rightarrow> opc \<Rightarrow> store \<Rightarrow> obj_sys \<Rightarrow> obj_sys" where
  "move i pc w s = s\<lparr>o_store := w, o_pcs := (o_pcs s)[i := pc]\<rparr>"

inductive tstep :: "(nat \<Rightarrow> bool) \<Rightarrow> nat \<Rightarrow> obj_sys \<Rightarrow> oevent \<Rightarrow> fault + obj_sys \<Rightarrow> bool" for mok i where
  call_add: "pc_is i O_Idle s \<Longrightarrow>
    tstep mok i s (OCall i (Add key v)) (rbind (new_entry mok key v (o_store s)) (\<lambda>(a, w). Inr (move i (O_Lock (Linking key v a)) w s)))"
| call_get: "pc_is i O_Idle s \<Longrightarrow>
    tstep mok i s (OCall i (lookup_op key rm)) (Inr (move i (O_Lock (Finding key rm)) (o_store s) s))"
| call_gc: "pc_is i O_Idle s \<Longrightarrow> tstep mok i s (OCall i Collect) (Inr (move i (O_Lock Collecting) (o_store s) s))"
| lock: "pc_is i (O_Lock c) s \<Longrightarrow> o_mutex s = None \<Longrightarrow>
    tstep mok i s OTau (Inr (move i (first_point (o_store s) c) (o_store s) (s\<lparr>o_mutex := Some i\<rparr>)))"
| link: "pc_is i (O_Link key v a) s \<Longrightarrow>
    tstep mok i s (OEffect i (Add key v) None) (rbind (link_entry a (o_store s)) (\<lambda>w. Inr (move i (O_Deps key) w s)))"
| deps: "pc_is i (O_Deps key) s \<Longrightarrow>
    tstep mok i s OTau (rbind (deps_complete mok (Some key) (odeps (o_store s)))
      (\<lambda>d. Inr (move i (O_Unlock NULL) ((o_store s)\<lparr>odeps := d\<rparr>) s)))"
| next_round: "pc_is i (O_Find key rm prev e) s \<Longrightarrow> find_round key rm prev e (o_store s) = Inr (Inr (prev', e'), w) \<Longrightarrow>
    tstep mok i s OTau (Inr (move i (O_Find key rm prev' e') w s))"
| last_round: "pc_is i (O_Find key rm prev e) s \<Longrightarrow> find_round key rm prev e (o_store s) = Inr (Inl p, w) \<Longrightarrow>
    tstep mok i s (OEffect i (lookup_op key rm) (read_entry w p)) (Inr (move i (O_Unlock p) w s))"
| wild_round: "pc_is i (O_Find key rm prev e) s \<Longrightarrow> find_round key rm prev e (o_store s) = Inl f \<Longrightarrow> tstep mok i s OTau (Inl f)"
| collect: "pc_is i O_Collect s \<Longrightarrow> obj_gc_pool (o_store s) \<noteq> NULL \<Longrightarrow>
    tstep mok i s OTau (rbind (gc_round (o_store s)) (\<lambda>w. Inr (move i O_Collect w s)))"
| collected: "pc_is i O_Collect s \<Longrightarrow> obj_gc_pool (o_store s) = NULL \<Longrightarrow>
    tstep mok i s (OEffect i Collect None) (Inr (move i (O_Unlock NULL) (o_store s) s))"
| unlock: "pc_is i (O_Unlock p) s \<Longrightarrow>
    tstep mok i s (OReturn i p (read_entry (o_store s) p)) (Inr (move i O_Idle (o_store s) (s\<lparr>o_mutex := None\<rparr>)))"

text \<open>A step of the system is one of a thread, or of the code that works on the dependencies and
  their queue under locks of its own.\<close>

inductive ostep :: "(nat \<Rightarrow> bool) \<Rightarrow> obj_sys \<Rightarrow> oevent \<Rightarrow> fault + obj_sys \<Rightarrow> bool" for mok where
  of_thread: "tstep mok i s e r \<Longrightarrow> ostep mok s e r"
| of_deps: "deps_good ((o_store s)\<lparr>odeps := d\<rparr>) \<Longrightarrow> ostep mok s OTau (Inr (s\<lparr>o_store := (o_store s)\<lparr>odeps := d\<rparr>\<rparr>))"

inductive orun :: "(nat \<Rightarrow> bool) \<Rightarrow> obj_sys \<Rightarrow> oevent list \<Rightarrow> obj_sys \<Rightarrow> bool" for mok s where
  orun_refl: "orun mok s [] s"
| orun_step: "orun mok s es u \<Longrightarrow> ostep mok u e (Inr v) \<Longrightarrow> orun mok s (es @ [e]) v"

definition ostart :: "nat \<Rightarrow> obj_sys" where
  "ostart n = \<lparr>o_store = fresh_store, o_mutex = None, o_pcs = replicate n O_Idle\<rparr>"

text \<open>The operations that took effect, and their answers.\<close>

fun effect_of :: "oevent \<Rightarrow> (store_op \<times> obj_val option) list" where
  "effect_of (OEffect i x r) = [(x, r)]"
| "effect_of e = []"

definition effects :: "oevent list \<Rightarrow> (store_op \<times> obj_val option) list" where
  "effects es = concat (map effect_of es)"

lemma effects_simps [simp]: "effects [] = []" "effects (es @ [e]) = effects es @ effect_of e"
  by (simp_all add: effects_def)

subsection \<open>The invariant\<close>

fun o_crit :: "opc \<Rightarrow> bool" where
  "o_crit O_Idle = False"
| "o_crit (O_Lock c) = False"
| "o_crit pc = True"

fun pending_of :: "opc \<Rightarrow> nat list" where
  "pending_of (O_Lock (Linking key v a)) = [a]"
| "pending_of (O_Link key v a) = [a]"
| "pending_of pc = []"

definition pendings :: "opc list \<Rightarrow> nat multiset" where
  "pendings pcs = (\<Sum>pc\<leftarrow>pcs. mset (pending_of pc))"

text \<open>What a thread knows: the content of its own entry, and how far it has walked.\<close>

fun o_local :: "store \<Rightarrow> nat list \<Rightarrow> (string \<times> obj_val) list \<Rightarrow> opc \<Rightarrow> bool" where
  "o_local w xs kvs (O_Lock (Linking key v a)) = (map_option binding (mem (oheap w) a) = Some (cstr key, v))"
| "o_local w xs kvs (O_Link key v a) = (map_option binding (mem (oheap w) a) = Some (cstr key, v))"
| "o_local w xs kvs (O_Find key rm prev e) = (\<exists>as bs. xs = as @ bs \<and> prev = last_ptr NULL as \<and> e = first_ptr bs NULL \<and>
     cstr key \<notin> fst ` set (take (length as) kvs))"
| "o_local w xs kvs pc = True"

definition o_locked :: "obj_sys \<Rightarrow> bool" where
  "o_locked s \<longleftrightarrow> (\<forall>j. o_mutex s = Some j \<longleftrightarrow> j < length (o_pcs s) \<and> o_crit (o_pcs s ! j))"

definition o_rep :: "obj_sys \<Rightarrow> nat list \<Rightarrow> nat list \<Rightarrow> nat list \<Rightarrow> (string \<times> obj_val) list \<Rightarrow> bool" where
  "o_rep s xs ys zs kvs \<longleftrightarrow> chains_with (o_store s) xs ys zs \<and> mset zs = pendings (o_pcs s) \<and> bindings (o_store s) xs kvs \<and>
     deps_good (o_store s) \<and> o_locked s \<and> (\<forall>pc\<in>set (o_pcs s). o_local (o_store s) xs kvs pc)"

definition o_inv :: "obj_sys \<Rightarrow> oevent list \<Rightarrow> bool" where
  "o_inv s es \<longleftrightarrow> (\<exists>xs ys zs kvs. o_rep s xs ys zs kvs \<and>
     spec_ops (map fst (effects es)) (\<lambda>_. []) = (map snd (effects es), stacks_of kvs))"

lemma pendings_update:
  "i < length pcs \<Longrightarrow> pendings (pcs[i := pc]) + mset (pending_of (pcs ! i)) = pendings pcs + mset (pending_of pc)"
proof (induction pcs arbitrary: i)
  case (Cons x pcs)
  then show ?case
    by (cases i) (auto simp: pendings_def ac_simps)
qed simp

lemma pending_in: "pc \<in> set pcs \<Longrightarrow> a \<in> set (pending_of pc) \<Longrightarrow> a \<in># pendings pcs"
  by (induction pcs) (auto simp: pendings_def)

lemma pending_set: "mset zs = pendings pcs \<Longrightarrow> pc \<in> set pcs \<Longrightarrow> set (pending_of pc) \<subseteq> set zs"
  using pending_in by (metis set_mset_mset subsetI)

lemma spec_ops_snoc: "spec_ops (xs @ [x]) m =
    (let (rs, m) = spec_ops xs m; (r, m) = spec_op x m in (rs @ [r], m))"
  by (induction xs arbitrary: m) (simp_all add: Let_def split: prod.split)

lemma deps_good_cong: "odeps w' = odeps w \<Longrightarrow> deps_good w' = deps_good w"
  by (simp add: deps_good_def)

lemma whats_count: "count_list (whats w xs) x = sum_list (map (\<lambda>a. count_list (whats_of (mem (oheap w) a)) x) xs)"
  by (induction xs) (simp_all add: whats_def)

lemma chains_with_perm:
  assumes "chains_with w xs ys zs" "mset zs' = mset zs"
  shows "chains_with w xs ys zs'"
proof -
  have "set zs' = set zs" "distinct zs' = distinct zs"
    using assms(2) mset_eq_setD mset_eq_imp_distinct_iff by blast+
  moreover have "count_list (whats w zs') x = count_list (whats w zs) x" for x
    unfolding whats_count by (metis assms(2) mset_map sum_mset_sum_list)
  ultimately show ?thesis
    using assms(1) by (simp add: chains_with_def)
qed

subsection \<open>Steps keep the invariant\<close>

lemma o_locked_move:
  assumes "o_locked s" "pc_is i pc s" "o_crit pc' \<Longrightarrow> o_crit pc \<or> o_mutex s = None"
    and "o_mutex s' = (if o_crit pc' then Some i else if o_crit pc then None else o_mutex s)" "o_pcs s' = (o_pcs s)[i := pc']"
  shows "o_locked s'"
proof -
  have i: "i < length (o_pcs s)" "o_pcs s ! i = pc"
    using assms(2) by (simp_all add: pc_is_def)
  have lk: "o_mutex s = Some j \<longleftrightarrow> j < length (o_pcs s) \<and> o_crit (o_pcs s ! j)" for j
    using assms(1) by (simp add: o_locked_def)
  show ?thesis
    unfolding o_locked_def
  proof
    fix j
    show "o_mutex s' = Some j \<longleftrightarrow> j < length (o_pcs s') \<and> o_crit (o_pcs s' ! j)"
      using i lk [of i] lk [of j] assms(3) by (cases "j = i"; cases "o_crit pc"; cases "o_crit pc'") (auto simp: assms(4,5))
  qed
qed

text \<open>What the other threads know is not touched: the lock keeps them out of the chain, and nobody
  writes to their entries.\<close>

lemma o_rep_move:
  assumes rep: "o_rep s xs ys zs kvs" and pc: "pc_is i pc s"
    and c: "chains_with w' xs' ys' zs'" "mset zs' + mset (pending_of pc) = mset zs + mset (pending_of pc')"
    and b: "bindings w' xs' kvs'" "deps_good w'" "o_local w' xs' kvs' pc'"
    and keep: "\<forall>a\<in>set zs. map_option binding (mem (oheap w') a) = map_option binding (mem (oheap (o_store s)) a)"
    and stay: "o_crit pc \<or> xs' = xs \<and> kvs' = kvs" "o_crit pc' \<Longrightarrow> o_crit pc \<or> o_mutex s = None"
    and s': "o_mutex s' = (if o_crit pc' then Some i else if o_crit pc then None else o_mutex s)"
      "o_store s' = w'" "o_pcs s' = (o_pcs s)[i := pc']"
  shows "o_rep s' xs' ys' zs' kvs'"
proof -
  have i: "i < length (o_pcs s)" "o_pcs s ! i = pc"
    using pc by (simp_all add: pc_is_def)
  have old: "mset zs = pendings (o_pcs s)" "o_locked s" "\<forall>pc\<in>set (o_pcs s). o_local (o_store s) xs kvs pc"
    using rep by (simp_all add: o_rep_def)
  have "mset zs' = pendings (o_pcs s')"
    using pendings_update [OF i(1), of pc'] c(2) old(1) by (simp add: i(2) s'(3)) (metis add_right_cancel)
  moreover have "o_local w' xs' kvs' (o_pcs s ! j)" if j: "j < length (o_pcs s)" "j \<noteq> i" for j
  proof -
    have "o_local (o_store s) xs kvs (o_pcs s ! j)" "set (pending_of (o_pcs s ! j)) \<subseteq> set zs"
      using old(1,3) j(1) pending_set by simp_all
    moreover have "xs' = xs \<and> kvs' = kvs" if "o_crit (o_pcs s ! j)"
    proof -
      have "o_mutex s = Some j" "o_crit pc \<longrightarrow> o_mutex s = Some i"
        using old(2) i j that by (simp_all add: o_locked_def)
      then show ?thesis
        using stay(1) j(2) by auto
    qed
    ultimately show ?thesis
      using keep by (cases "(w', xs', kvs', o_pcs s ! j)" rule: o_local.cases) auto
  qed
  then have "\<forall>pc\<in>set (o_pcs s'). o_local w' xs' kvs' pc"
    using b(3) i(1) by (auto simp: s'(3) in_set_conv_nth nth_list_update)
  moreover have "o_locked s'"
    using old(2) pc stay(2) s'(1,3) by (rule o_locked_move)
  ultimately show ?thesis
    using c(1) b(1,2) by (simp add: o_rep_def s'(2))
qed

lemma o_rep_at:
  assumes "o_rep s xs ys zs kvs" "pc_is i pc s"
  shows "o_local (o_store s) xs kvs pc" "o_crit pc \<Longrightarrow> o_mutex s = Some i" "set (pending_of pc) \<subseteq> set zs"
proof -
  have i: "i < length (o_pcs s)" "o_pcs s ! i = pc" "pc \<in> set (o_pcs s)"
    using assms(2) by (auto simp: pc_is_def)
  show "o_local (o_store s) xs kvs pc" "o_crit pc \<Longrightarrow> o_mutex s = Some i"
    using assms(1) i by (auto simp: o_rep_def o_locked_def)
  show "set (pending_of pc) \<subseteq> set zs"
    using assms(1) i(3) pending_set by (simp add: o_rep_def)
qed

subsubsection \<open>What each step does to the store\<close>

lemma new_entry_with:
  assumes c: "chains_with w xs ys zs" and mok: "\<And>n. mok n"
  shows "\<exists>a w'. new_entry mok key v w = Inr (a, w') \<and> chains_with w' xs ys (a # zs) \<and> odeps w' = odeps w \<and>
    map_option binding (mem (oheap w') a) = Some (cstr key, v) \<and> a \<notin> dom (mem (oheap w)) \<and>
    (\<forall>x. x \<noteq> a \<longrightarrow> mem (oheap w') x = mem (oheap w) x)"
proof -
  obtain len data sWhat where v: "v = (len, data, sWhat)"
    by (cases v)
  let ?v = "\<lparr>o_len = len, o_obj = data, o_sWhat = sWhat, o_next = NULL, o_key = cstr key\<rparr>"
  obtain a h where new: "new_rec ?v (oheap w) = (a, h)"
    by (cases "new_rec ?v (oheap w)")
  have h: "heap_ok h" "mem (oheap w) a = None" "mem h = (mem (oheap w))(a \<mapsto> ?v)"
    using heap_ok_new [OF _ new] c by (auto simp: chains_with_def)
  have a: "a \<notin> set xs" "a \<notin> set ys" "a \<notin> set zs"
    using c h(2) by (auto simp: chains_with_def dest!: equalityD2)
  let ?w = "(case sWhat of None \<Rightarrow> w | Some x \<Rightarrow> R_PreserveObject x w)\<lparr>oheap := h\<rparr>"
  have "whats ?w us = whats w us" if "a \<notin> set us" for us
    using that h(3) by (intro whats_cong) auto
  then have "chains_with ?w xs ys (a # zs)"
    using c h a by (auto simp: chains_with_def R_PreserveObject_def whats_Cons split: option.splits)
  moreover have "new_entry mok key v w = Inr (a, ?w)"
    using mok new by (simp add: new_entry_def v Let_def)
  ultimately show ?thesis
    using h(2,3) v by (intro exI [of _ a] exI [of _ ?w])
      (auto simp: binding_def R_PreserveObject_def split: option.splits)
qed

lemma link_entry_with:
  assumes c: "chains_with w xs ys zs" and a: "a \<in> set zs"
  shows "\<exists>w'. link_entry a w = Inr w' \<and> chains_with w' (a # xs) ys (remove1 a zs) \<and> odeps w' = odeps w \<and>
    (\<forall>y. map_option binding (mem (oheap w') y) = map_option binding (mem (oheap w) y))"
proof -
  have p: "chains_with w xs ys (a # remove1 a zs)"
    using a by (intro chains_with_perm [OF c]) simp
  then have "a \<in> dom (mem (oheap w))"
    by (simp add: chains_with_def)
  then obtain v where v: "mem (oheap w) a = Some v"
    by blast
  let ?v = "v\<lparr>o_next := obj_root w\<rparr>"
  let ?w = "w\<lparr>oheap := put_rec a ?v (oheap w), obj_root := Some a\<rparr>"
  have n: "a \<notin> set xs" "a \<notin> set ys"
    using p by (auto simp: chains_with_def)
  have "whats ?w us = whats w us" for us
    using v by (intro whats_cong) auto
  then have "chains_with ?w (a # xs) ys (remove1 a zs)"
    using p v n by (auto simp: chains_with_def whats_Cons)
  moreover have "link_entry a w = Inr ?w"
    using v by (simp add: link_entry_def)
  ultimately show ?thesis
    using v by (intro exI [of _ ?w]) (auto simp: binding_def)
qed

lemma find_round_with:
  assumes c: "chains_with w (as @ x # bs) ys zs" and v: "mem (oheap w) x = Some v"
  shows "\<not> same_str key (o_key v) \<Longrightarrow> find_round key rm prev (Some x) w = Inr (Inr (Some x, first_ptr bs NULL), w)"
    and "same_str key (o_key v) \<Longrightarrow> find_round key False prev (Some x) w = Inr (Inl (Some x), w)"
    and "same_str key (o_key v) \<Longrightarrow> \<exists>w2. find_round key True (last_ptr NULL as) (Some x) w = Inr (Inl (Some x), w2) \<and>
      odeps w2 = odeps w \<and> chains_with w2 (as @ bs) (x # ys) zs \<and>
      (\<forall>y. map_option binding (mem (oheap w2) y) = map_option binding (mem (oheap w) y))"
proof -
  have "seg (mem (oheap w)) o_next (o_next v) bs NULL"
    using c v by (auto simp: chains_with_def seg_append)
  then have "o_next v = first_ptr bs NULL"
    using seg_start by (auto simp: first_ptr_def)
  then show "\<not> same_str key (o_key v) \<Longrightarrow> find_round key rm prev (Some x) w = Inr (Inr (Some x, first_ptr bs NULL), w)"
    "same_str key (o_key v) \<Longrightarrow> find_round key False prev (Some x) w = Inr (Inl (Some x), w)"
    using v by (simp_all add: find_round_def)
  assume "same_str key (o_key v)"
  from find_match_with [OF c v this, of 0] obtain w2 where
    w2: "find_loop (Suc 0) key True (last_ptr NULL as) (Some x) w = Inr (Some x, w2)" "odeps w2 = odeps w"
      "chains_with w2 (as @ bs) (x # ys) zs" "\<forall>y. map_option binding (mem (oheap w2) y) = map_option binding (mem (oheap w) y)"
    by blast
  have "find_round key True (last_ptr NULL as) (Some x) w = Inr (Inl (Some x), w2)"
  proof (cases "find_round key True (last_ptr NULL as) (Some x) w")
    case (Inr q)
    then show ?thesis
      using w2(1) unfolding find_loop_rounds by (cases q; cases "fst q") (auto simp: find_loop.simps)
  qed (use w2(1) in \<open>simp add: find_loop_rounds\<close>)
  with w2(2-4) show "\<exists>w2. find_round key True (last_ptr NULL as) (Some x) w = Inr (Inl (Some x), w2) \<and>
      odeps w2 = odeps w \<and> chains_with w2 (as @ bs) (x # ys) zs \<and>
      (\<forall>y. map_option binding (mem (oheap w2) y) = map_option binding (mem (oheap w) y))"
    by blast
qed

lemma bindings_at:
  assumes "bindings w (as @ x # bs) kvs" "mem (oheap w) x = Some v"
  shows "kvs = take (length as) kvs @ binding v # drop (Suc (length as)) kvs" "nul \<notin> set (o_key v)"
    "length kvs = length as + Suc (length bs)" "take (Suc (length as)) kvs = take (length as) kvs @ [binding v]"
proof -
  have l: "map (\<lambda>a. map_option binding (mem (oheap w) a)) (as @ x # bs) = map Some kvs" "list_all (\<lambda>(k, v). nul \<notin> set k) kvs"
    using assms(1) by (simp_all add: bindings_def)
  show len: "length kvs = length as + Suc (length bs)"
    using l(1) by (metis length_append length_Cons length_map)
  have at: "kvs ! length as = binding v"
    using arg_cong [OF l(1), of "\<lambda>xs. xs ! length as"] len assms(2) by (simp add: nth_append)
  with len show "take (Suc (length as)) kvs = take (length as) kvs @ [binding v]"
    by (simp add: take_Suc_conv_app_nth)
  from at show "kvs = take (length as) kvs @ binding v # drop (Suc (length as)) kvs"
    using len id_take_nth_drop [of "length as" kvs] by simp
  then have "binding v \<in> set kvs"
    by (metis in_set_conv_decomp)
  then show "nul \<notin> set (o_key v)"
    using l(2) by (auto simp: list_all_iff binding_def)
qed

lemma drop_key_prefix: "k \<notin> fst ` set as \<Longrightarrow> drop_key k (as @ (k, v) # bs) = as @ bs"
  by (induction as) auto

lemma bindings_without:
  assumes "bindings w (as @ x # bs) kvs"
  shows "bindings w (as @ bs) (take (length as) kvs @ drop (Suc (length as)) kvs)"
proof -
  have "map Some kvs = map (\<lambda>a. map_option binding (mem (oheap w) a)) (as @ x # bs)"
    using assms by (simp add: bindings_def)
  then have "map Some (take (length as) kvs @ drop (Suc (length as)) kvs) = map (\<lambda>a. map_option binding (mem (oheap w) a)) (as @ bs)"
    by (simp add: take_map [symmetric] drop_map [symmetric])
  then show ?thesis
    using assms by (auto simp: bindings_def list_all_iff dest: in_set_takeD in_set_dropD)
qed

definition effect_ok :: "oevent \<Rightarrow> (string \<times> obj_val) list \<Rightarrow> (string \<times> obj_val) list \<Rightarrow> bool" where
  "effect_ok e kvs kvs' \<longleftrightarrow> (case effect_of e of [] \<Rightarrow> kvs' = kvs | (x, a) # _ \<Rightarrow> spec_op x (stacks_of kvs) = (a, stacks_of kvs'))"

lemma quiet_move:
  assumes "o_rep s xs ys zs kvs" "pc_is i pc s" "mset (pending_of pc') = mset (pending_of pc)" "o_local (o_store s) xs kvs pc'"
    "o_crit pc' \<Longrightarrow> o_crit pc \<or> o_mutex s = None" "o_mutex s' = (if o_crit pc' then Some i else if o_crit pc then None else o_mutex s)"
    "o_store s' = o_store s" "o_pcs s' = (o_pcs s)[i := pc']"
  shows "o_rep s' xs ys zs kvs"
  using assms(1) by (intro o_rep_move [OF assms(1,2) _ _ _ _ assms(4) _ _ assms(5-8)]) (simp_all add: o_rep_def assms(3))

lemma move_simps [simp]: "o_store (move i pc w s) = w" "o_pcs (move i pc w s) = (o_pcs s)[i := pc]" "o_mutex (move i pc w s) = o_mutex s"
  by (simp_all add: move_def)

lemma o_local_cong: "\<forall>y. map_option binding (mem (oheap w') y) = map_option binding (mem (oheap w) y) \<Longrightarrow>
    o_local w' xs kvs pc = o_local w xs kvs pc"
  by (cases "(w, xs, kvs, pc)" rule: o_local.cases) auto

lemma round_kept:
  assumes rep: "o_rep s xs ys zs kvs" and pc: "pc_is i (O_Find key rm prev e) s"
  shows "\<exists>r w. find_round key rm prev e (o_store s) = Inr (r, w) \<and>
    (case r of Inr (prev', e') \<Rightarrow> o_rep (move i (O_Find key rm prev' e') w s) xs ys zs kvs
     | Inl p \<Rightarrow> \<exists>xs' ys' kvs'. o_rep (move i (O_Unlock p) w s) xs' ys' zs kvs' \<and>
         spec_op (lookup_op key rm) (stacks_of kvs) = (read_entry w p, stacks_of kvs'))"
proof -
  let ?w = "o_store s"
  have m: "o_mutex s = Some i"
    using o_rep_at(2) [OF rep pc] by simp
  have c: "chains_with ?w xs ys zs" "bindings ?w xs kvs" "deps_good ?w"
    using rep by (simp_all add: o_rep_def)
  obtain as bs where at: "xs = as @ bs" "prev = last_ptr NULL as" "e = first_ptr bs NULL" "cstr key \<notin> fst ` set (take (length as) kvs)"
    using o_rep_at(1) [OF rep pc] by auto
  show ?thesis
  proof (cases bs)
    case Nil
    have "length kvs = length as"
      using c(2) at(1) Nil by (metis append_Nil2 bindings_def length_map)
    then have "map_of kvs (cstr key) = None"
      using at(4) by (simp add: map_of_eq_None_iff)
    then have sp: "spec_op (lookup_op key rm) (stacks_of kvs) = (None, stacks_of kvs)"
      by (auto simp: lookup_op_def map_of_stacks split: list.splits)
    have "o_rep (move i (O_Unlock NULL) ?w s) xs ys zs kvs"
      by (rule quiet_move [OF rep pc]) (simp_all add: m)
    with sp show ?thesis
      using at(3) Nil by (auto simp: find_round_def read_entry_def)
  next
    case (Cons x bs')
    have c': "chains_with ?w (as @ x # bs') ys zs" and b': "bindings ?w (as @ x # bs') kvs"
      using c at(1) Cons by simp_all
    have x: "x \<notin> set zs" "x \<in> dom (mem (oheap ?w))"
      using c' by (auto simp: chains_with_def)
    then obtain v where v: "mem (oheap ?w) x = Some v"
      by blast
    note k = bindings_at [OF b' v]
    have key: "same_str key (o_key v) \<longleftrightarrow> o_key v = cstr key"
      using k(2) by (auto simp: same_str_def cstr_id)
    note fr = find_round_with [OF c' v, of key]
    have e: "e = Some x"
      using at(3) Cons by simp
    show ?thesis
    proof (cases "o_key v = cstr key")
      case False
      have "cstr key \<notin> fst ` set (take (length (as @ [x])) kvs)"
        using at(4) k(4) False by (simp add: binding_def)
      then have "o_local ?w xs kvs (O_Find key rm (Some x) (first_ptr bs' NULL))"
        unfolding o_local.simps using at(1) Cons by (intro exI [of _ "as @ [x]"] exI [of _ bs'] conjI) simp_all
      then have "o_rep (move i (O_Find key rm (Some x) (first_ptr bs' NULL)) ?w s) xs ys zs kvs"
        using m by (intro quiet_move [OF rep pc]) simp_all
      with fr(1) [of rm prev] key False e show ?thesis
        by simp
    next
      case True
      let ?kvs = "take (length as) kvs @ drop (Suc (length as)) kvs"
      have kv: "kvs = take (length as) kvs @ (cstr key, snd (binding v)) # drop (Suc (length as)) kvs"
        using k(1) True by (simp add: binding_def)
      have "map_of (take (length as) kvs) (cstr key) = None"
        using at(4) by (simp add: map_of_eq_None_iff)
      then have "map_of kvs (cstr key) = Some (snd (binding v))"
        by (subst kv) (simp add: map_add_def)
      moreover have "stacks_of ?kvs = (stacks_of kvs)(cstr key := tl (stacks_of kvs (cstr key)))"
        using at(4) drop_key_prefix [OF at(4)] kv by (metis drop_key_stacks)
      ultimately have sp: "spec_op (lookup_op key rm) (stacks_of kvs) = (Some (snd (binding v)), stacks_of (if rm then ?kvs else kvs))"
        by (auto simp: lookup_op_def map_of_stacks split: list.splits)
      show ?thesis
      proof (cases rm)
        case False
        have "o_rep (move i (O_Unlock e) ?w s) xs ys zs kvs"
          by (rule quiet_move [OF rep pc]) (simp_all add: m)
        with sp fr(2) [of prev] key True False v e show ?thesis
          by (auto simp: read_entry_def)
      next
        case rm: True
        obtain w2 where w2: "find_round key True prev e ?w = Inr (Inl e, w2)" "odeps w2 = odeps ?w"
            "chains_with w2 (as @ bs') (x # ys) zs" "\<forall>y. map_option binding (mem (oheap w2) y) = map_option binding (mem (oheap ?w) y)"
          using fr(3) key True e at(2) by auto
        have "bindings w2 (as @ bs') ?kvs"
          using bindings_without [OF b'] bindings_cong [of "as @ bs'" w2 ?w] w2(4) by blast
        then have "o_rep (move i (O_Unlock e) w2 s) (as @ bs') (x # ys) zs ?kvs"
          using c(3) w2(2-4) m by (intro o_rep_move [OF rep pc, of w2]) (simp_all add: deps_good_def)
        moreover have "read_entry w2 e = Some (snd (binding v))"
        proof -
          have "map_option binding (mem (oheap w2) x) = Some (binding v)"
            using w2(4) v by simp
          then show ?thesis
            using e by (auto simp: read_entry_def)
        qed
        ultimately show ?thesis
          using sp rm w2(1) by auto
      qed
    qed
  qed
qed

lemma chains_with_odeps: "chains_with (w\<lparr>odeps := d\<rparr>) xs ys zs = chains_with w xs ys zs"
  by (simp add: chains_with_def whats_def)

lemma add_kept:
  assumes rep: "o_rep s xs ys zs kvs" and pc: "pc_is i O_Idle s" and mok: "\<And>n. mok n"
  shows "\<exists>a w. new_entry mok key v (o_store s) = Inr (a, w) \<and> o_rep (move i (O_Lock (Linking key v a)) w s) xs ys (a # zs) kvs"
proof -
  let ?w = "o_store s"
  have c: "chains_with ?w xs ys zs" "bindings ?w xs kvs" "deps_good ?w"
    using rep by (simp_all add: o_rep_def)
  obtain a w where w: "new_entry mok key v ?w = Inr (a, w)" "chains_with w xs ys (a # zs)" "odeps w = odeps ?w"
      "map_option binding (mem (oheap w) a) = Some (cstr key, v)" "a \<notin> dom (mem (oheap ?w))"
      "\<forall>x. x \<noteq> a \<longrightarrow> mem (oheap w) x = mem (oheap ?w) x"
    using new_entry_with [of _ _ _ _ mok, OF c(1) mok] by blast
  have a: "a \<notin> set xs" "a \<notin> set zs"
    using w(2) by (auto simp: chains_with_def)
  have "\<forall>x\<in>set xs. mem (oheap w) x = mem (oheap ?w) x" "\<forall>x\<in>set zs. mem (oheap w) x = mem (oheap ?w) x"
    using w(6) a by metis+
  moreover from this have "bindings w xs kvs"
    using c(2) bindings_cong [of xs w ?w] by simp
  ultimately have "o_rep (move i (O_Lock (Linking key v a)) w s) xs ys (a # zs) kvs"
    using c(3) w(2-4) by (intro o_rep_move [OF rep pc, of w]) (simp_all add: deps_good_def)
  with w(1) show ?thesis
    by blast
qed

lemma link_kept:
  assumes rep: "o_rep s xs ys zs kvs" and pc: "pc_is i (O_Link key v a) s"
  shows "\<exists>w. link_entry a (o_store s) = Inr w \<and>
    o_rep (move i (O_Deps key) w s) (a # xs) ys (remove1 a zs) ((cstr key, v) # kvs)"
proof -
  let ?w = "o_store s"
  have c: "chains_with ?w xs ys zs" "bindings ?w xs kvs" "deps_good ?w"
    using rep by (simp_all add: o_rep_def)
  have l: "map_option binding (mem (oheap ?w) a) = Some (cstr key, v)" "a \<in> set zs"
    using o_rep_at(1,3) [OF rep pc] by simp_all
  obtain w where w: "link_entry a ?w = Inr w" "chains_with w (a # xs) ys (remove1 a zs)" "odeps w = odeps ?w"
      "\<forall>y. map_option binding (mem (oheap w) y) = map_option binding (mem (oheap ?w) y)"
    using link_entry_with [OF c(1) l(2)] by blast
  have "bindings w xs kvs"
    using c(2) w(4) bindings_cong [of xs w ?w] by simp
  moreover have "map_option binding (mem (oheap w) a) = Some (cstr key, v)"
    using l(1) w(4) by simp
  ultimately have "bindings w (a # xs) ((cstr key, v) # kvs)"
    by (auto simp: bindings_Cons) (auto simp: binding_def)
  then have "o_rep (move i (O_Deps key) w s) (a # xs) ys (remove1 a zs) ((cstr key, v) # kvs)"
    using c(3) w(2-4) l(2) o_rep_at(2) [OF rep pc] by (intro o_rep_move [OF rep pc, of w]) (simp_all add: deps_good_def)
  with w(1) show ?thesis
    by blast
qed

lemma collect_kept:
  assumes rep: "o_rep s xs ys zs kvs" and pc: "pc_is i O_Collect s" and pool: "obj_gc_pool (o_store s) \<noteq> NULL"
  shows "\<exists>w ys'. gc_round (o_store s) = Inr w \<and> o_rep (move i O_Collect w s) xs ys' zs kvs"
proof -
  let ?w = "o_store s"
  have c: "chains_with ?w xs ys zs" "bindings ?w xs kvs" "deps_good ?w"
    using rep by (simp_all add: o_rep_def)
  from pool obtain y ys' where y: "ys = y # ys'"
    using c(1) by (cases ys) (auto simp: chains_with_def)
  obtain w where w: "gc_round ?w = Inr w" "chains_with w xs ys' zs" "odeps w = odeps ?w"
      "mem (oheap w) = (mem (oheap ?w))(y := None)"
    using gc_step_with c(1) y by blast
  have "y \<notin> set xs" "y \<notin> set zs"
    using c(1) y by (auto simp: chains_with_def)
  then have same: "\<forall>a\<in>set xs. mem (oheap w) a = mem (oheap ?w) a" "\<forall>a\<in>set zs. mem (oheap w) a = mem (oheap ?w) a"
    using w(4) by auto
  then have "bindings w xs kvs"
    using c(2) bindings_cong [of xs w ?w] by simp
  with same(2) have "o_rep (move i O_Collect w s) xs ys' zs kvs"
    using c(3) w(2,3) o_rep_at(2) [OF rep pc]
    by (intro o_rep_move [OF rep pc, of w]) (simp_all add: deps_good_def)
  with w(1) show ?thesis
    by blast
qed

lemma tstep_kept:
  assumes "tstep mok i s e r" and rep: "o_rep s xs ys zs kvs" and mok: "\<And>n. mok n"
  shows "\<exists>s' xs' ys' zs' kvs'. r = Inr s' \<and> o_rep s' xs' ys' zs' kvs' \<and> effect_ok e kvs kvs'"
proof -
  let ?w = "o_store s"
  have c: "chains_with ?w xs ys zs" "bindings ?w xs kvs" "deps_good ?w"
    using rep by (simp_all add: o_rep_def)
  show ?thesis
    using assms(1)
  proof cases
    case (call_add key v)
    then show ?thesis
      using add_kept [of _ _ _ _ _ _ mok, OF rep call_add(3) mok, of key v] by (fastforce simp: effect_ok_def)
  next
    case (call_get key rm)
    have "o_rep (move i (O_Lock (Finding key rm)) ?w s) xs ys zs kvs"
      by (rule quiet_move [OF rep call_get(3)]) simp_all
    with call_get show ?thesis
      by (auto simp: effect_ok_def)
  next
    case call_gc
    have "o_rep (move i (O_Lock Collecting) ?w s) xs ys zs kvs"
      by (rule quiet_move [OF rep call_gc(3)]) simp_all
    with call_gc show ?thesis
      by (auto simp: effect_ok_def)
  next
    case (lock cl)
    have l: "o_local ?w xs kvs (O_Lock cl)"
      by (rule o_rep_at(1) [OF rep lock(3)])
    have root: "obj_root ?w = first_ptr xs NULL"
      using c(1) by (auto simp: chains_with_def first_ptr_def dest!: seg_start)
    have start: "o_local ?w xs kvs (O_Find key rm NULL (first_ptr xs NULL))" for key rm
      unfolding o_local.simps by (rule exI [of _ "[]"], rule exI [of _ xs]) simp
    have "o_rep (move i (first_point ?w cl) ?w (s\<lparr>o_mutex := Some i\<rparr>)) xs ys zs kvs"
    proof (rule quiet_move [OF rep lock(3)])
      show "o_local ?w xs kvs (first_point ?w cl)"
        using l start by (cases cl) (simp_all only: root first_point.simps o_local.simps)
    qed (cases cl; simp add: lock(4) move_def)+
    with lock show ?thesis
      by (auto simp: effect_ok_def)
  next
    case (link key v a)
    have "effect_ok e kvs ((cstr key, v) # kvs)"
      using link(1) by (simp add: effect_ok_def stacks_of_Cons)
    with link(2) link_kept [OF rep link(3)] show ?thesis
      by fastforce
  next
    case (deps key)
    obtain d where d: "deps_complete mok (Some key) (odeps ?w) = Inr d" "deps_good (?w\<lparr>odeps := d\<rparr>)"
      using deps_complete_good [of ?w mok, OF c(3) mok] by blast
    have "o_rep (move i (O_Unlock NULL) (?w\<lparr>odeps := d\<rparr>) s) xs ys zs kvs"
      using c d(2) o_rep_at(2) [OF rep deps(3)] bindings_cong [of xs "?w\<lparr>odeps := d\<rparr>" ?w kvs]
      by (intro o_rep_move [OF rep deps(3), of "?w\<lparr>odeps := d\<rparr>"]) (simp_all add: chains_with_odeps)
    with deps d(1) show ?thesis
      by (auto simp: effect_ok_def)
  next
    case (next_round key rm prev e prev' e' w)
    then show ?thesis
      using round_kept [OF rep next_round(3)] by (auto simp: effect_ok_def)
  next
    case (last_round key rm prev e p w)
    then show ?thesis
      using round_kept [OF rep last_round(3)] by (force simp: effect_ok_def)
  next
    case (wild_round key rm prev e f)
    then show ?thesis
      using round_kept [OF rep wild_round(3)] by auto
  next
    case collect
    then show ?thesis
      using collect_kept [OF rep collect(3,4)] by (fastforce simp: effect_ok_def)
  next
    case collected
    have "o_rep (move i (O_Unlock NULL) ?w s) xs ys zs kvs"
      using o_rep_at(2) [OF rep collected(3)] by (intro quiet_move [OF rep collected(3)]) simp_all
    with collected show ?thesis
      by (auto simp: effect_ok_def)
  next
    case (unlock p)
    have "o_rep (move i O_Idle ?w (s\<lparr>o_mutex := None\<rparr>)) xs ys zs kvs"
      by (rule quiet_move [OF rep unlock(3)]) (simp_all add: move_def)
    with unlock show ?thesis
      by (auto simp: effect_ok_def)
  qed
qed

subsection \<open>Runs\<close>

text \<open>Seen from one thread, a call begins, takes effect once with the operation that was asked for,
  and returns what the effect answered: a null pointer for nothing, or a pointer to an entry with
  the value of the answer.\<close>

datatype phase = Ready | Called store_op | Done "obj_val option"

fun next_phase :: "nat \<Rightarrow> phase option \<Rightarrow> oevent \<Rightarrow> phase option" where
  "next_phase i p OTau = p"
| "next_phase i p (OCall j x) = (if j \<noteq> i then p else if p = Some Ready then Some (Called x) else None)"
| "next_phase i p (OEffect j x r) = (if j \<noteq> i then p else if p = Some (Called x) then Some (Done r) else None)"
| "next_phase i p (OReturn j q r) =
     (if j \<noteq> i then p else if p = Some (Done r) \<and> (q = NULL \<longleftrightarrow> r = None) then Some Ready else None)"

fun phase_at :: "store \<Rightarrow> opc \<Rightarrow> phase" where
  "phase_at w O_Idle = Ready"
| "phase_at w (O_Lock (Linking key v a)) = Called (Add key v)"
| "phase_at w (O_Lock (Finding key rm)) = Called (lookup_op key rm)"
| "phase_at w (O_Lock Collecting) = Called Collect"
| "phase_at w (O_Link key v a) = Called (Add key v)"
| "phase_at w (O_Find key rm prev e) = Called (lookup_op key rm)"
| "phase_at w O_Collect = Called Collect"
| "phase_at w (O_Deps key) = Done None"
| "phase_at w (O_Unlock p) = Done (read_entry w p)"

lemma phase_first [simp]: "phase_at w (first_point w c) = phase_at w (O_Lock c)"
  by (cases c) simp_all

lemma phase_cong: "(\<And>p. pc = O_Unlock p \<Longrightarrow> read_entry w' p = read_entry w p) \<Longrightarrow> phase_at w' pc = phase_at w pc"
  by (induction w pc rule: phase_at.induct) simp_all

lemma first_point_unlock [simp]: "first_point w c \<noteq> O_Unlock p" "O_Unlock p \<noteq> first_point w c"
  by (cases c; simp)+

text \<open>The pointers that are about to be returned are null or lead to an entry.\<close>

definition answers_live :: "obj_sys \<Rightarrow> bool" where
  "answers_live s \<longleftrightarrow> (\<forall>p. O_Unlock p \<in> set (o_pcs s) \<longrightarrow> p = NULL \<or> read_entry (o_store s) p \<noteq> None)"

lemma read_entry_NULL [simp]: "read_entry w NULL = None"
  by (simp add: read_entry_def)

lemma read_entry_live: "read_entry w p \<noteq> None \<longleftrightarrow> (\<exists>a. p = Some a \<and> mem (oheap w) a \<noteq> None)"
  by (cases p) (simp_all add: read_entry_def)

lemma round_answer: "find_round key rm prev e w = Inr (Inl p, w') \<Longrightarrow> p = NULL \<or> read_entry w' p \<noteq> None"
  unfolding read_entry_live by (auto simp: find_round_def rbind_iffs assign_def put_rec_def deref_Inr_iff split: if_splits)

lemma new_entry_reads:
  assumes "new_entry mok key v w = Inr (a, w')" "heap_ok (oheap w)" "read_entry w p \<noteq> None"
  shows "read_entry w' p = read_entry w p"
proof -
  obtain q where q: "p = Some q" "mem (oheap w) q \<noteq> None"
    using assms(3) unfolding read_entry_live by blast
  obtain len data sWhat where v: "v = (len, data, sWhat)"
    by (cases v)
  have "oheap (R_PreserveObject x w) = oheap w" for x
    by (simp add: R_PreserveObject_def)
  then have "mem (oheap w') q = mem (oheap w) q"
    using assms(1,2) q(2) by (auto simp: v new_entry_def new_rec_def heap_ok_def split: option.splits if_splits)
  then show ?thesis
    by (simp add: read_entry_def q(1))
qed

lemmas Inr_rbind_iff = eq_commute [of "Inr s" "rbind m f" for s m f, unfolded rbind_Inr_iff]

text \<open>While one thread is about to return, no other step changes what it returns.\<close>

lemma unlock_undisturbed:
  assumes "tstep mok i s e (Inr s')" "o_rep s xs ys zs kvs" "j < length (o_pcs s)" "j \<noteq> i" "o_pcs s ! j = O_Unlock p"
    and live: "p = NULL \<or> read_entry (o_store s) p \<noteq> None"
  shows "read_entry (o_store s') p = read_entry (o_store s) p"
proof -
  have lk: "\<forall>j. o_mutex s = Some j \<longleftrightarrow> j < length (o_pcs s) \<and> o_crit (o_pcs s ! j)" and ok: "heap_ok (oheap (o_store s))"
    using assms(2) by (auto simp: o_rep_def o_locked_def chains_with_def)
  then have mine: "o_mutex s = Some j"
    using assms(3,5) by simp
  have not_i: "\<not> o_crit pc" if "pc_is i pc s" for pc
    using that lk mine assms(4) by (auto simp: pc_is_def)
  show ?thesis
    using assms(1) live mine new_entry_reads [OF _ ok] by cases (auto dest: not_i simp: Inr_rbind_iff move_def)
qed

lemma tstep_length:
  assumes "tstep mok i s e (Inr s')"
  shows "length (o_pcs s') = length (o_pcs s)"
  using assms by cases (auto simp: Inr_rbind_iff)

lemma tstep_phase:
  assumes "tstep mok i s e (Inr s')" "o_rep s xs ys zs kvs" "answers_live s" "j < length (o_pcs s)"
  shows "next_phase j (Some (phase_at (o_store s) (o_pcs s ! j))) e = Some (phase_at (o_store s') (o_pcs s' ! j))"
proof (cases "j = i")
  case True
  have "p = NULL \<or> read_entry (o_store s) p \<noteq> None" if "o_pcs s ! j = O_Unlock p" for p
    using assms(3,4) that nth_mem [of j "o_pcs s"] by (auto simp: answers_live_def)
  with assms(1,4) True show ?thesis
    by cases (auto simp: pc_is_def Inr_rbind_iff move_def)
next
  case False
  have pc: "o_pcs s' ! j = o_pcs s ! j" and other: "next_phase j p e = p" for p
    using assms(1) False by (cases; auto simp: Inr_rbind_iff move_def)+
  have "read_entry (o_store s') p = read_entry (o_store s) p" if "o_pcs s ! j = O_Unlock p" for p
    using unlock_undisturbed [OF assms(1,2,4) False that] assms(3,4) that nth_mem [of j "o_pcs s"]
    by (auto simp: answers_live_def)
  then show ?thesis
    unfolding other pc by (metis phase_cong)
qed

lemma tstep_answers:
  assumes "tstep mok i s e (Inr s')" "o_rep s xs ys zs kvs" "answers_live s"
  shows "answers_live s'"
proof -
  have "p = NULL \<or> read_entry (o_store s') p \<noteq> None" if "j < length (o_pcs s)" "o_pcs s' ! j = O_Unlock p" for j p
  proof (cases "j = i")
    case True
    with assms(1) that show ?thesis
      by cases (auto simp: pc_is_def Inr_rbind_iff move_def first_point_unlock dest: round_answer)
  next
    case False
    have pc: "o_pcs s ! j = O_Unlock p"
      using assms(1) False that(2) by cases (auto simp: Inr_rbind_iff move_def)
    then have "p = NULL \<or> read_entry (o_store s) p \<noteq> None"
      using assms(3) that(1) nth_mem [of j "o_pcs s"] by (auto simp: answers_live_def)
    with unlock_undisturbed [OF assms(1,2) that(1) False pc] show ?thesis
      by auto
  qed
  with tstep_length [OF assms(1)] show ?thesis
    by (auto simp: answers_live_def in_set_conv_nth)
qed

lemma ostep_length: "ostep mok s e (Inr s') \<Longrightarrow> length (o_pcs s') = length (o_pcs s)"
  by (auto elim!: ostep.cases dest: tstep_length)

lemma ostep_kept:
  assumes "ostep mok s e r" "o_inv s es" "\<And>n. mok n"
  shows "\<exists>s'. r = Inr s' \<and> o_inv s' (es @ [e])"
proof -
  obtain xs ys zs kvs where rep: "o_rep s xs ys zs kvs"
    and sp: "spec_ops (map fst (effects es)) (\<lambda>_. []) = (map snd (effects es), stacks_of kvs)"
    using assms(2) by (auto simp: o_inv_def)
  have "\<exists>s' xs' ys' zs' kvs'. r = Inr s' \<and> o_rep s' xs' ys' zs' kvs' \<and> effect_ok e kvs kvs'"
    using assms(1)
  proof cases
    case (of_thread i)
    then show ?thesis
      using tstep_kept [of mok, OF _ rep assms(3)] by blast
  next
    case (of_deps d)
    have "o_local (w\<lparr>odeps := d\<rparr>) xs kvs pc = o_local w xs kvs pc" for w pc
      by (rule o_local_cong) simp
    then have "o_rep (s\<lparr>o_store := (o_store s)\<lparr>odeps := d\<rparr>\<rparr>) xs ys zs kvs"
      using rep of_deps(3) bindings_cong [of xs "(o_store s)\<lparr>odeps := d\<rparr>" "o_store s" kvs]
      by (simp add: o_rep_def o_locked_def chains_with_odeps)
    with of_deps show ?thesis
      by (auto simp: effect_ok_def)
  qed
  then obtain s' xs' ys' zs' kvs' where s': "r = Inr s'" "o_rep s' xs' ys' zs' kvs'" "effect_ok e kvs kvs'"
    by blast
  have "spec_ops (map fst (effects (es @ [e]))) (\<lambda>_. []) = (map snd (effects (es @ [e])), stacks_of kvs')"
    using s'(3) sp by (cases e) (auto simp: effect_ok_def spec_ops_snoc)
  with s'(1,2) show ?thesis
    unfolding o_inv_def by blast
qed

lemma ostart_inv: "o_inv (ostart n) []"
proof -
  obtain xs ys where c: "chains fresh_store xs ys" "bindings fresh_store xs []" "deps_good fresh_store"
    using fresh_rep by (auto simp: store_rep_def obj_rep_def)
  have "pendings (replicate n O_Idle) = {#}"
    by (induction n) (simp_all add: pendings_def)
  then have "o_rep (ostart n) xs ys [] []"
    using c by (auto simp: o_rep_def ostart_def o_locked_def chains_with_Nil)
  then show ?thesis
    unfolding o_inv_def by (intro exI [of _ xs] exI [of _ ys] exI [of _ "[]"] conjI) simp_all
qed

lemma orun_inv: "orun mok (ostart n) es s \<Longrightarrow> (\<And>n. mok n) \<Longrightarrow> o_inv s es"
proof (induction rule: orun.induct)
  case (orun_step es u e v)
  then show ?case
    using ostep_kept [of mok, OF orun_step.hyps(2) orun_step.IH [OF orun_step.prems] orun_step.prems] by blast
qed (rule ostart_inv)

lemma ostep_phase:
  assumes "ostep mok s e (Inr s')" "o_rep s xs ys zs kvs" "answers_live s"
  shows "answers_live s' \<and> (\<forall>j<length (o_pcs s).
    next_phase j (Some (phase_at (o_store s) (o_pcs s ! j))) e = Some (phase_at (o_store s') (o_pcs s' ! j)))"
  using assms(1)
proof cases
  case (of_thread i)
  then show ?thesis
    using tstep_phase [OF _ assms(2,3)] tstep_answers [OF _ assms(2,3)] by blast
next
  case (of_deps d)
  have "read_entry (w\<lparr>odeps := d\<rparr>) p = read_entry w p" for w p
    by (simp add: read_entry_def split: option.split)
  with of_deps assms(3) show ?thesis
    by (auto simp: answers_live_def intro: phase_cong)
qed

lemma orun_phase:
  "orun mok (ostart n) es s \<Longrightarrow> (\<And>n. mok n) \<Longrightarrow> answers_live s \<and> length (o_pcs s) = n \<and>
    (\<forall>i<n. foldl (next_phase i) (Some Ready) es = Some (phase_at (o_store s) (o_pcs s ! i)))"
proof (induction rule: orun.induct)
  case (orun_step es u e v)
  obtain xs ys zs kvs where "o_rep u xs ys zs kvs"
    using orun_inv [of mok, OF orun_step.hyps(1) orun_step.prems] by (auto simp: o_inv_def)
  with orun_step show ?case
    using ostep_phase [OF orun_step.hyps(2)] ostep_length [OF orun_step.hyps(2)] by auto
qed (simp add: ostart_def answers_live_def)

lemma crit_steps:
  assumes "pc_is i pc s" "o_crit pc"
  shows "\<exists>e r. tstep mok i s e r"
proof (cases pc)
  case (O_Find key rm prev e)
  then show ?thesis
  proof (cases "find_round key rm prev e (o_store s)")
    case (Inr q)
    then show ?thesis
      using assms(1) O_Find by (cases q; cases "fst q") (auto intro: next_round last_round)
  qed (use assms(1) in \<open>auto intro: wild_round\<close>)
next
  case O_Collect
  then show ?thesis
    using assms(1) by (cases "obj_gc_pool (o_store s) = NULL") (blast intro: collect collected)+
qed (use assms in \<open>auto intro: link deps unlock\<close>)

subsection \<open>An interleaving\<close>

text \<open>Two threads: while one has prepared an entry and waits to link it, the other looks for its
  key and does not find it.\<close>

definition demo_entry_heap :: "obj_entry heap" where
  "demo_entry_heap = snd (new_rec \<lparr>o_len = 1, o_obj = Some ''x'', o_sWhat = None, o_next = NULL, o_key = ''k''\<rparr> empty_heap)"

definition demo_sys :: "nat option \<Rightarrow> opc list \<Rightarrow> obj_sys" where
  "demo_sys m pcs = \<lparr>o_store = fresh_store\<lparr>oheap := demo_entry_heap\<rparr>, o_mutex = m, o_pcs = pcs\<rparr>"

abbreviation (input) demo_linking :: opc where
  "demo_linking \<equiv> O_Lock (Linking ''k'' (1, Some ''x'', None) 0)"

lemma orun_next: "orun mok s es u \<Longrightarrow> tstep mok i u e r \<Longrightarrow> r = Inr v \<Longrightarrow> orun mok s (es @ [e]) v"
  using orun_step of_thread by blast

lemma demo_orun:
  "orun (\<lambda>_. True) (ostart 2)
    [OCall 0 (Add ''k'' (1, Some ''x'', None)), OCall 1 (lookup_op ''k'' False), OTau, OEffect 1 (lookup_op ''k'' False) None]
    (demo_sys (Some 1) [demo_linking, O_Unlock NULL])"
proof -
  have root: "obj_root fresh_store = NULL" "oheap fresh_store = empty_heap"
    by (simp_all add: fresh_store_def obj_init_def store_start_def Let_def split: prod.split)
  note defs = demo_sys_def demo_entry_heap_def move_def ostart_def pc_is_def numeral_2_eq_2
  have "orun (\<lambda>_. True) (ostart 2) ([] @ [OCall 0 (Add ''k'' (1, Some ''x'', None))]) (demo_sys None [demo_linking, O_Idle])"
    by (rule orun_next [OF orun_refl call_add])
      (simp_all add: defs new_entry_def new_rec_def root empty_heap_def cstr_def)
  from orun_next [OF this call_get [of 1 _ _ "''k''" False]]
  have "orun (\<lambda>_. True) (ostart 2) (([] @ [OCall 0 (Add ''k'' (1, Some ''x'', None))]) @ [OCall 1 (lookup_op ''k'' False)])
      (demo_sys None [demo_linking, O_Lock (Finding ''k'' False)])"
    by (simp add: defs)
  from orun_next [OF this lock [of 1 "Finding ''k'' False"]]
  have "orun (\<lambda>_. True) (ostart 2) ((([] @ [OCall 0 (Add ''k'' (1, Some ''x'', None))]) @ [OCall 1 (lookup_op ''k'' False)]) @ [OTau])
      (demo_sys (Some 1) [demo_linking, O_Find ''k'' False NULL NULL])"
    by (simp add: defs root)
  from orun_next [OF this last_round [of 1 "''k''" False NULL NULL _ NULL]]
  show ?thesis
    by (simp add: defs find_round_def read_entry_def)
qed

text \<open>The second thread returns with nothing, and the first one links its entry.\<close>

lemma demo_returned:
  "orun (\<lambda>_. True) (ostart 2)
    [OCall 0 (Add ''k'' (1, Some ''x'', None)), OCall 1 (lookup_op ''k'' False), OTau, OEffect 1 (lookup_op ''k'' False) None,
     OReturn 1 NULL None, OTau, OEffect 0 (Add ''k'' (1, Some ''x'', None)) None]
    ((demo_sys (Some 0) [O_Deps ''k'', O_Idle])\<lparr>o_store := (fresh_store\<lparr>oheap := demo_entry_heap, obj_root := Some 0\<rparr>)\<rparr>)"
proof -
  have root: "obj_root fresh_store = NULL"
    by (simp add: fresh_store_def obj_init_def store_start_def Let_def split: prod.split)
  note defs = demo_sys_def demo_entry_heap_def move_def pc_is_def
  from orun_next [OF demo_orun unlock [of 1 NULL]]
  have "orun (\<lambda>_. True) (ostart 2)
    ([OCall 0 (Add ''k'' (1, Some ''x'', None)), OCall 1 (lookup_op ''k'' False), OTau, OEffect 1 (lookup_op ''k'' False) None] @ [OReturn 1 NULL None])
    (demo_sys None [demo_linking, O_Idle])"
    by (simp add: defs)
  from orun_next [OF this lock [of 0 "Linking ''k'' (1, Some ''x'', None) 0"]]
  have "orun (\<lambda>_. True) (ostart 2)
    (([OCall 0 (Add ''k'' (1, Some ''x'', None)), OCall 1 (lookup_op ''k'' False), OTau, OEffect 1 (lookup_op ''k'' False) None] @ [OReturn 1 NULL None]) @ [OTau])
    (demo_sys (Some 0) [O_Link ''k'' (1, Some ''x'', None) 0, O_Idle])"
    by (simp add: defs)
  from orun_next [OF this link [of 0 "''k''" "(1, Some ''x'', None)" 0]]
  show ?thesis
    by (simp add: defs link_entry_def assign_def new_rec_def empty_heap_def put_rec_def root)
qed

subsection \<open>What the threads can rely on\<close>

text \<open>C27: The store is linearisable: whatever the interleaving of the threads that add, look up,
  remove and collect, the operations in the order in which they took effect are a run of the
  machine of stacks with their answers; every call of every thread takes effect exactly once,
  between its beginning and its return, and returns the answer of its effect: a null pointer if
  there is none, and otherwise a pointer to an entry that holds the value when the lock is
  released.\<close>

theorem store_linearisable:
  assumes "\<And>n. mok n" "orun mok (ostart n) es s"
  shows "fst (spec_ops (map fst (effects es)) (\<lambda>_. [])) = map snd (effects es) \<and>
    (\<forall>i<n. foldl (next_phase i) (Some Ready) es \<noteq> None)"
  using orun_inv [of mok, OF assms(2,1)] orun_phase [of mok, OF assms(2,1)] by (auto simp: o_inv_def)

theorem store_linearisable_witness:
  "fst (spec_ops [lookup_op ''k'' False, Add ''k'' (1, Some ''x'', None)] (\<lambda>_. [])) = [None, None] \<and>
    foldl (next_phase 0) (Some Ready)
      [OCall 0 (Add ''k'' (1, Some ''x'', None)), OCall 1 (lookup_op ''k'' False), OTau, OEffect 1 (lookup_op ''k'' False) None,
        OReturn 1 NULL None, OTau, OEffect 0 (Add ''k'' (1, Some ''x'', None)) None] \<noteq> None \<and>
    foldl (next_phase 1) (Some Ready)
      [OCall 0 (Add ''k'' (1, Some ''x'', None)), OCall 1 (lookup_op ''k'' False), OTau, OEffect 1 (lookup_op ''k'' False) None,
        OReturn 1 NULL None, OTau, OEffect 0 (Add ''k'' (1, Some ''x'', None)) None] \<noteq> None"
  using store_linearisable [OF _ demo_returned] by (simp add: effects_def)

text \<open>No interleaving follows a null pointer or reads an entry that was freed, as long as the
  threads stay within the calls.\<close>

theorem store_threads_safe:
  assumes "\<And>n. mok n" "orun mok (ostart n) es s" "ostep mok s e r"
  shows "\<exists>s'. r = Inr s'"
  using ostep_kept [of mok, OF assms(3) orun_inv [of mok, OF assms(2,1)] assms(1)] by blast

theorem store_threads_safe_witness:
  "\<exists>s'. Inr (move 1 O_Idle (o_store (demo_sys (Some 1) [demo_linking, O_Unlock NULL]))
      ((demo_sys (Some 1) [demo_linking, O_Unlock NULL])\<lparr>o_mutex := None\<rparr>)) = (Inr s' :: fault + obj_sys)"
  by (rule store_threads_safe [OF _ demo_orun of_thread [OF unlock]]) (simp_all add: demo_sys_def pc_is_def)

text \<open>As long as a thread is inside a call, some thread inside a call can go on.\<close>

theorem store_no_deadlock:
  assumes "\<And>n. mok n" "orun mok (ostart n) es s" "i < n" "o_pcs s ! i \<noteq> O_Idle"
  shows "\<exists>j e s'. j < n \<and> o_pcs s ! j \<noteq> O_Idle \<and> tstep mok j s e (Inr s')"
proof -
  have len: "length (o_pcs s) = n"
    using orun_phase [of mok, OF assms(2,1)] by blast
  obtain xs ys zs kvs where rep: "o_rep s xs ys zs kvs"
    using orun_inv [of mok, OF assms(2,1)] by (auto simp: o_inv_def)
  then have lk: "o_mutex s = Some j \<longleftrightarrow> j < n \<and> o_crit (o_pcs s ! j)" for j
    by (simp add: o_rep_def o_locked_def len)
  have "\<exists>j e r. j < n \<and> o_pcs s ! j \<noteq> O_Idle \<and> tstep mok j s e r"
  proof (cases "o_mutex s")
    case None
    then obtain c where "o_pcs s ! i = O_Lock c"
      using lk [of i] assms(3,4) by (cases "o_pcs s ! i") auto
    with None show ?thesis
      using assms(3) lock [of i c s mok] by (fastforce simp: pc_is_def len)
  next
    case (Some j)
    then have "j < n" "o_crit (o_pcs s ! j)"
      using lk by simp_all
    with crit_steps [of j "o_pcs s ! j" s mok] show ?thesis
      by (fastforce simp: pc_is_def len)
  qed
  with tstep_kept [of mok, OF _ rep assms(1)] show ?thesis
    by blast
qed

theorem store_no_deadlock_witness:
  "\<exists>j e s'. j < 2 \<and> o_pcs (demo_sys (Some 1) [demo_linking, O_Unlock NULL]) ! j \<noteq> O_Idle \<and>
    tstep (\<lambda>_. True) j (demo_sys (Some 1) [demo_linking, O_Unlock NULL]) e (Inr s')"
  by (rule store_no_deadlock [OF _ demo_orun, where i = 0]) (simp_all add: demo_sys_def)

end
