(* ===== verification/Locks.thy ===== *)
theory Locks
  imports Prelude
begin

text \<open>
  The order in which the calls of src/obj.c, src/deps.c and src/evqueue.c take their mutexes.
  \<open>obj_add\<close> calls \<open>deps_complete\<close> under the lock of the store, and \<open>deps_complete\<close> pushes events
  under its own; so a call may hold three locks. The comments in \<open>deps_complete\<close> and \<open>deps_add\<close> say
  what must not be done; here is why it suffices for the mutexes, and why it does not suffice once
  a queue has a descriptor to notify: \<open>ev_push\<close> writes to it after it has released the mutex of the
  queue, but its caller may hold the other two.
\<close>

subsection \<open>What each call locks\<close>

text \<open>Queues are numbered; the dependencies use number 0. \<open>Notify\<close> is the write of one byte to the
  descriptor of a queue, which waits while the pipe is full, and \<open>Drain\<close> the read at the other end,
  which waits while it is empty.\<close>

datatype lock = ObjMutex | DepMutex | QueueMutex nat

datatype lock_act = Acquire lock | Release lock | Notify nat | Drain nat

text \<open>\<open>fd q\<close> says that queue \<open>q\<close> has a descriptor. \<open>ev_pop_wait\<close> gives the lock back each time it
  sleeps; as \<open>pthread_cond_timedwait\<close> always comes back, by a signal or by the clock, its sleep is
  the chance for others to take the lock, any number of times.\<close>

definition push_locks :: "(nat \<Rightarrow> bool) \<Rightarrow> nat \<Rightarrow> lock_act list" where
  "push_locks fd q = [Acquire (QueueMutex q), Release (QueueMutex q)] @ (if fd q then [Notify q] else [])"

definition pop_locks :: "nat \<Rightarrow> lock_act list" where
  "pop_locks q = [Acquire (QueueMutex q), Release (QueueMutex q)]"

definition pop_wait_locks :: "nat \<Rightarrow> nat \<Rightarrow> lock_act list" where
  "pop_wait_locks q n =
     Acquire (QueueMutex q) # concat (replicate n [Release (QueueMutex q), Acquire (QueueMutex q)]) @ [Release (QueueMutex q)]"

text \<open>\<open>deps_complete\<close>, with one event for each of the \<open>k\<close> entries that are complete.\<close>

definition complete_locks :: "(nat \<Rightarrow> bool) \<Rightarrow> nat \<Rightarrow> lock_act list" where
  "complete_locks fd k = Acquire DepMutex # concat (replicate k (push_locks fd 0)) @ [Release DepMutex]"

definition add_locks :: "(nat \<Rightarrow> bool) \<Rightarrow> nat \<Rightarrow> lock_act list" where
  "add_locks fd k = Acquire ObjMutex # complete_locks fd k @ [Release ObjMutex]"

text \<open>\<open>obj_get\<close> and \<open>obj_gc\<close>.\<close>

definition get_locks :: "lock_act list" where
  "get_locks = [Acquire ObjMutex, Release ObjMutex]"

text \<open>\<open>deps_add\<close> looks up its \<open>n\<close> keys before it takes the lock of the dependencies.\<close>

definition deps_add_locks :: "(nat \<Rightarrow> bool) \<Rightarrow> nat \<Rightarrow> nat \<Rightarrow> lock_act list" where
  "deps_add_locks fd n k = concat (replicate n get_locks) @ [Acquire DepMutex, Release DepMutex] @ complete_locks fd k"

text \<open>\<open>ReadFd\<close> is not a call of the library but what the owner of the descriptor does: it reads one
  byte from the other end.\<close>

datatype lib_call = ObjAdd nat | ObjGet | ObjGc | DepsAdd nat nat | EvPush nat | EvPop nat | EvPopWait nat nat | ReadFd nat

primrec call_locks :: "(nat \<Rightarrow> bool) \<Rightarrow> lib_call \<Rightarrow> lock_act list" where
  "call_locks fd (ObjAdd k) = add_locks fd k"
| "call_locks fd ObjGet = get_locks"
| "call_locks fd ObjGc = get_locks"
| "call_locks fd (DepsAdd n k) = deps_add_locks fd n k"
| "call_locks fd (EvPush q) = push_locks fd q"
| "call_locks fd (EvPop q) = pop_locks q"
| "call_locks fd (EvPopWait q n) = pop_wait_locks q n"
| "call_locks fd (ReadFd q) = [Drain q]"

subsection \<open>Threads that run them\<close>

text \<open>A mutex is taken when nobody has it, the thread itself included: the mutexes are not
  recursive. A pipe holds \<open>cap\<close> bytes.\<close>

record lock_sys =
  owner :: "lock \<Rightarrow> nat option"
  pipe :: "nat \<Rightarrow> nat"
  progs :: "lock_act list list"

definition lock_step :: "nat \<Rightarrow> nat \<Rightarrow> lock_sys \<Rightarrow> lock_sys option" where
  "lock_step cap i s =
     (if i < length (progs s) then
        (case progs s ! i of
           [] \<Rightarrow> None
         | Acquire l # p \<Rightarrow>
             (if owner s l = None then Some (s\<lparr>owner := (owner s)(l := Some i), progs := (progs s)[i := p]\<rparr>) else None)
         | Release l # p \<Rightarrow> Some (s\<lparr>owner := (owner s)(l := None), progs := (progs s)[i := p]\<rparr>)
         | Notify q # p \<Rightarrow>
             (if pipe s q < cap then Some (s\<lparr>pipe := (pipe s)(q := pipe s q + 1), progs := (progs s)[i := p]\<rparr>) else None)
         | Drain q # p \<Rightarrow>
             (if 0 < pipe s q then Some (s\<lparr>pipe := (pipe s)(q := pipe s q - 1), progs := (progs s)[i := p]\<rparr>) else None))
      else None)"

fun lock_run :: "nat \<Rightarrow> nat list \<Rightarrow> lock_sys \<Rightarrow> lock_sys option" where
  "lock_run cap [] s = Some s"
| "lock_run cap (i # is) s = Option.bind (lock_step cap i s) (lock_run cap is)"

definition threads :: "lock_act list list \<Rightarrow> lock_sys" where
  "threads ps = \<lparr>owner = (\<lambda>_. None), pipe = (\<lambda>_. 0), progs = ps\<rparr>"

subsection \<open>The order of the locks\<close>

primrec rank :: "lock \<Rightarrow> nat" where
  "rank ObjMutex = 0"
| "rank DepMutex = 1"
| "rank (QueueMutex q) = 2"

text \<open>With the locks \<open>hs\<close> held, the rest of a program releases what it took last and takes only locks
  that come after all it holds. Nobody who holds a lock waits for a byte.\<close>

fun ordered :: "lock list \<Rightarrow> lock_act list \<Rightarrow> bool" where
  "ordered hs [] = (hs = [])"
| "ordered hs (Acquire l # p) = ((\<forall>h\<in>set hs. rank h < rank l) \<and> ordered (l # hs) p)"
| "ordered hs (Release l # p) = (hs \<noteq> [] \<and> hd hs = l \<and> ordered (tl hs) p)"
| "ordered hs (Notify q # p) = ordered hs p"
| "ordered hs (Drain q # p) = (hs = [] \<and> ordered hs p)"

lemma ordered_replicate:
  assumes "\<And>q. ordered hs q \<Longrightarrow> ordered hs (p @ q)" "ordered hs q"
  shows "ordered hs (concat (replicate n p) @ q)"
  using assms by (induction n) simp_all

lemma ordered_complete: "ordered hs q \<Longrightarrow> \<forall>h\<in>set hs. rank h < 1 \<Longrightarrow> ordered hs (complete_locks fd k @ q)"
  using ordered_replicate [of "DepMutex # hs" "push_locks fd 0" "Release DepMutex # q" k]
  by (fastforce simp: complete_locks_def push_locks_def)

lemma ordered_call: "ordered [] q \<Longrightarrow> ordered [] (call_locks fd c @ q)"
proof (cases c)
  case (ObjAdd k)
  assume "ordered [] q"
  then have "ordered [ObjMutex] (complete_locks fd k @ Release ObjMutex # q)"
    by (intro ordered_complete) simp_all
  then show ?thesis
    by (simp add: ObjAdd add_locks_def)
next
  case (DepsAdd n k)
  assume "ordered [] q"
  then have "ordered [] (complete_locks fd k @ q)"
    by (intro ordered_complete) simp_all
  then show ?thesis
    using ordered_replicate [of "[]" get_locks "Acquire DepMutex # Release DepMutex # complete_locks fd k @ q" n]
    by (simp add: DepsAdd deps_add_locks_def get_locks_def)
next
  case (EvPopWait i n)
  assume "ordered [] q"
  then have "ordered [QueueMutex i] (concat (replicate n [Release (QueueMutex i), Acquire (QueueMutex i)]) @ Release (QueueMutex i) # q)"
    by (intro ordered_replicate) simp_all
  then show ?thesis
    by (simp add: EvPopWait pop_wait_locks_def)
qed (simp_all add: get_locks_def push_locks_def pop_locks_def)

lemma ordered_calls: "ordered [] (concat (map (call_locks fd) cs))"
  by (induction cs) (simp_all add: ordered_call)

subsection \<open>No deadlock\<close>

definition lock_inv :: "lock_sys \<Rightarrow> lock list list \<Rightarrow> bool" where
  "lock_inv s hs \<longleftrightarrow> length hs = length (progs s) \<and> (\<forall>i<length hs. ordered (hs ! i) (progs s ! i) \<and> distinct (hs ! i)) \<and>
     (\<forall>l i. owner s l = Some i \<longleftrightarrow> i < length hs \<and> l \<in> set (hs ! i))"

lemma lock_step_inv:
  assumes "lock_step cap i s = Some s'" "lock_inv s hs"
  shows "\<exists>hs'. lock_inv s' hs'"
proof -
  have i: "i < length hs" "length hs = length (progs s)" "ordered (hs ! i) (progs s ! i)"
    and own: "\<And>l j. owner s l = Some j \<longleftrightarrow> j < length hs \<and> l \<in> set (hs ! j)"
    using assms by (auto simp: lock_step_def lock_inv_def split: if_splits)
  obtain a p where p: "progs s ! i = a # p"
    using assms(1) by (auto simp: lock_step_def split: if_splits list.splits)
  show ?thesis
  proof (cases a)
    case (Acquire l)
    have free: "owner s l = None" "s' = s\<lparr>owner := (owner s)(l := Some i), progs := (progs s)[i := p]\<rparr>"
      using assms(1) i p Acquire by (auto simp: lock_step_def split: if_splits)
    have "j < length hs \<Longrightarrow> l \<notin> set (hs ! j)" for j
      using own [of l j] free(1) by simp
    then have "lock_inv s' (hs[i := l # hs ! i])"
      using assms(2) i p Acquire own by (auto simp: lock_inv_def free(2) nth_list_update)
    then show ?thesis ..
  next
    case (Release l)
    have s': "s' = s\<lparr>owner := (owner s)(l := None), progs := (progs s)[i := p]\<rparr>"
      using assms(1) i p Release by (simp add: lock_step_def)
    obtain r where r: "hs ! i = l # r" "l \<notin> set r" "distinct r"
      using i p Release assms(2) by (cases "hs ! i") (auto simp: lock_inv_def)
    have mine: "j = i" if "j < length hs" "l \<in> set (hs ! j)" for j
      using own [of l j] own [of l i] that i(1) r(1) by simp
    have "owner s' k = Some j \<longleftrightarrow> j < length hs \<and> k \<in> set (hs[i := r] ! j)" for k j
    proof (cases "j = i")
      case True
      then show ?thesis
        using own [of k i] i(1) r(1,2) by (cases "k = l") (simp_all add: s')
    next
      case False
      then show ?thesis
        using own [of k j] mine [of j] by (cases "k = l") (auto simp: s')
    qed
    moreover have "ordered (hs[i := r] ! j) (progs s' ! j) \<and> distinct (hs[i := r] ! j)" if "j < length hs" for j
      using assms(2) i p Release r that by (cases "j = i") (simp_all add: lock_inv_def s')
    ultimately have "lock_inv s' (hs[i := r])"
      using i(2) by (simp add: lock_inv_def) (simp add: s')
    then show ?thesis ..
  next
    case (Notify q)
    have "owner s' = owner s" "progs s' = (progs s)[i := p]"
      using assms(1) i p Notify by (auto simp: lock_step_def split: if_splits)
    with assms(2) i p Notify have "lock_inv s' hs"
      by (auto simp: lock_inv_def nth_list_update)
    then show ?thesis ..
  next
    case (Drain q)
    have "owner s' = owner s" "progs s' = (progs s)[i := p]"
      using assms(1) i p Drain by (auto simp: lock_step_def split: if_splits)
    with assms(2) i p Drain have "lock_inv s' hs"
      by (auto simp: lock_inv_def nth_list_update)
    then show ?thesis ..
  qed
qed

lemma lock_run_inv: "lock_run cap is s = Some s' \<Longrightarrow> lock_inv s hs \<Longrightarrow> \<exists>hs'. lock_inv s' hs'"
proof (induction "is" arbitrary: s hs)
  case (Cons i "is")
  then obtain u where "lock_step cap i s = Some u" "lock_run cap is u = Some s'"
    by (auto simp: bind_eq_Some_conv)
  with Cons lock_step_inv show ?case
    by blast
qed auto

lemma lock_run_append: "lock_run cap (xs @ ys) s = Option.bind (lock_run cap xs s) (lock_run cap ys)"
proof (induction xs arbitrary: s)
  case (Cons i xs)
  then show ?case
    by (cases "lock_step cap i s") simp_all
qed simp

text \<open>A step takes the first action of one program.\<close>

lemma lock_step_progs:
  assumes "lock_step cap i s = Some s'"
  shows "\<exists>a p. i < length (progs s) \<and> progs s ! i = a # p \<and> progs s' = (progs s)[i := p]"
  using assms by (auto simp: lock_step_def split: if_splits list.splits lock_act.splits)

lemma lock_step_size:
  assumes "lock_step cap i s = Some s'"
  shows "sum_list (map length (progs s)) = Suc (sum_list (map length (progs s')))" "length (progs s') = length (progs s)"
proof -
  obtain a p where p: "i < length (progs s)" "progs s ! i = a # p" "progs s' = (progs s)[i := p]"
    using lock_step_progs [OF assms] by blast
  have "sum_list (map length xs) = Suc (sum_list (map length (xs[i := p])))" if "i < length xs" "xs ! i = a # p" for xs
    using that by (induction xs arbitrary: i) (auto split: nat.split simp: nth_Cons')
  with p show "sum_list (map length (progs s)) = Suc (sum_list (map length (progs s')))" "length (progs s') = length (progs s)"
    by simp_all
qed

lemma lock_run_size: "lock_run cap is s = Some s' \<Longrightarrow> sum_list (map length (progs s)) = length is + sum_list (map length (progs s'))"
  by (induction "is" arbitrary: s) (auto simp: bind_eq_Some_conv dest: lock_step_size)

text \<open>Bytes are written only to the descriptors there are.\<close>

definition notes_ok :: "(nat \<Rightarrow> bool) \<Rightarrow> lock_act list list \<Rightarrow> bool" where
  "notes_ok fd ps \<longleftrightarrow> (\<forall>p\<in>set ps. \<forall>q. Notify q \<in> set p \<longrightarrow> fd q)"

lemma notes_ok_calls: "notes_ok fd (map (\<lambda>cs. concat (map (call_locks fd) cs)) css)"
proof -
  have "fd q" if "Notify q \<in> set (call_locks fd c)" for c q
    using that by (cases c) (auto simp: add_locks_def complete_locks_def push_locks_def get_locks_def deps_add_locks_def
        pop_locks_def pop_wait_locks_def split: if_splits)
  then show ?thesis
    by (auto simp: notes_ok_def)
qed

lemma notes_ok_run: "lock_run cap is s = Some s' \<Longrightarrow> notes_ok fd (progs s) \<Longrightarrow> notes_ok fd (progs s')"
proof (induction "is" arbitrary: s)
  case (Cons i "is")
  then obtain u where u: "lock_step cap i s = Some u" "lock_run cap is u = Some s'"
    by (auto simp: bind_eq_Some_conv)
  obtain a p where p: "i < length (progs s)" "progs s ! i = a # p" "progs u = (progs s)[i := p]"
    using lock_step_progs [OF u(1)] by blast
  then have "a # p \<in> set (progs s)"
    by (metis nth_mem)
  then have "notes_ok fd (progs u)"
    using Cons.prems(2) set_update_subset_insert [of "progs s" i p] by (fastforce simp: notes_ok_def p(3))
  with Cons.IH u(2) show ?case
    by blast
qed simp

text \<open>Of the locks that are held take the last one in the order: its owner can go on, unless it
  writes to a full pipe.\<close>

lemma lock_progress:
  assumes inv: "lock_inv s hs" and stuck: "\<forall>j. lock_step cap j s = None"
    and no_note: "\<forall>p\<in>set (progs s). \<forall>q. hd p = Notify q \<longrightarrow> p = [] \<or> pipe s q < cap"
    and p: "p \<in> set (progs s)" "p \<noteq> []"
  shows "\<exists>q. hd p = Drain q \<and> pipe s q = 0"
proof -
  have waits: "(\<exists>l j. progs s ! k = Acquire l # tl (progs s ! k) \<and> owner s l = Some j) \<or> (\<exists>q. hd (progs s ! k) = Drain q \<and> pipe s q = 0)"
    if k: "k < length (progs s)" "progs s ! k \<noteq> []" for k
  proof -
    obtain a r where a: "progs s ! k = a # r"
      using k(2) by (cases "progs s ! k") auto
    moreover have "a # r \<in> set (progs s)"
      using k(1) a by (metis nth_mem)
    ultimately show ?thesis
      using stuck [rule_format, of k] k(1) no_note by (cases a) (fastforce simp: lock_step_def split: if_splits)+
  qed
  define H where "H = {l. owner s l \<noteq> None}"
  have own: "owner s l = Some j \<longleftrightarrow> j < length hs \<and> l \<in> set (hs ! j)" for l j
    using inv by (simp add: lock_inv_def)
  have free: "H = {}"
  proof (rule ccontr)
    assume ne: "H \<noteq> {}"
    have "H \<subseteq> (\<Union>h\<in>set hs. set h)"
      using own by (fastforce simp: H_def)
    then have "finite H"
      by (rule finite_subset) simp
    with ne have "Max (rank ` H) \<in> rank ` H" "\<forall>k\<in>H. rank k \<le> Max (rank ` H)"
      by (simp_all del: Max_in add: Max_in [of "rank ` H"])
    then obtain l where l: "l \<in> H" "\<forall>k\<in>H. rank k \<le> rank l"
      by (metis imageE)
    then obtain j where j: "owner s l = Some j"
      by (auto simp: H_def)
    with inv own have h: "j < length (progs s)" "l \<in> set (hs ! j)" "ordered (hs ! j) (progs s ! j)"
      by (auto simp: lock_inv_def)
    then have busy: "progs s ! j \<noteq> []"
      by (cases "progs s ! j") auto
    then obtain a r where a: "progs s ! j = a # r"
      by (cases "progs s ! j") auto
    from h have "a \<noteq> Drain q" for q
      by (auto simp: a)
    then obtain k where k: "a = Acquire k" "owner s k \<noteq> None"
      using waits [OF h(1) busy] by (auto simp: a)
    then have "rank l < rank k"
      using h(2,3) by (simp add: a)
    with l(2) k(2) show False
      by (auto simp: H_def)
  qed
  obtain i where "i < length (progs s)" "progs s ! i = p"
    using p(1) by (auto simp: in_set_conv_nth)
  with waits [of i] p(2) free show ?thesis
    by (auto simp: H_def)
qed

text \<open>C28: Threads that make any calls of the object store, of the dependencies and of the event queues,
  and read the descriptors of queues: no run is longer than the calls together, and when a run
  cannot go on, either every thread has finished its calls or waits to read from an empty pipe, or
  some thread waits to write to the full pipe of a queue that has a descriptor. In particular the
  mutexes alone never block: without a descriptor all calls of the library finish.\<close>

theorem locks_no_deadlock:
  assumes "lock_run cap is (threads (map (\<lambda>cs. concat (map (call_locks fd) cs)) css)) = Some s"
  shows "length is \<le> sum_list (map (\<lambda>cs. length (concat (map (call_locks fd) cs))) css) \<and>
    ((\<forall>i. lock_step cap i s = None) \<longrightarrow>
       list_all (\<lambda>p. p = [] \<or> (\<exists>q. hd p = Drain q \<and> pipe s q = 0)) (progs s) \<or>
       (\<exists>q. fd q \<and> cap \<le> pipe s q \<and> (\<exists>p\<in>set (progs s). p \<noteq> [] \<and> hd p = Notify q)))"
proof -
  let ?s = "threads (map (\<lambda>cs. concat (map (call_locks fd) cs)) css)"
  have "lock_inv ?s (map (\<lambda>_. []) css)"
    by (auto simp: lock_inv_def threads_def ordered_calls)
  then obtain hs where hs: "lock_inv s hs"
    using lock_run_inv [OF assms] by blast
  have "notes_ok fd (progs s)"
    using notes_ok_run [OF assms] notes_ok_calls [of fd css] by (simp add: threads_def)
  then have "fd q" if "p \<in> set (progs s)" "p \<noteq> []" "hd p = Notify q" for p q
    using that hd_in_set [of p] by (auto simp: notes_ok_def)
  with lock_progress [OF hs, of cap] have "(\<forall>i. lock_step cap i s = None) \<longrightarrow>
       list_all (\<lambda>p. p = [] \<or> (\<exists>q. hd p = Drain q \<and> pipe s q = 0)) (progs s) \<or>
       (\<exists>q. fd q \<and> cap \<le> pipe s q \<and> (\<exists>p\<in>set (progs s). p \<noteq> [] \<and> hd p = Notify q))"
    unfolding list_all_iff by (meson not_le)
  moreover have "length is \<le> sum_list (map (\<lambda>cs. length (concat (map (call_locks fd) cs))) css)"
    using lock_run_size [OF assms] by (simp add: threads_def comp_def)
  ultimately show ?thesis
    by (rule conjI [rotated])
qed

theorem locks_no_deadlock_witness:
  "length [0::nat, 1, 0, 1, 0, 0, 0, 0, 0, 1, 1, 1] \<le>
      sum_list (map (\<lambda>cs. length (concat (map (call_locks (\<lambda>q. q = 0)) cs))) [[ObjAdd 1], [EvPop 0, ObjGet, ReadFd 0]]) \<and>
    (\<exists>s. lock_run 1 [0, 1, 0, 1, 0, 0, 0, 0, 0, 1, 1, 1]
      (threads (map (\<lambda>cs. concat (map (call_locks (\<lambda>q. q = 0)) cs)) [[ObjAdd 1], [EvPop 0, ObjGet, ReadFd 0]])) = Some s \<and> progs s = [[], []])"
proof -
  note defs = add_locks_def complete_locks_def push_locks_def pop_locks_def get_locks_def lock_step_def threads_def
  let ?p = "map (\<lambda>cs. concat (map (call_locks (\<lambda>q. q = 0)) cs)) [[ObjAdd 1], [EvPop 0, ObjGet, ReadFd 0]]"
  obtain s where s: "lock_run 1 [0, 1, 0, 1, 0, 0, 0, 0, 0, 1, 1, 1] (threads ?p) = Some s" "progs s = [[], []]"
    by (simp add: defs)
  with locks_no_deadlock [OF s(1)] show ?thesis
    by blast
qed

subsection \<open>What does block\<close>

text \<open>Plan B of the comment in \<open>deps_add\<close>, looking the keys up under the lock of the dependencies, does
  block against an \<open>obj_add\<close>.\<close>

definition plan_b_locks :: "(nat \<Rightarrow> bool) \<Rightarrow> nat \<Rightarrow> nat \<Rightarrow> lock_act list" where
  "plan_b_locks fd n k = Acquire DepMutex # concat (replicate n get_locks) @ [Release DepMutex] @ complete_locks fd k"

lemma plan_b_deadlocks:
  "\<exists>s. lock_run cap [0, 1] (threads [plan_b_locks fd 1 0, add_locks fd 0]) = Some s \<and> (\<forall>i. lock_step cap i s = None) \<and> progs s ! 0 \<noteq> []"
  by (auto simp: plan_b_locks_def get_locks_def add_locks_def complete_locks_def lock_step_def threads_def nth_Cons')

text \<open>And so does an observer of the queue of the dependencies that looks at the store before it reads:
  an \<open>obj_add\<close> that announces one dependency more than the pipe holds waits for the observer with
  both mutexes held, and the observer waits for \<open>obj_mutex\<close>.\<close>

lemma fill_pipe:
  "owner s (QueueMutex 0) = None \<Longrightarrow> fd 0 \<Longrightarrow> pipe s 0 + k \<le> cap \<Longrightarrow> progs s = [concat (replicate k (push_locks fd 0)) @ p, r] \<Longrightarrow>
    lock_run cap (replicate (3 * k) 0) s = Some (s\<lparr>pipe := (pipe s)(0 := pipe s 0 + k), progs := [p, r]\<rparr>)"
proof (induction k arbitrary: s)
  case (Suc k)
  let ?u = "s\<lparr>pipe := (pipe s)(0 := pipe s 0 + 1), progs := [concat (replicate k (push_locks fd 0)) @ p, r]\<rparr>"
  have own: "(owner s)(QueueMutex 0 := None) = owner s"
    using Suc.prems(1) by (simp add: fun_upd_idem)
  have "lock_run cap [0, 0, 0] s = Some ?u"
    using Suc.prems own by (cases s) (simp add: lock_step_def push_locks_def)
  moreover have "lock_run cap (replicate (3 * k) 0) ?u = Some (?u\<lparr>pipe := (pipe ?u)(0 := pipe ?u 0 + k), progs := [p, r]\<rparr>)"
    using Suc.prems by (intro Suc.IH) simp_all
  moreover have "replicate (3 * Suc k) (0 :: nat) = [0, 0, 0] @ replicate (3 * k) 0"
    by (simp add: numeral_3_eq_3)
  ultimately have "lock_run cap (replicate (3 * Suc k) 0) s = Some (?u\<lparr>pipe := (pipe ?u)(0 := pipe ?u 0 + k), progs := [p, r]\<rparr>)"
    by (simp only: lock_run_append bind.simps)
  moreover have "(pipe ?u)(0 := pipe ?u 0 + k) = (pipe s)(0 := pipe s 0 + Suc k)"
    by auto
  ultimately show ?case
    by (simp del: fun_upd_apply)
qed simp

theorem notify_deadlocks:
  assumes "fd 0"
  shows "\<exists>is s. lock_run cap is (threads [call_locks fd (ObjAdd (Suc cap)), call_locks fd ObjGet @ call_locks fd (ReadFd 0)]) = Some s \<and>
    (\<forall>i. lock_step cap i s = None) \<and> list_all (\<lambda>p. p \<noteq> []) (progs s) \<and> pipe s 0 = cap"
proof -
  let ?rest = "Notify 0 # Release DepMutex # [Release ObjMutex]" and ?get = "get_locks @ [Drain 0]"
  let ?fin = "Release DepMutex # [Release ObjMutex]"
  let ?own = "(\<lambda>_. None)(ObjMutex := Some 0, DepMutex := Some 0)"
  let ?s = "\<lparr>owner = ?own, pipe = (\<lambda>_. 0), progs = [concat (replicate cap (push_locks fd 0)) @ push_locks fd 0 @ ?fin, ?get]\<rparr>"
  have "concat (replicate (Suc cap) (push_locks fd 0)) = concat (replicate cap (push_locks fd 0)) @ push_locks fd 0"
    by (induction cap) simp_all
  then have start: "lock_run cap [0, 0] (threads [call_locks fd (ObjAdd (Suc cap)), call_locks fd ObjGet @ call_locks fd (ReadFd 0)]) = Some ?s"
    by (simp add: threads_def add_locks_def complete_locks_def lock_step_def del: replicate_Suc)
  let ?t = "\<lparr>owner = ?own, pipe = (\<lambda>_. 0)(0 := cap), progs = [push_locks fd 0 @ ?fin, ?get]\<rparr>"
  have fill: "lock_run cap (replicate (3 * cap) 0) ?s = Some ?t"
    using fill_pipe [of ?s fd cap cap "push_locks fd 0 @ ?fin" ?get] assms by simp
  let ?u = "\<lparr>owner = ?own, pipe = (\<lambda>_. 0)(0 := cap), progs = [?rest, ?get]\<rparr>"
  have last: "lock_run cap [0, 0] ?t = Some ?u"
    using assms by (simp add: lock_step_def push_locks_def fun_upd_idem fun_upd_twist)
  have "lock_run cap ([0, 0] @ replicate (3 * cap) 0 @ [0, 0])
      (threads [call_locks fd (ObjAdd (Suc cap)), call_locks fd ObjGet @ call_locks fd (ReadFd 0)]) = Some ?u"
    unfolding lock_run_append start fill last bind.simps ..
  moreover have "lock_step cap i ?u = None" for i
    by (auto simp: lock_step_def nth_Cons' get_locks_def)
  ultimately show ?thesis
    by (intro exI [of _ "[0, 0] @ replicate (3 * cap) 0 @ [0, 0]"] exI [of _ ?u]) (simp add: get_locks_def)
qed

theorem notify_deadlocks_witness:
  "\<exists>is s. lock_run 2 is (threads [call_locks (\<lambda>q. q = 0) (ObjAdd (Suc 2)), call_locks (\<lambda>q. q = 0) ObjGet @ call_locks (\<lambda>q. q = 0) (ReadFd 0)]) = Some s \<and>
    (\<forall>i. lock_step 2 i s = None) \<and> list_all (\<lambda>p. p \<noteq> []) (progs s) \<and> pipe s 0 = 2"
  by (rule notify_deadlocks) simp

end
