(* ===== verification/Spec2Isabelle.thy ===== *)
theory Spec2Isabelle
  imports Prelude Heap Sock Sfs SfsSpec SfsLoad SfsType MemSfs FdSfs HttpOut HcSfs EvQueue Revq Deps Obj ObjSpec DepsAdd Robj
    HttpIn HttpSafe HttpParse HttpFaults HttpBuf Therver TherverSafe TherverRun Osrv Ohsrv HttpCut Ocli Servers Work Tls
    MemVerb ObjThreads Locks
begin

text \<open>
  A verification development for osrv, an object server for R: the C code under src/src.

  \<^bold>\<open>The program.\<close> R puts objects under keys into an object store (obj.c, robj.c). Threads of a
  small server framework (therver.c) serve the store to clients over a line protocol (osrv.c) or
  over HTTP (http.c, ohsrv.c). An object travels as a stream of frames, written and read by one
  serialiser (sfs.c) through an interface with several back ends: memory (mem\_store.c,
  mem\_restore.c), statistics (stat\_store.c), files and sockets (fd\_store.c, fd\_restore.c,
  sock\_restore.c) and a chunked HTTP body (hcstore.c). Messages can wait for a set of keys
  (deps.c): when the last key is stored, the message is pushed on an event queue (evqueue.c), from
  which R pops it (revq.c); clients of the HTTP server push their own work on the same queue. A
  client in C (ocli.c) asks the TCP server.

  \<^bold>\<open>How C is modelled.\<close> A \<open>char\<close> is a character of HOL and a buffer is a string; memory that is
  allocated but not written is a list of cells, \<open>None\<close> being an indeterminate byte (Prelude).
  Integers whose width matters are words (lengths of frames, counters, positions), the others are
  naturals or integers within proved bounds. Structures that are linked by pointers live in a
  typed heap, a partial map from addresses (Heap): following a null pointer, using a freed block,
  reading an unwritten cell or running over the end of a buffer is a value of the type \<open>ub\<close>, an R
  error (a long jump) a value of \<open>r_error\<close>, and a fallible function returns \<open>fault + 'a\<close>. The
  network is a script of read events and of write sizes carried by the socket (Sock): every way to
  cut a stream into packets, time-outs, errors and short writes is some script. What R allocates
  and \<open>malloc\<close> are parameters; only the further buffers of mem\_store.c, whose \<open>malloc\<close> the code does
  not check, and its result are taken to be allocated. The two fields that \<open>http_store\<close> does not set
  are arguments, over which the properties are quantified.

  \<^bold>\<open>Theories, in the order of the code.\<close>
  \<^item> Prelude: faults, sequencing, bytes of integers, C strings. Heap: typed heaps and linked
    lists. Sock: sockets and sconn.c.
  \<^item> Sfs: sfs.c (\<open>store\<close>, \<open>decode_one\<close>, \<open>sfs_load\<close>). SfsSpec: the stream of a value as a list of
    frames (\<open>frames\<close>, \<open>wire\<close>), its normal form \<open>norm\<close>, and the locale \<open>store_api\<close> of a
    back end that writes. SfsLoad: the locales \<open>fetch_api\<close> and \<open>strict_fetch_api\<close> of a back end that
    reads; in them the round trip, and termination on every input. SfsType: what is read is
    well formed.
  \<^item> MemSfs, FdSfs, HcSfs: the back ends, each an interpretation of these locales. MemVerb: the
    verbose mode of mem\_store.c.
  \<^item> EvQueue: evqueue.c and the R functions of revq.c, the locales \<open>queue\<close> and \<open>deque\<close> and their
    interpretation on the linked list; Revq: the handles that R has for queues. Deps: deps.c up to
    \<open>deps_complete\<close>; DepsAdd: \<open>deps_add\<close> and rdeps.c. Obj: obj.c and its interpretation of the locale
    \<open>keyed_store\<close>; ObjSpec: the store as a machine of stacks; ObjThreads: obj.c as a step relation on
    the threads that use it (\<open>tstep\<close>), with its invariant \<open>o_inv\<close>; Robj: robj.c. Locks: the mutexes
    that the calls of store, dependencies and queues take, in their order, and the byte that \<open>ev_push\<close>
    writes to the descriptor of a queue.
  \<^item> HttpOut: the sending half of http.c. HttpIn: the receiving half, from \<open>http_connected\<close> down to
    the header lines. HttpSafe: the invariant \<open>http_conn_ok\<close> of a connection and, in the locale
    \<open>http_handler\<close> of request handlers, that \<open>http_connected\<close> ends. HttpParse: the request that the
    bytes of a well-formed message make; \<open>uri_decode\<close>. HttpFaults: two messages that go wrong.
    HttpBuf: the header buffers with their links, and the freeing of a connection; the parser works
    with their list.
  \<^item> Therver: therver.c as a step relation on the threads. TherverSafe: its invariant
    \<open>therver_ok\<close> and the locale \<open>process_contract\<close> of what may be served. TherverRun: reachable
    states. Osrv and Ohsrv: the two object servers, each an interpretation of
    \<open>process_contract\<close>, and Ohsrv one of \<open>http_handler\<close>; HttpCut: a PUT that is cut off; Servers: starting them, and all threads
    together; Work: from a POST, or from the last object of a dependency, to what R pops; Ocli: the
    client, and client and server together. Tls: tls.c with OpenSSL as a parameter.

  \<^bold>\<open>State and operations.\<close> A record of the model has the fields of the structure of the same name
  (\<open>mem_store\<close>, \<open>hc_store\<close>, \<open>ev_entry\<close>, \<open>ev_queue\<close>, \<open>depent\<close>, \<open>obj_entry\<close>, \<open>http_request\<close>,
  \<open>http_conn\<close>, \<open>qentry\<close>, \<open>therver_s\<close>); static variables are fields of the state of their file
  (\<open>deps\<close>, \<open>store\<close>). An operation has the name of its C function. Where a function is cut, the
  part is named after what it does (\<open>request_line\<close>, \<open>headers_done\<close> and \<open>body_input\<close> of
  \<open>http_input_iteration\<close>; \<open>serve_get\<close>, \<open>serve_put\<close> of \<open>do_process\<close>; \<open>ask_header\<close> of \<open>C_ask\<close>) and
  the whole composes the parts as the code does. A critical section of a mutex is one step of the
  queue and of the dependencies; the threads of a server and those on the object store are finer,
  one step for each access to what they share.

  \<^bold>\<open>What is proved.\<close>
  \<^item> Serialisation: storing is emitting the frames of the value; memory, file, socket and HTTP round
    trips up to \<open>norm\<close>, for every fragmentation; loading of arbitrary bytes ends, stays in its
    buffers and returns well-formed values.
  \<^item> Queue, dependencies, store: each linked structure implements an abstract list or map (the
    store, for every sequence of its operations and for every interleaving of threads that call
    them, stacks of values, each call returning the answer of the moment at which it takes effect);
    the mutexes of these calls never block each other, only the write to the full pipe of a queue
    with a descriptor can; a dependency is announced once, when its last key is stored; R objects are
    preserved as often as they are referred to; entries live until the collection after their
    removal.
  \<^item> Servers: sessions of both protocols from the client's bytes to the answers; a request body
    is the same for all packets; an HTTP connection always ends, and its faults are those of the
    buffers of http.c and hcstore.c as long as the store has readable entries (\<open>web_good\<close>); in every
    interleaving of a started server the only faults are those that serving a connection has
    (\<open>process_fault\<close>; \<open>osrv_conn\<close> and \<open>ohsrv_conn\<close> include the runs that fault), each descriptor has
    one owner, connections are served in their order and no wake-up is lost; the last object of a dependency, put over
    HTTP, makes R pop the message of the dependency.
  \<^item> Client: it gets what the server has, and when it returns.
  \<^item> Defects, each as a theorem on the real functions: the dangling tail and the lost wake-up of
    deps.c, results of more than one buffer, the fields that \<open>http_store\<close> leaves uninitialised, PUT in
    several packets, a PUT cut off in its headers, a long header, a line end that is split, a shutdown
    that strands connections, a fork between the two last steps of the acceptor, a notification
    written under locks, the client that reads for ever, and others.

  \<^bold>\<open>Fuel and bounds.\<close> Loops on C strings, packets and positions are total functions with a measure.
  \<open>sfs_load\<close> recurses through the stream: its fuel bounds the depth, and one more than an eighth
  of the input is enough because each level reads an eight-byte header (\<open>load_total\<close>). Walks over
  linked lists take the number of allocated addresses plus one, enough since addresses of a list are
  distinct. \<open>input_loop\<close> takes the number of bytes and events to come plus two, because an
  iteration reads or closes. The same measure bounds the loop of \<open>do_process\<close>. \<open>ask_header\<close> may really
  run for ever and is a partial function: \<open>None\<close> is a call that does not return.

  \<^bold>\<open>Not modelled.\<close> TLS inside a running connection: both servers leave it off (they pass no flags
  to \<open>http_connected\<close>), so \<open>http_connected\<close> is modelled without it and \<open>tls_section\<close> apart; and the
  stubs of tls.c for a build without TLS, which return constants. R's garbage collection and the
  protection of values; user interrupts; messages to the console other than those of MemVerb; signal
  masks and thread attributes; the absolute time of \<open>ev_pop_wait\<close>; the calls of finalisers; the
  second copy of the payload in \<open>do_process\<close> of osrv.c, which repeats the first. R objects are told apart
  by their value, not by their address. The lists of actions in Locks are written beside the
  functions of the other theories, one for each function. The rest
  of the C files is comments, includes and prototypes and the registration of native routines; the R
  code only calls the C functions.
\<close>

end
